(* ===== verification/WV_Prelude.thy ===== *)
theory WV_Prelude
  imports "HOL-Library.Word" "HOL-Library.Monad_Syntax"
begin

text \<open>
  Shared vocabulary of the development: the C integer types of \<open>include/type.h\<close>, byte
  buffers, \<open>memcpy\<close>, and the generic facts on lists and options the component theories use.

  \<open>None\<close> is, everywhere in the development, "the C call has no defined result": a busy wait
  that never ends, or a read or write outside a buffer.
\<close>

unbundle bit_operations_syntax

type_synonym u8 = "8 word"
type_synonym u16 = "16 word"
type_synonym u32 = "32 word"
type_synonym bytes = "u8 list"

named_theorems image_intros \<open>steps that keep a flash image well formed\<close>
named_theorems hdr_simps \<open>reading and writing the block header of a buffer\<close>

section \<open>Copying between buffers\<close>

text \<open>
  \<open>memcpy (dst, src, n)\<close>: the first \<open>n\<close> bytes of \<open>dst\<close> become those of
  \<open>src\<close>. C leaves the call undefined when either buffer is shorter than \<open>n\<close>.
\<close>

definition memcpy :: "bytes \<Rightarrow> bytes \<Rightarrow> nat \<Rightarrow> bytes option" where
  "memcpy dst src n =
     (if n \<le> length src \<and> n \<le> length dst then Some (take n src @ drop n dst) else None)"

section \<open>Lists, options and words\<close>

lemma bit_beyond: "LENGTH('a::len) \<le> n \<Longrightarrow> bit (w :: 'a word) n = False"
  by (meson bit_imp_le_length not_le)

lemma bind_Some_iff:
  "Option.bind m f = Some y \<longleftrightarrow> (\<exists>x. m = Some x \<and> f x = Some y)"
  by (cases m) auto

lemma take4_conv:
  assumes "4 \<le> length xs"
  shows "take 4 xs = [xs ! 0, xs ! 1, xs ! 2, xs ! 3]"
  using assms by (cases xs; cases "tl xs"; cases "tl (tl xs)"; cases "tl (tl (tl xs))")
    (auto simp: numeral_eq_Suc)

lemma find_upt_least:
  assumes "find P [0..<n] = Some m"
  shows "m < n \<and> P m \<and> (\<forall>j < m. \<not> P j)"
proof -
  from assms obtain i where i: "i < length [0..<n]" "P ([0..<n] ! i)" "m = [0..<n] ! i"
      "\<forall>j<i. \<not> P ([0..<n] ! j)"
    by (auto simp: find_Some_iff)
  then show ?thesis by auto
qed

lemma find_upt_None: "find P [0..<n] = None \<longleftrightarrow> (\<forall>j < n. \<not> P j)"
  by (auto simp: find_None_iff)

end
