(* ===== verification/Blocks.thy ===== *)
theory Blocks
  imports WV_Prelude
begin

text \<open>
  The 32-byte block of \<open>wormvars/wvars_structs.h\<close>: its packed header
  \<open>struct st_blockHeader\<close>, the header's layout in a byte buffer (little endian, bit
  fields from the least significant bit up, as gcc lays them out on the ARM7 the README
  names and on x86), and the two routines of \<open>wormvars/wormvars.c\<close> that work on one
  buffer, \<open>checkBlock\<close> and \<open>updateBlockHash\<close>.
\<close>

section \<open>Constants\<close>

definition FS_BLOCK_SIZE :: nat where [simp]: "FS_BLOCK_SIZE = 32"
definition FS_VERSION :: "2 word" where [simp]: "FS_VERSION = 0"
definition FS_SIZE32 :: "2 word" where [simp]: "FS_SIZE32 = 1"
definition FS_SIZEINVALID :: "2 word" where [simp]: "FS_SIZEINVALID = 0"
definition FS_BLOCK_NEWER :: "1 word" where [simp]: "FS_BLOCK_NEWER = 1"
definition FS_BLOCK_CURRENT :: "1 word" where [simp]: "FS_BLOCK_CURRENT = 0"
definition LONG_BLANK_PATTERN :: u32 where "LONG_BLANK_PATTERN = 0xFFFFFFFF"

section \<open>The block header and its bytes\<close>

record st_blockHeader =
  h_ver :: "2 word"
  h_size :: "2 word"
  h_newer :: "1 word"
  h_ext :: "3 word"
  h_hash :: u8
  h_name :: u16

definition sizeof_blockHeader :: nat where [simp]: "sizeof_blockHeader = 4"

definition header_byte0 :: "st_blockHeader \<Rightarrow> u8" where
  "header_byte0 h = ucast (h_ver h) OR push_bit 2 (ucast (h_size h))
     OR push_bit 4 (ucast (h_newer h)) OR push_bit 5 (ucast (h_ext h))"

definition header_bytes :: "st_blockHeader \<Rightarrow> bytes" where
  "header_bytes h = [header_byte0 h, h_hash h, ucast (h_name h), ucast (drop_bit 8 (h_name h))]"

definition get_header :: "bytes \<Rightarrow> st_blockHeader" where
  "get_header b = \<lparr> h_ver = ucast (b ! 0), h_size = ucast (drop_bit 2 (b ! 0)),
     h_newer = ucast (drop_bit 4 (b ! 0)), h_ext = ucast (drop_bit 5 (b ! 0)),
     h_hash = b ! 1, h_name = ucast (b ! 2) OR push_bit 8 (ucast (b ! 3)) \<rparr>"

definition put_header :: "st_blockHeader \<Rightarrow> bytes \<Rightarrow> bytes" where
  "put_header h b = header_bytes h @ drop sizeof_blockHeader b"

lemma header_bytes_length [simp]: "length (header_bytes h) = 4"
  by (simp add: header_bytes_def)

lemma put_header_length [simp]: "4 \<le> length b \<Longrightarrow> length (put_header h b) = length b"
  by (simp add: put_header_def)

lemma get_header_bytes: "get_header (header_bytes h @ b) = h"
proof (cases h)
  case (fields ver size newer ext hash name)
  then show ?thesis
    by (simp add: get_header_def header_bytes_def header_byte0_def)
      (auto intro!: bit_word_eqI simp: bit_simps bit_beyond dest: bit_imp_le_length)
qed

lemma get_put_header [hdr_simps]: "get_header (put_header h b) = h"
  by (simp add: put_header_def get_header_bytes)

lemma header_byte0_get: "header_byte0 (get_header b) = b ! 0"
proof (rule bit_word_eqI)
  fix n assume n: "n < LENGTH(8)"
  consider "n < 2" | m where "n = 2 + m" "m < 2" | "n = 4" | m where "n = 5 + m" "m < 3"
  proof -
    have "n < 2 \<or> (\<exists>m < 2. n = 2 + m) \<or> n = 4 \<or> (\<exists>m < 3. n = 5 + m)"
      using n by simp presburger
    then show thesis using that by auto
  qed
  then show "bit (header_byte0 (get_header b)) n = bit (b ! 0) n"
    by cases (simp_all add: header_byte0_def get_header_def bit_simps bit_beyond)
qed

lemma header_bytes_get:
  assumes "4 \<le> length b"
  shows "header_bytes (get_header b) = take 4 b"
proof -
  have "ucast (h_name (get_header b)) = b ! 2"
    by (rule bit_word_eqI) (auto simp: get_header_def bit_simps dest: bit_imp_le_length)
  moreover have "ucast (drop_bit 8 (h_name (get_header b))) = b ! 3"
    by (rule bit_word_eqI) (auto simp: get_header_def bit_simps dest: bit_imp_le_length)
  moreover have "h_hash (get_header b) = b ! 1"
    by (simp add: get_header_def)
  ultimately show ?thesis
    using assms by (simp add: header_bytes_def header_byte0_get take4_conv)
qed

lemma put_get_header [hdr_simps]: "4 \<le> length b \<Longrightarrow> put_header (get_header b) b = b"
  by (simp add: put_header_def header_bytes_get)

lemma put_put_header [hdr_simps]: "put_header h (put_header h' b) = put_header h b"
  by (simp add: put_header_def)

lemma drop_put_header [hdr_simps]: "drop 4 (put_header h b) = drop 4 b"
  by (simp add: put_header_def)

section \<open>checkBlock\<close>

text \<open>\<open>*(u32_t *)buffer\<close>: the first four bytes as a little endian word.\<close>

definition buffer_u32 :: "bytes \<Rightarrow> u32" where
  "buffer_u32 b = ucast (b ! 0) OR push_bit 8 (ucast (b ! 1)) OR push_bit 16 (ucast (b ! 2))
     OR push_bit 24 (ucast (b ! 3))"

definition BLOCK_IS_BLANK :: int where [simp]: "BLOCK_IS_BLANK = -1"
definition BLOCK_IS_INVALID :: int where [simp]: "BLOCK_IS_INVALID = -2"
definition BLOCK_IS_ILLEGALSIZE :: int where [simp]: "BLOCK_IS_ILLEGALSIZE = -3"
definition BLOCK_IS_ERRORED :: int where [simp]: "BLOCK_IS_ERRORED = -4"

text \<open>
  \<open>checkBlock\<close> zeroes two header fields of the caller's buffer, takes the CRC of the whole
  block and puts the fields back, so the model returns the buffer beside the verdict. The CRC
  is the argument \<open>crc\<close>: the repository has only the do-nothing stub of
  \<open>ll_mock/crc32.c\<close> and asks the user for a real one.
\<close>

definition checkBlock :: "(bytes \<Rightarrow> u32) \<Rightarrow> bytes \<Rightarrow> int \<times> bytes" where
  "checkBlock crc buffer =
     (if buffer_u32 buffer = LONG_BLANK_PATTERN then (BLOCK_IS_BLANK, buffer)
      else if h_size (get_header buffer) = FS_SIZEINVALID then (BLOCK_IS_INVALID, buffer)
      else if h_size (get_header buffer) \<noteq> FS_SIZE32 then (BLOCK_IS_ILLEGALSIZE, buffer)
      else
        let hash = h_hash (get_header buffer);
            newer = h_newer (get_header buffer);
            buffer = put_header ((get_header buffer)\<lparr>h_hash := 0\<rparr>) buffer;
            buffer = put_header ((get_header buffer)\<lparr>h_newer := 0\<rparr>) buffer;
            crc32 = crc (take FS_BLOCK_SIZE buffer);
            buffer = put_header ((get_header buffer)\<lparr>h_hash := hash\<rparr>) buffer;
            buffer = put_header ((get_header buffer)\<lparr>h_newer := newer\<rparr>) buffer
        in (if hash \<noteq> ucast crc32 then BLOCK_IS_ERRORED else 0, buffer))"

section \<open>updateBlockHash\<close>

text \<open>
  The parameters \<open>size\<close> and \<open>newer\<close> are \<open>u8_t\<close> in C and cut to the bit field when they are
  stored; they are taken here at the width of the field. The only call passes constants.
\<close>

definition updateBlockHash ::
    "(bytes \<Rightarrow> u32) \<Rightarrow> bytes \<Rightarrow> u8 \<Rightarrow> 2 word \<Rightarrow> 1 word \<Rightarrow> bytes" where
  "updateBlockHash crc block_data block_size sz newer =
     (let block_data = put_header ((get_header block_data)
            \<lparr>h_ver := FS_VERSION, h_size := sz, h_hash := 0, h_newer := 0\<rparr>) block_data;
          crc32 = crc (take (unat block_size) block_data)
      in put_header ((get_header block_data)\<lparr>h_hash := ucast crc32, h_newer := newer\<rparr>)
           block_data)"

section \<open>What the two routines establish\<close>

text \<open>
  \<open>hdr_blank\<close> is the test for a blank block, \<open>valid\<close> the verdict 0, and
  \<open>key_of\<close> and \<open>data_of\<close> are what a valid block says: which variable it holds and
  its 28 bytes.
\<close>

definition hdr_blank :: "bytes \<Rightarrow> bool" where
  "hdr_blank b \<longleftrightarrow> buffer_u32 b = LONG_BLANK_PATTERN"

definition valid :: "(bytes \<Rightarrow> u32) \<Rightarrow> bytes \<Rightarrow> bool" where
  "valid crc b \<longleftrightarrow> fst (checkBlock crc b) = 0"

datatype key = Key u16 "3 word"

definition hdr_key :: "st_blockHeader \<Rightarrow> key" where
  "hdr_key h = Key (h_name h) (h_ext h)"

definition key_of :: "bytes \<Rightarrow> key" where
  "key_of b = hdr_key (get_header b)"

definition newer_of :: "bytes \<Rightarrow> 1 word" where
  "newer_of b = h_newer (get_header b)"

definition data_of :: "bytes \<Rightarrow> bytes" where
  "data_of b = drop sizeof_blockHeader b"

definition block_hash :: "(bytes \<Rightarrow> u32) \<Rightarrow> bytes \<Rightarrow> u8" where
  "block_hash crc b = ucast (crc (take 32 (put_header
     ((get_header b)\<lparr>h_hash := 0, h_newer := 0\<rparr>) b)))"

lemma hdr_blank_size: "hdr_blank b \<Longrightarrow> h_size (get_header b) = 3"
proof -
  have "h_size (get_header b) = ucast (drop_bit 2 (buffer_u32 b))"
    by (rule bit_word_eqI)
      (auto simp: get_header_def buffer_u32_def bit_simps dest: bit_imp_le_length)
  moreover assume "hdr_blank b"
  ultimately show ?thesis
    by (simp add: hdr_blank_def LONG_BLANK_PATTERN_def)
qed

lemma checkBlock_restores:
  assumes "4 \<le> length b"
  shows "snd (checkBlock crc b) = b"
proof -
  have "h\<lparr>h_hash := h_hash h\<rparr> = h" for h :: st_blockHeader
    by (cases h) simp
  then have "put_header ((get_header b)\<lparr>h_hash := h_hash (get_header b)\<rparr>) b = b"
    using assms by (simp add: put_get_header)
  moreover have "(get_header b)\<lparr>h_hash := x, h_newer := n, h_hash := y,
      h_newer := h_newer (get_header b)\<rparr> = (get_header b)\<lparr>h_hash := y\<rparr>" for x n y
    by (cases "get_header b") simp
  ultimately show ?thesis
    by (simp add: checkBlock_def Let_def get_put_header put_put_header)
qed

lemma valid_iff:
  "valid crc b \<longleftrightarrow> h_size (get_header b) = FS_SIZE32 \<and> h_hash (get_header b) = block_hash crc b"
  using hdr_blank_size [of b]
  by (auto simp: valid_def checkBlock_def Let_def get_put_header put_put_header block_hash_def
      hdr_blank_def)

lemma valid_not_blank: "valid crc b \<Longrightarrow> \<not> hdr_blank b"
  using hdr_blank_size [of b] by (auto simp: valid_iff)

lemma block_hash_put [hdr_simps]:
  "block_hash crc (put_header ((get_header b)\<lparr>h_newer := n\<rparr>) b) = block_hash crc b"
  by (simp add: block_hash_def get_put_header put_put_header)

lemma valid_newer [hdr_simps]:
  "valid crc (put_header ((get_header b)\<lparr>h_newer := n\<rparr>) b) = valid crc b"
  by (simp add: valid_iff get_put_header block_hash_put)

lemma invalid_size [hdr_simps]:
  "\<not> valid crc (put_header (h\<lparr>h_size := 0\<rparr>) b)"
  by (simp add: valid_iff get_put_header)

lemma not_blank_size [hdr_simps]:
  "\<not> hdr_blank (put_header (h\<lparr>h_size := 0\<rparr>) b)"
  using hdr_blank_size [of "put_header (h\<lparr>h_size := 0\<rparr>) b"] by (auto simp: get_put_header)

lemma key_of_put [hdr_simps]: "key_of (put_header h b) = hdr_key h"
  by (simp add: key_of_def get_put_header)

lemma newer_of_put [hdr_simps]: "newer_of (put_header h b) = h_newer h"
  by (simp add: newer_of_def get_put_header)

lemma data_of_put [hdr_simps]: "data_of (put_header h b) = data_of b"
  by (simp add: data_of_def drop_put_header)

lemma hdr_key_update [hdr_simps]:
  "hdr_key (h\<lparr>h_newer := n\<rparr>) = hdr_key h"
  "hdr_key (h\<lparr>h_size := z\<rparr>) = hdr_key h"
  "hdr_key (h\<lparr>h_hash := x\<rparr>) = hdr_key h"
  "hdr_key (h\<lparr>h_ver := v\<rparr>) = hdr_key h"
  by (simp_all add: hdr_key_def)

lemma updateBlockHash_length [simp]:
  "4 \<le> length b \<Longrightarrow> length (updateBlockHash crc b n sz nw) = length b"
  by (simp add: updateBlockHash_def Let_def)

lemma updateBlockHash_valid:
  assumes "length b = 32"
  shows "valid crc (updateBlockHash crc b 32 FS_SIZE32 nw)"
proof -
  have "\<lparr>h_ver = v, h_size = z, h_newer = 0, h_ext = e, h_hash = 0, h_name = nm\<rparr>
      = \<lparr>h_ver = v, h_size = z, h_newer = 0, h_ext = e, h_hash = 0, h_name = nm\<rparr>" for v z e nm ..
  then show ?thesis
    by (cases "get_header b")
      (simp add: valid_iff updateBlockHash_def Let_def get_put_header put_put_header
        block_hash_def)
qed

lemma updateBlockHash_key [hdr_simps]: "key_of (updateBlockHash crc b n sz nw) = key_of b"
  by (simp add: updateBlockHash_def Let_def key_of_def get_put_header hdr_key_def)

lemma updateBlockHash_newer [hdr_simps]: "newer_of (updateBlockHash crc b n sz nw) = nw"
  by (simp add: updateBlockHash_def Let_def newer_of_def get_put_header)

lemma updateBlockHash_data [hdr_simps]: "data_of (updateBlockHash crc b n sz nw) = data_of b"
  by (simp add: updateBlockHash_def Let_def data_of_put)

section \<open>Clearing bits of a header in place\<close>

text \<open>
  Flash programming can only clear bits. \<open>program_bytes old new\<close> is what a cell holds after
  \<open>new\<close> was programmed over a prefix of \<open>old\<close>. The three kinds of write the file
  system makes are exact: a whole block over a blank cell, a header with \<open>newer\<close> cleared,
  and the first header byte with \<open>newer\<close> or \<open>size\<close> cleared.
\<close>

fun program_bytes :: "bytes \<Rightarrow> bytes \<Rightarrow> bytes" where
  "program_bytes (o1 # os) (n1 # ns) = (o1 AND n1) # program_bytes os ns"
| "program_bytes os [] = os"
| "program_bytes [] ns = []"

lemma program_bytes_length [simp]: "length (program_bytes os ns) = length os"
  by (induction os ns rule: program_bytes.induct) auto

definition blank_block :: bytes where
  "blank_block = replicate 32 0xFF"

lemma blank_block_length [simp]: "length blank_block = 32"
  by (simp add: blank_block_def)

lemma and_FF [simp]: "(0xFF :: u8) AND x = x"
  by (rule bit_word_eqI) (auto simp: bit_simps dest: bit_imp_le_length
      simp: numeral_eq_Suc less_Suc_eq)

lemma program_replicate: "length bs \<le> n \<Longrightarrow>
    program_bytes (replicate n 0xFF) bs = bs @ replicate (n - length bs) 0xFF"
proof (induction bs arbitrary: n)
  case (Cons x xs)
  then obtain m where "n = Suc m" by (cases n) auto
  with Cons show ?case by simp
qed simp

lemma program_blank: "length bs = 32 \<Longrightarrow> program_bytes blank_block bs = bs"
  by (simp add: blank_block_def program_replicate)

lemma hdr_blank_blank [simp]: "hdr_blank blank_block"
  by (simp add: hdr_blank_def buffer_u32_def blank_block_def LONG_BLANK_PATTERN_def)

lemma not_valid_blank [simp]: "\<not> valid crc blank_block"
  using valid_not_blank hdr_blank_blank by blast

lemma program_header:
  assumes "4 \<le> length b" "header_byte0 (get_header b) AND header_byte0 h = header_byte0 h"
    and "h_hash h = h_hash (get_header b)" "h_name h = h_name (get_header b)"
  shows "program_bytes b (header_bytes h) = put_header h b"
    and "program_bytes b (take (Suc 0) (header_bytes h)) = put_header h b"
proof -
  obtain x0 x1 x2 x3 r where b: "b = x0 # x1 # x2 # x3 # r"
    using assms(1) by (auto simp: numeral_eq_Suc Suc_le_length_iff)
  have hb: "header_bytes (get_header b) = [x0, x1, x2, x3]"
    using header_bytes_get [OF assms(1)] b by (simp add: numeral_eq_Suc)
  then have "header_bytes h = [header_byte0 h, x1, x2, x3]" "header_byte0 (get_header b) = x0"
    using assms(3,4) by (auto simp: header_bytes_def)
  then show "program_bytes b (header_bytes h) = put_header h b"
      "program_bytes b (take (Suc 0) (header_bytes h)) = put_header h b"
    using assms(2) b by (simp_all add: put_header_def)
qed

lemma header_byte0_clear_newer:
  "header_byte0 h AND header_byte0 (h\<lparr>h_newer := 0\<rparr>) = header_byte0 (h\<lparr>h_newer := 0\<rparr>)"
  by (rule bit_word_eqI) (auto simp: header_byte0_def bit_simps)

lemma header_byte0_clear_size:
  "header_byte0 h AND header_byte0 (h\<lparr>h_size := 0\<rparr>) = header_byte0 (h\<lparr>h_size := 0\<rparr>)"
  by (rule bit_word_eqI) (auto simp: header_byte0_def bit_simps)

lemma program_clear_newer:
  assumes "4 \<le> length b" "h = get_header b"
  shows "program_bytes b (header_bytes (h\<lparr>h_newer := 0\<rparr>)) = put_header (h\<lparr>h_newer := 0\<rparr>) b"
    and "program_bytes b (take (Suc 0) (header_bytes (h\<lparr>h_newer := 0\<rparr>))) = put_header (h\<lparr>h_newer := 0\<rparr>) b"
  using assms by (auto intro!: program_header header_byte0_clear_newer)

lemma program_clear_size:
  assumes "4 \<le> length b" "h = get_header b"
  shows "program_bytes b (header_bytes (h\<lparr>h_size := 0\<rparr>)) = put_header (h\<lparr>h_size := 0\<rparr>) b"
    and "program_bytes b (take (Suc 0) (header_bytes (h\<lparr>h_size := 0\<rparr>))) = put_header (h\<lparr>h_size := 0\<rparr>) b"
  using assms by (auto intro!: program_header header_byte0_clear_size)

section \<open>Properties\<close>

text \<open>
  C19. The header record and its four bytes determine each other: writing a header into a buffer
  and reading it back gives the header, and reading a header out of a block and writing it back
  leaves the block as it was.
\<close>

theorem header_layout_roundtrip:
  "get_header (header_bytes h @ payload) = h \<and>
   (4 \<le> length b \<longrightarrow> put_header (get_header b) b = b \<and> header_bytes (get_header b) = take 4 b)"
  using get_header_bytes put_get_header header_bytes_get by blast

theorem header_layout_roundtrip_witness:
  "header_bytes (get_header [0xC5, 7, 0x34, 0x12, 9, 9]) = [0xC5, 7, 0x34, 0x12] \<and>
   h_name (get_header [0xC5, 7, 0x34, 0x12, 9, 9]) = 0x1234"
  using header_layout_roundtrip [of undefined undefined "[0xC5, 7, 0x34, 0x12, 9, 9]"]
  by (simp add: get_header_def)

text \<open>
  C16. The verdict of \<open>checkBlock\<close> on a whole block, on every branch: blank, invalidated, of
  an illegal size, with a wrong hash, or valid; and the buffer it took the CRC of, with two
  fields zeroed, is restored.
\<close>

theorem checkBlock_verdict:
  assumes "length b = FS_BLOCK_SIZE"
  shows "checkBlock crc b =
    ((if hdr_blank b then BLOCK_IS_BLANK
      else if h_size (get_header b) = FS_SIZEINVALID then BLOCK_IS_INVALID
      else if h_size (get_header b) \<noteq> FS_SIZE32 then BLOCK_IS_ILLEGALSIZE
      else if h_hash (get_header b) \<noteq> block_hash crc b then BLOCK_IS_ERRORED
      else 0), b)"
  using checkBlock_restores [of b crc] assms
  by (auto simp: checkBlock_def Let_def hdr_blank_def block_hash_def get_put_header put_put_header)

theorem checkBlock_verdict_witness:
  "checkBlock (\<lambda>_. 0x1FF) (5 # 0xFF # replicate 30 0) = (0, 5 # 0xFF # replicate 30 0) \<and>
   checkBlock (\<lambda>_. 0x1FF) (5 # 0xFE # replicate 30 0) = (BLOCK_IS_ERRORED, 5 # 0xFE # replicate 30 0)"
  using checkBlock_verdict [of "5 # 0xFF # replicate 30 0" "\<lambda>_. 0x1FF"]
    checkBlock_verdict [of "5 # 0xFE # replicate 30 0" "\<lambda>_. 0x1FF"]
  by (simp add: hdr_blank_def buffer_u32_def LONG_BLANK_PATTERN_def get_header_def block_hash_def)

text \<open>
  C17. A block sealed by \<open>updateBlockHash\<close> is accepted by \<open>checkBlock\<close>, whatever the CRC
  routine computes; name, extension and data are those it had, \<open>newer\<close> is the one asked for.
\<close>

theorem updateBlockHash_accepted:
  assumes "length b = FS_BLOCK_SIZE"
  shows "checkBlock crc (updateBlockHash crc b (word_of_nat FS_BLOCK_SIZE) FS_SIZE32 nw)
      = (0, updateBlockHash crc b (word_of_nat FS_BLOCK_SIZE) FS_SIZE32 nw) \<and>
    key_of (updateBlockHash crc b (word_of_nat FS_BLOCK_SIZE) FS_SIZE32 nw) = key_of b \<and>
    data_of (updateBlockHash crc b (word_of_nat FS_BLOCK_SIZE) FS_SIZE32 nw) = data_of b \<and>
    newer_of (updateBlockHash crc b (word_of_nat FS_BLOCK_SIZE) FS_SIZE32 nw) = nw"
  using updateBlockHash_valid [of b crc nw] assms
    checkBlock_restores [of "updateBlockHash crc b 32 FS_SIZE32 nw" crc]
  by (auto simp: valid_def hdr_simps prod_eq_iff)

theorem updateBlockHash_accepted_witness:
  "fst (checkBlock (\<lambda>bs. ucast (hd bs)) (updateBlockHash (\<lambda>bs. ucast (hd bs)) (replicate 32 0xAB)
      (word_of_nat FS_BLOCK_SIZE) FS_SIZE32 FS_BLOCK_NEWER)) = 0"
  using updateBlockHash_accepted [of "replicate 32 0xAB" "\<lambda>bs. ucast (hd bs)" FS_BLOCK_NEWER] by simp

text \<open>
  C18. The flags are changed in place. Programming one byte of the header, which can only clear
  bits, turns a valid block into the same block marked current, still valid with the same
  variable and data; with \<open>size\<close> cleared it turns it into one \<open>checkBlock\<close> rejects.
\<close>

theorem flags_change_in_place:
  assumes "length b = FS_BLOCK_SIZE" "fst (checkBlock crc b) = 0"
    and "marked = program_bytes b (take 1 (header_bytes ((get_header b)\<lparr>h_newer := FS_BLOCK_CURRENT\<rparr>)))"
    and "dropped = program_bytes b (take 1 (header_bytes ((get_header b)\<lparr>h_size := FS_SIZEINVALID\<rparr>)))"
  shows "fst (checkBlock crc marked) = 0 \<and> key_of marked = key_of b \<and> data_of marked = data_of b \<and>
    newer_of marked = FS_BLOCK_CURRENT \<and> fst (checkBlock crc dropped) = BLOCK_IS_INVALID"
proof -
  have m: "marked = put_header ((get_header b)\<lparr>h_newer := 0\<rparr>) b"
    and d: "dropped = put_header ((get_header b)\<lparr>h_size := 0\<rparr>) b"
    using assms(1,3,4) program_clear_newer(2) [of b] program_clear_size(2) [of b] by simp_all
  have "valid crc marked" using assms(2) valid_newer [of crc 0 b] by (simp add: valid_def m)
  moreover have "fst (checkBlock crc dropped) = BLOCK_IS_INVALID"
    using not_blank_size [of "get_header b" b] by (simp add: d checkBlock_def hdr_blank_def get_put_header)
  moreover have "key_of marked = key_of b"
    by (simp add: m hdr_simps) (simp add: key_of_def)
  ultimately show ?thesis by (simp add: valid_def m hdr_simps)
qed

theorem flags_change_in_place_witness:
  "fst (checkBlock (\<lambda>_. 0) (program_bytes (0x34 # 0 # replicate 30 7) (take 1 (header_bytes
      ((get_header (0x34 # 0 # replicate 30 7))\<lparr>h_newer := FS_BLOCK_CURRENT\<rparr>))))) = 0"
proof -
  have "fst (checkBlock (\<lambda>_. 0) (0x34 # 0 # replicate 30 7)) = 0" by code_simp
  then show ?thesis
    using flags_change_in_place [of "0x34 # 0 # replicate 30 7" "\<lambda>_. 0", OF _ _ refl refl] by simp
qed

end
