(* ===== verification/Geometry.thy ===== *)
theory Geometry
  imports Blocks
begin

text \<open>
  The flash geometry and table sizes compiled into \<open>wormvars/wormvars.c\<close> (the build
  without \<open>DEBUG_SMALL_SECTORS\<close>) and \<open>wormvars/wvars_structs.h\<close>. The 8 sectors of 128
  blocks are contiguous, so the development names a block by its slot number
  \<open>m < 1024\<close>: slot \<open>m\<close> is block \<open>m mod 128\<close> of sector \<open>m div 128\<close>, at address
  \<open>slot_addr m\<close>.
\<close>

definition FILESYSTEM_SECTOR_SIZE :: u32 where [simp]: "FILESYSTEM_SECTOR_SIZE = 4096"
definition FS_NUM_SECTORS :: nat where [simp]: "FS_NUM_SECTORS = 8"
definition FDS_PER_SECTOR :: nat where [simp]: "FDS_PER_SECTOR = 4096 div 32"
definition FS_MIN_BLANKSECTORS :: nat where [simp]: "FS_MIN_BLANKSECTORS = 2"
definition FD_MAX :: nat where [simp]: "FD_MAX = 300"

definition Sector_base :: "u32 list" where
  "Sector_base = [0x0F4000, 0x0F5000, 0x0F6000, 0x0F7000, 0x0F8000, 0x0F9000, 0x0FA000, 0x0FB000]"

definition slot_addr :: "nat \<Rightarrow> u32" where
  "slot_addr m = word_of_nat (0xF4000 + 32 * m)"

definition slot_of :: "u32 \<Rightarrow> nat" where
  "slot_of a = (unat a - 0xF4000) div 32"

lemma unat_slot_addr: "m \<le> 1024 \<Longrightarrow> unat (slot_addr m) = 0xF4000 + 32 * m"
  by (simp only: slot_addr_def unat_of_nat) simp

lemma slot_of_addr [simp]: "m \<le> 1024 \<Longrightarrow> slot_of (slot_addr m) = m"
  by (simp add: slot_of_def unat_slot_addr)

lemma slot_addr_inject: "m \<le> 1024 \<Longrightarrow> m' \<le> 1024 \<Longrightarrow> slot_addr m = slot_addr m' \<longleftrightarrow> m = m'"
  by (metis slot_of_addr)

lemma slot_addr_less: "m \<le> 1024 \<Longrightarrow> m' \<le> 1024 \<Longrightarrow> slot_addr m < slot_addr m' \<longleftrightarrow> m < m'"
  by (simp add: word_less_nat_alt unat_slot_addr)

lemma slot_addr_le: "m \<le> 1024 \<Longrightarrow> m' \<le> 1024 \<Longrightarrow> slot_addr m \<le> slot_addr m' \<longleftrightarrow> m \<le> m'"
  by (simp add: word_le_nat_alt unat_slot_addr)

lemma slot_addr_next: "slot_addr m + 32 = slot_addr (Suc m)"
  by (simp add: slot_addr_def)

lemma slot_addr_sector: "slot_addr m + FILESYSTEM_SECTOR_SIZE = slot_addr (m + 128)"
  by (simp add: slot_addr_def)

lemma less_8_cases: "(k::nat) < 8 \<Longrightarrow> k \<in> {0, 1, 2, 3, 4, 5, 6, 7}"
  by auto

lemma Sector_base_slot: "k < 8 \<Longrightarrow> Sector_base ! k = slot_addr (128 * k)"
  by (drule less_8_cases) (auto simp: Sector_base_def slot_addr_def)

lemma length_Sector_base [simp]: "length Sector_base = 8"
  by (simp add: Sector_base_def)

end
