(* ===== verification/Hal.thy ===== *)
theory Hal
  imports Geometry
begin

text \<open>
  The board support the file system calls (\<open>include/flash.h\<close>, \<open>include/timer.h\<close>,
  \<open>include/crc32.h\<close>): a record of functions over a hardware state \<open>'w\<close>, the busy wait
  the code writes before every write, and the interface \<open>flash_device\<close>, the laws a NOR
  flash obeys at block granularity. \<open>FlashMock\<close> is one device with these laws.
\<close>

section \<open>The hardware calls\<close>

record timer = dummy :: int

record 'w hal =
  flash_ready :: "'w \<Rightarrow> int \<times> 'w"
  flash_read :: "u32 \<Rightarrow> bytes \<Rightarrow> 'w \<Rightarrow> bytes \<times> 'w"
  flash_write :: "u32 \<Rightarrow> bytes \<Rightarrow> 'w \<Rightarrow> 'w"
  flash_erase :: "u32 \<Rightarrow> 'w \<Rightarrow> 'w"
  timer_nopsleep :: "int \<Rightarrow> 'w \<Rightarrow> 'w"
  timer_set :: "timer \<Rightarrow> u32 \<Rightarrow> 'w \<Rightarrow> timer \<times> 'w"
  timer_restart :: "timer \<Rightarrow> 'w \<Rightarrow> timer \<times> 'w"
  timer_expired :: "timer \<Rightarrow> 'w \<Rightarrow> int \<times> 'w"
  crc32_calc :: "bytes \<Rightarrow> u32"

definition CLOCK_SECOND :: u32 where [simp]: "CLOCK_SECOND = 1000"

text \<open>
  \<open>flash_read\<close> takes the caller's buffer and returns it filled (or untouched, when the
  device rejects the address); the size is the buffer's length. \<open>crc32_calc\<close> returns the
  checksum, as in C; the pointer to the running checksum and the operation, one-shot at both
  calls, are left out.
\<close>

text \<open>\<open>while (flash_ready() != 1) timer_nopsleep(100);\<close> may wait forever: \<open>None\<close>.\<close>

partial_function (option) flash_wait :: "'w hal \<Rightarrow> 'w \<Rightarrow> 'w option" where
  "flash_wait H w = (let (ready, w) = flash_ready H w in
     if ready \<noteq> 1 then flash_wait H (timer_nopsleep H 100 w) else Some w)"

declare flash_wait.simps [code]

section \<open>Flash images\<close>

text \<open>What the device holds, slot by slot; slots outside the device read blank.\<close>

type_synonym image = "nat \<Rightarrow> bytes"

definition program_slot :: "nat \<Rightarrow> bytes \<Rightarrow> image \<Rightarrow> image" where
  "program_slot m bs img = img(m := program_bytes (img m) bs)"

definition erase_sector :: "nat \<Rightarrow> image \<Rightarrow> image" where
  "erase_sector k img = (\<lambda>m. if m div 128 = k then blank_block else img m)"

lemma erase_sector_apply [simp]:
  "erase_sector k img m = (if m div 128 = k then blank_block else img m)"
  by (simp add: erase_sector_def)

section \<open>The device interface\<close>

text \<open>
  \<open>content w\<close> is the image the device in state \<open>w\<close> holds, \<open>ok\<close> the device's own
  invariant. The parameter \<open>adm\<close> is a set of images: the laws of write and erase hold as
  long as the image that results is admissible. With \<open>adm\<close> always true the laws are those
  of a plain device; with a device that records its history (\<open>Journal\<close>), \<open>adm\<close> is what
  a client promises to keep at every single operation, and so after a power cut.
\<close>

locale flash_device =
  fixes H :: "'w hal"
    and content :: "'w \<Rightarrow> image"
    and ok :: "'w \<Rightarrow> bool"
    and adm :: "image \<Rightarrow> bool"
  assumes content_length: "ok w \<Longrightarrow> length (content w m) = 32"
    and content_outside: "ok w \<Longrightarrow> 1024 \<le> m \<Longrightarrow> content w m = blank_block"
    and wait_returns: "ok w \<Longrightarrow> \<exists>w'. flash_wait H w = Some w' \<and> ok w' \<and> content w' = content w"
    and ready_keeps: "ok w \<Longrightarrow> ok (snd (flash_ready H w)) \<and> content (snd (flash_ready H w)) = content w"
    and read_slot: "ok w \<Longrightarrow> m < 1024 \<Longrightarrow> length buf = 32 \<Longrightarrow>
      \<exists>w'. flash_read H (slot_addr m) buf w = (content w m, w') \<and> ok w' \<and> content w' = content w"
    and write_slot: "ok w \<Longrightarrow> m < 1024 \<Longrightarrow> length bs \<le> 32 \<Longrightarrow>
      adm (program_slot m bs (content w)) \<Longrightarrow>
      ok (flash_write H (slot_addr m) bs w) \<and>
      content (flash_write H (slot_addr m) bs w) = program_slot m bs (content w)"
    and erase_slot: "ok w \<Longrightarrow> k < 8 \<Longrightarrow> adm (erase_sector k (content w)) \<Longrightarrow>
      ok (flash_erase H (slot_addr (128 * k)) w) \<and>
      content (flash_erase H (slot_addr (128 * k)) w) = erase_sector k (content w)"
    and timer_set_keeps: "ok w \<Longrightarrow>
      ok (snd (timer_set H t n w)) \<and> content (snd (timer_set H t n w)) = content w"
    and timer_restart_keeps: "ok w \<Longrightarrow>
      ok (snd (timer_restart H t w)) \<and> content (snd (timer_restart H t w)) = content w"
    and timer_expired_keeps: "ok w \<Longrightarrow>
      ok (snd (timer_expired H t w)) \<and> content (snd (timer_expired H t w)) = content w"
begin

lemma wait_write:
  assumes "ok w" "m < 1024" "length bs \<le> 32" "adm (program_slot m bs (content w))"
  shows "\<exists>w'. flash_wait H w = Some w' \<and> ok (flash_write H (slot_addr m) bs w') \<and>
    content (flash_write H (slot_addr m) bs w') = program_slot m bs (content w)"
proof -
  obtain w' where w': "flash_wait H w = Some w'" "ok w'" "content w' = content w"
    using wait_returns [OF assms(1)] by blast
  then show ?thesis
    using write_slot [of w' m bs] assms by auto
qed

end

end
