(* ===== verification/Protothreads.thy ===== *)
theory Protothreads
  imports WV_Prelude
begin

text \<open>
  The protothread macros of \<open>pt-1.4/pt.h\<close> over the local continuations of
  \<open>pt-1.4/lc-switch.h\<close>. \<open>wormvars.h\<close> defines \<open>LC_CONF_INCLUDE\<close> to ask for
  \<open>lc-addrlabels.h\<close>, but \<open>lc.h\<close> looks at \<open>LC_INCLUDE\<close>, so the switch version is
  what the build compiles: a continuation is the source line of the blocking macro, 0 for the
  start, and resuming is a jump through a \<open>switch\<close>.

  A protothread over a state \<open>'s\<close> is a function to its return code and the new state. The
  macros take the setter of the \<open>lc\<close> field, so each thread can keep it where it likes; the
  code after a macro is the continuation \<open>k\<close>.
\<close>

type_synonym lc_t = u16
type_synonym 's thread = "'s \<Rightarrow> (int \<times> 's) option"
type_synonym 's condition = "'s \<Rightarrow> (bool \<times> 's) option"
type_synonym 's set_lc = "lc_t \<Rightarrow> 's \<Rightarrow> 's"

definition PT_WAITING :: int where [simp]: "PT_WAITING = 0"
definition PT_YIELDED :: int where [simp]: "PT_YIELDED = 1"
definition PT_EXITED :: int where [simp]: "PT_EXITED = 2"
definition PT_ENDED :: int where [simp]: "PT_ENDED = 3"

definition LC_INIT :: lc_t where [simp]: "LC_INIT = 0"

definition PT_INIT :: "'s set_lc \<Rightarrow> 's \<Rightarrow> 's" where
  "PT_INIT set_lc s = set_lc LC_INIT s"

definition PT_END :: "'s set_lc \<Rightarrow> 's thread" where
  "PT_END set_lc s = Some (PT_ENDED, PT_INIT set_lc s)"

text \<open>
  \<open>LC_SET\<close> stores the line, then the condition is evaluated, which may change the state
  and may be undefined. Resuming at the line evaluates it again; the line is stored already.
\<close>

definition PT_WAIT_UNTIL ::
    "'s set_lc \<Rightarrow> lc_t \<Rightarrow> 's condition \<Rightarrow> 's thread \<Rightarrow> 's thread" where
  "PT_WAIT_UNTIL set_lc line condition k s = do {
     (c, s) \<leftarrow> condition (set_lc line s);
     if \<not> c then Some (PT_WAITING, s) else k s
   }"

definition PT_WAIT_WHILE ::
    "'s set_lc \<Rightarrow> lc_t \<Rightarrow> 's condition \<Rightarrow> 's thread \<Rightarrow> 's thread" where
  "PT_WAIT_WHILE set_lc line cond = PT_WAIT_UNTIL set_lc line (\<lambda>s. do {
     (c, s) \<leftarrow> cond s;
     Some (\<not> c, s)
   })"

definition PT_RESTART :: "'s set_lc \<Rightarrow> 's thread" where
  "PT_RESTART set_lc s = Some (PT_WAITING, PT_INIT set_lc s)"

definition PT_EXIT :: "'s set_lc \<Rightarrow> 's thread" where
  "PT_EXIT set_lc s = Some (PT_EXITED, PT_INIT set_lc s)"

text \<open>
  \<open>PT_YIELD\<close> reached by running into it: \<open>PT_YIELD_FLAG\<close> is 0, so it returns. Resumed at
  its line the flag is 1 (\<open>PT_BEGIN\<close> sets it) and the code after it runs: that entry is the
  jump table of the thread.
\<close>

definition PT_YIELD :: "'s set_lc \<Rightarrow> lc_t \<Rightarrow> 's thread" where
  "PT_YIELD set_lc line s = Some (PT_YIELDED, set_lc line s)"

text \<open>
  \<open>PT_YIELD_UNTIL\<close>: \<open>resumed\<close> tells whether the control came through the jump of
  \<open>PT_BEGIN\<close>, where \<open>PT_YIELD_FLAG\<close> is 1; the condition is evaluated only then.
\<close>

definition PT_YIELD_UNTIL ::
    "'s set_lc \<Rightarrow> lc_t \<Rightarrow> bool \<Rightarrow> 's condition \<Rightarrow> 's thread \<Rightarrow> 's thread" where
  "PT_YIELD_UNTIL set_lc line resumed cond k s =
     (let s = set_lc line s
      in if \<not> resumed then Some (PT_YIELDED, s)
         else do { (c, s) \<leftarrow> cond s; if \<not> c then Some (PT_YIELDED, s) else k s })"

definition PT_SCHEDULE :: "int \<Rightarrow> bool" where
  "PT_SCHEDULE r \<longleftrightarrow> r < PT_EXITED"

text \<open>
  A child is a protothread over the same state. \<open>PT_WAIT_THREAD\<close> calls it each time the
  parent is resumed and goes on once it exited or ended.
\<close>

definition PT_WAIT_THREAD :: "'s set_lc \<Rightarrow> lc_t \<Rightarrow> 's thread \<Rightarrow> 's thread \<Rightarrow> 's thread" where
  "PT_WAIT_THREAD set_lc line child = PT_WAIT_WHILE set_lc line (\<lambda>s. do {
     (r, s) \<leftarrow> child s;
     Some (PT_SCHEDULE r, s)
   })"

definition PT_SPAWN ::
    "'s set_lc \<Rightarrow> 's set_lc \<Rightarrow> lc_t \<Rightarrow> 's thread \<Rightarrow> 's thread \<Rightarrow> 's thread" where
  "PT_SPAWN set_lc set_child line child k s = PT_WAIT_THREAD set_lc line child k (PT_INIT set_child s)"

lemmas pt_defs = PT_INIT_def PT_END_def PT_WAIT_UNTIL_def PT_WAIT_WHILE_def PT_RESTART_def
  PT_EXIT_def PT_YIELD_def PT_WAIT_THREAD_def

end
