(* ===== verification/FsState.thy ===== *)
theory FsState
  imports Hal Protothreads
begin

text \<open>
  The state of \<open>wormvars/wormvars.c\<close>, the global \<open>Fs\<close> (its anonymous sub-structs
  \<open>curr\<close> and \<open>reloc\<close> become field prefixes), beside the hardware state \<open>hw\<close>; the
  sector macros; the linear search three routines share; and the wait-then-write pair.

  C leaves an index outside an array undefined. The model reads \<open>xs ! i\<close> there, about which
  nothing can be proved; the invariant of theory \<open>FsInv\<close> keeps every index in range.
\<close>

record st_fileDescriptor =
  fd_address :: u32
  fd_header :: st_blockHeader
  fd_sector :: u8

record 'w Fs =
  Fs_timer :: timer
  Fs_fd :: "st_fileDescriptor list"
  curr_address :: "u32 list"
  curr_sector :: u8
  curr_fd_index :: u16
  reloc_buffer :: bytes
  reloc_fd :: st_fileDescriptor
  reloc_sector :: u8
  reloc_fd_index :: u16
  Fs_pt :: lc_t
  hw :: 'w

definition zero_header :: st_blockHeader where
  "zero_header = \<lparr>h_ver = 0, h_size = 0, h_newer = 0, h_ext = 0, h_hash = 0, h_name = 0\<rparr>"

definition zero_fd :: st_fileDescriptor where
  "zero_fd = \<lparr>fd_address = 0, fd_header = zero_header, fd_sector = 0\<rparr>"

text \<open>\<open>Fs\<close> is a static object: zero at power-on, whatever the hardware holds.\<close>

definition Fs_zero :: "'w \<Rightarrow> 'w Fs" where
  "Fs_zero w = \<lparr>Fs_timer = \<lparr>dummy = 0\<rparr>, Fs_fd = replicate FD_MAX zero_fd,
     curr_address = replicate FS_NUM_SECTORS 0, curr_sector = 0, curr_fd_index = 0,
     reloc_buffer = replicate FS_BLOCK_SIZE 0, reloc_fd = zero_fd, reloc_sector = 0,
     reloc_fd_index = 0, Fs_pt = 0, hw = w\<rparr>"

definition set_pt :: "'w Fs set_lc" where
  "set_pt l s = s\<lparr>Fs_pt := l\<rparr>"

definition SECTOR_IS_FULL :: "'w Fs \<Rightarrow> nat \<Rightarrow> bool" where
  "SECTOR_IS_FULL s sector_number \<longleftrightarrow>
     curr_address s ! sector_number \<ge> Sector_base ! sector_number + FILESYSTEM_SECTOR_SIZE"

definition SECTOR_IS_BLANK :: "'w Fs \<Rightarrow> nat \<Rightarrow> bool" where
  "SECTOR_IS_BLANK s sector_number \<longleftrightarrow>
     curr_address s ! sector_number = Sector_base ! sector_number"

text \<open>
  \<open>for (i = 0 ; i < Fs.curr.fd_index ; i++) if (name and ext match) break;\<close> from \<open>i\<close>
  on. The result is the index found, or the bound. The header's 3-bit \<open>ext\<close> is compared
  with a whole byte, as the integer promotions of C do. The counter is a \<open>u16_t\<close> below a
  16-bit bound, so it cannot wrap.
\<close>

function fd_search :: "st_fileDescriptor list \<Rightarrow> u16 \<Rightarrow> u8 \<Rightarrow> nat \<Rightarrow> nat \<Rightarrow> nat" where
  "fd_search fds name ext i n =
     (if i < n then
        if h_name (fd_header (fds ! i)) = name \<and> ucast (h_ext (fd_header (fds ! i))) = ext then i
        else fd_search fds name ext (Suc i) n
      else i)"
  by pat_completeness auto
termination
  by (relation "measure (\<lambda>(fds, name, ext, i, n). n - i)") auto

declare fd_search.simps [simp del]

text \<open>\<open>while (flash_ready() != 1) timer_nopsleep(100); flash_write(address, bytes, n);\<close>\<close>

definition flash_put :: "'w hal \<Rightarrow> u32 \<Rightarrow> bytes \<Rightarrow> 'w Fs \<Rightarrow> 'w Fs option" where
  "flash_put H address bs s = do {
     w \<leftarrow> flash_wait H (hw s);
     Some (s\<lparr>hw := flash_write H address bs w\<rparr>)
   }"

end
