(* ===== verification/FsInit.thy ===== *)
theory FsInit
  imports FsState
begin

text \<open>
  Start-up: \<open>initFileDescriptors\<close>, which scans one sector and indexes the valid blocks it
  finds, and \<open>fs_init\<close>, which does so for the eight sectors.
\<close>

section \<open>One valid block\<close>

text \<open>
  A block whose name and extension the index holds already, at \<open>fd[i]\<close>: the newer of the
  two is kept, the other one's header is overwritten with \<open>size = FS_SIZEINVALID\<close>. The
  buffer is returned too, since two branches change the header in it.
\<close>

definition initFd_duplicate ::
    "'w hal \<Rightarrow> u8 \<Rightarrow> u32 \<Rightarrow> nat \<Rightarrow> bytes \<Rightarrow> 'w Fs \<Rightarrow> (bytes \<times> 'w Fs) option" where
  "initFd_duplicate H sector address i read_buffer s =
     (let p_blockHeader = get_header read_buffer;
          former = Fs_fd s ! i in
      if h_newer (fd_header former) = FS_BLOCK_CURRENT \<and> h_newer p_blockHeader = FS_BLOCK_NEWER
      then do {
        let former = former\<lparr>fd_header := (fd_header former)\<lparr>h_size := FS_SIZEINVALID\<rparr>\<rparr>;
        let s = s\<lparr>Fs_fd := (Fs_fd s)[i := former]\<rparr>;
        s \<leftarrow> flash_put H (fd_address former) (header_bytes (fd_header former)) s;
        Some (read_buffer, s\<lparr>Fs_fd := (Fs_fd s)[i :=
          \<lparr>fd_address = address, fd_header = p_blockHeader, fd_sector = sector\<rparr>]\<rparr>)
      }
      else if h_newer (fd_header former) = FS_BLOCK_NEWER \<and> h_newer p_blockHeader = FS_BLOCK_CURRENT
      then do {
        let read_buffer = put_header (p_blockHeader\<lparr>h_size := FS_SIZEINVALID\<rparr>) read_buffer;
        s \<leftarrow> flash_put H address (take sizeof_blockHeader read_buffer) s;
        Some (read_buffer, s)
      }
      else do {
        let read_buffer = put_header (p_blockHeader\<lparr>h_size := FS_SIZEINVALID\<rparr>) read_buffer;
        s \<leftarrow> flash_put H address (take sizeof_blockHeader read_buffer) s;
        Some (read_buffer, s)
      })"

text \<open>A valid block: \<open>True\<close> to go on with the scan, \<open>False\<close> when no descriptor is left.\<close>

definition initFd_valid ::
    "'w hal \<Rightarrow> u8 \<Rightarrow> u32 \<Rightarrow> bytes \<Rightarrow> 'w Fs \<Rightarrow> (bool \<times> bytes \<times> 'w Fs) option" where
  "initFd_valid H sector address read_buffer s =
     (let p_blockHeader = get_header read_buffer;
          i = fd_search (Fs_fd s) (h_name p_blockHeader) (ucast (h_ext p_blockHeader))
                0 (unat (curr_fd_index s)) in
      if i < unat (curr_fd_index s) then do {
        (read_buffer, s) \<leftarrow> initFd_duplicate H sector address i read_buffer s;
        Some (True, read_buffer, s)
      }
      else if unat (curr_fd_index s) < FD_MAX then
        Some (True, read_buffer, s\<lparr>Fs_fd := (Fs_fd s)[unat (curr_fd_index s) :=
            \<lparr>fd_address = address, fd_header = p_blockHeader, fd_sector = sector\<rparr>],
          curr_fd_index := curr_fd_index s + 1\<rparr>)
      else Some (False, read_buffer, s))"

section \<open>One sector\<close>

text \<open>
  The scan from \<open>address\<close> on. \<open>*sector_current\<close> is \<open>Fs.curr.address[sector]\<close> at the
  only call. The result is the routine's \<open>u32_t\<close>: 0 blank, 1 written, 2 full, and \<open>-1\<close>.
\<close>

partial_function (option) initFd_loop ::
    "'w hal \<Rightarrow> u8 \<Rightarrow> u32 \<Rightarrow> bytes \<Rightarrow> 'w Fs \<Rightarrow> (u32 \<times> 'w Fs) option" where
  "initFd_loop H sector address read_buffer s =
     (if address < Sector_base ! unat sector + FILESYSTEM_SECTOR_SIZE then do {
        let s = s\<lparr>curr_address := (curr_address s)[unat sector := address]\<rparr>;
        let (read_buffer, w) = flash_read H address read_buffer (hw s);
        let s = s\<lparr>hw := w\<rparr>;
        let (blockCheck, read_buffer) = checkBlock (crc32_calc H) read_buffer;
        if blockCheck = 0 then do {
          (go, read_buffer, s) \<leftarrow> initFd_valid H sector address read_buffer s;
          if go then initFd_loop H sector (address + word_of_nat FS_BLOCK_SIZE) read_buffer s
          else Some (-1, s)
        }
        else if blockCheck = BLOCK_IS_BLANK then
          if address = Sector_base ! unat sector then Some (0, s) else Some (1, s)
        else initFd_loop H sector (address + word_of_nat FS_BLOCK_SIZE) read_buffer s
      }
      else Some (2, s\<lparr>curr_address := (curr_address s)[unat sector :=
          curr_address s ! unat sector + word_of_nat FS_BLOCK_SIZE]\<rparr>))"

declare initFd_loop.simps [code]

text \<open>
  \<open>read_buffer\<close> is an uninitialised local; every read the scan makes fills it, so its first
  content does not matter.
\<close>

definition initFileDescriptors :: "'w hal \<Rightarrow> u8 \<Rightarrow> 'w Fs \<Rightarrow> (u32 \<times> 'w Fs) option" where
  "initFileDescriptors H sector s =
     initFd_loop H sector (Sector_base ! unat sector) (replicate FS_BLOCK_SIZE 0) s"

section \<open>All sectors\<close>

fun fs_init_sectors ::
    "'w hal \<Rightarrow> nat list \<Rightarrow> u8 \<Rightarrow> bool \<Rightarrow> 'w Fs \<Rightarrow> (u8 \<times> bool \<times> 'w Fs) option" where
  "fs_init_sectors H [] blankSector sectorAssigned s = Some (blankSector, sectorAssigned, s)"
| "fs_init_sectors H (i # is) blankSector sectorAssigned s = do {
     (r, s) \<leftarrow> initFileDescriptors H (word_of_nat i) s;
     let sectorSt = sint r;
     if sectorSt < 0 then fs_init_sectors H is blankSector sectorAssigned s
     else if sectorSt = 0 then fs_init_sectors H is (word_of_nat i) sectorAssigned s
     else if sectorSt = 1 then
       fs_init_sectors H is blankSector True (s\<lparr>curr_sector := word_of_nat i\<rparr>)
     else fs_init_sectors H is blankSector sectorAssigned s
   }"

definition fs_init :: "'w hal \<Rightarrow> 'w Fs \<Rightarrow> 'w Fs option" where
  "fs_init H s = do {
     (blankSector, sectorAssigned, s) \<leftarrow> fs_init_sectors H [0..<FS_NUM_SECTORS] 0 False s;
     let s = (if \<not> sectorAssigned then s\<lparr>curr_sector := blankSector\<rparr> else s);
     let (t, w) = timer_set H (Fs_timer s) (5 * CLOCK_SECOND) (hw s);
     let s = s\<lparr>Fs_timer := t, hw := w\<rparr>;
     Some (PT_INIT set_pt s)
   }"

text \<open>Power-on: \<open>Fs\<close> is zero, the hardware is what it was, and the system calls \<open>fs_init\<close>.\<close>

definition boot :: "'w hal \<Rightarrow> 'w \<Rightarrow> 'w Fs option" where
  "boot H w = fs_init H (Fs_zero w)"

end
