(* ===== verification/FsOps.thy ===== *)
theory FsOps
  imports FsState
begin

text \<open>
  The operations of a running file system: \<open>updateSector\<close>, \<open>fs_write\<close>, \<open>fs_read\<close>,
  \<open>findRelocSector\<close> and the relocation protothread \<open>fs_thread\<close>.

  \<open>fs_write\<close> and \<open>fs_thread\<close> call each other: \<open>fs_write\<close> starts the thread when it
  leaves a full sector, and the thread moves variables with \<open>fs_write\<close>. Each routine is
  written with the other one as an argument; \<open>fs_write_depth\<close> ties the knot for a bounded
  number of nested calls of \<open>fs_write\<close>, and \<open>fs_write\<close> takes depth 2, which is enough:
  \<open>fs_write_unfold\<close> and \<open>fs_thread_def\<close> are the recursive equations of the code.
\<close>

section \<open>The active sector\<close>

text \<open>The \<open>do .. while\<close> loop: the next sector, in ring order, that is not full.\<close>

partial_function (option) next_sector_loop :: "'w Fs \<Rightarrow> u8 \<Rightarrow> u8 option option" where
  "next_sector_loop s nextSector =
     (let nextSector = word_of_nat ((unat nextSector + 1) mod FS_NUM_SECTORS) in
      if \<not> SECTOR_IS_FULL s (unat nextSector) then Some (Some nextSector)
      else if nextSector \<noteq> curr_sector s then next_sector_loop s nextSector
      else Some None)"

declare next_sector_loop.simps [code]

definition updateSector ::
    "(u8 \<Rightarrow> 'w Fs thread) \<Rightarrow> 'w Fs \<Rightarrow> (int \<times> 'w Fs) option" where
  "updateSector thread s =
     (if SECTOR_IS_FULL s (unat (curr_sector s)) then do {
        found \<leftarrow> next_sector_loop s (curr_sector s);
        case found of
          Some nextSector \<Rightarrow> do {
            (_, s) \<leftarrow> thread 1 (s\<lparr>curr_sector := nextSector\<rparr>);
            Some (1, s)
          }
        | None \<Rightarrow> Some (-1, s)
      }
      else Some (0, s))"

section \<open>fs_write\<close>

type_synonym 'w writer = "u16 \<Rightarrow> u8 \<Rightarrow> bytes \<Rightarrow> u8 \<Rightarrow> 'w Fs \<Rightarrow> (int \<times> 'w Fs) option"

text \<open>
  The write buffer: \<open>u8_t write_buffer[FS_BLOCK_SIZE]={0xFF}\<close> is one byte \<open>0xFF\<close> and
  31 zero bytes; name, extension (cut to its 3 bits) and data go in.
\<close>

definition fill_write_buffer :: "u16 \<Rightarrow> u8 \<Rightarrow> bytes \<Rightarrow> nat \<Rightarrow> bytes option" where
  "fill_write_buffer blockName blockExt block_data block_len = do {
     let write_buffer = 0xFF # replicate (FS_BLOCK_SIZE - 1) 0;
     let write_buffer = put_header
       ((get_header write_buffer)\<lparr>h_name := blockName, h_ext := ucast blockExt\<rparr>) write_buffer;
     payload \<leftarrow> memcpy (drop sizeof_blockHeader write_buffer) block_data block_len;
     Some (take sizeof_blockHeader write_buffer @ payload)
   }"

text \<open>The previous block of the variable is flagged current before the new one is written.\<close>

definition mark_current :: "'w hal \<Rightarrow> nat \<Rightarrow> 'w Fs \<Rightarrow> 'w Fs option" where
  "mark_current H i s =
     (if i < unat (curr_fd_index s) \<and> h_newer (fd_header (Fs_fd s ! i)) = FS_BLOCK_NEWER then do {
        let d = Fs_fd s ! i;
        let d = d\<lparr>fd_header := (fd_header d)\<lparr>h_newer := FS_BLOCK_CURRENT\<rparr>\<rparr>;
        let s = s\<lparr>Fs_fd := (Fs_fd s)[i := d]\<rparr>;
        flash_put H (fd_address d) (take sizeof_blockHeader (header_bytes (fd_header d))) s
      }
      else Some s)"

text \<open>After the new block is on flash the previous one is invalidated (its first byte only).\<close>

definition invalidate_former :: "'w hal \<Rightarrow> nat \<Rightarrow> 'w Fs \<Rightarrow> 'w Fs option" where
  "invalidate_former H i s =
     (if i < unat (curr_fd_index s) then do {
        let d = Fs_fd s ! i;
        let d = d\<lparr>fd_header := (fd_header d)\<lparr>h_size := FS_SIZEINVALID\<rparr>\<rparr>;
        let s = s\<lparr>Fs_fd := (Fs_fd s)[i := d]\<rparr>;
        flash_put H (fd_address d) (take 1 (header_bytes (fd_header d))) s
      }
      else Some s)"

text \<open>The descriptor is pointed at the new block, which becomes current on flash too.\<close>

definition commit_fd :: "'w hal \<Rightarrow> nat \<Rightarrow> bytes \<Rightarrow> 'w Fs \<Rightarrow> (int \<times> 'w Fs) option" where
  "commit_fd H i write_buffer s =
     (if i < FD_MAX then do {
        let d = \<lparr>fd_address = curr_address s ! unat (curr_sector s),
                 fd_header = (get_header write_buffer)\<lparr>h_newer := FS_BLOCK_CURRENT\<rparr>,
                 fd_sector = curr_sector s\<rparr>;
        let s = s\<lparr>Fs_fd := (Fs_fd s)[i := d]\<rparr>;
        s \<leftarrow> flash_put H (fd_address d) (take 1 (header_bytes (fd_header d))) s;
        let s = (if i = unat (curr_fd_index s)
                 then s\<lparr>curr_fd_index := curr_fd_index s + 1\<rparr> else s);
        let k = unat (curr_sector s);
        Some (0, s\<lparr>curr_address :=
          (curr_address s)[k := curr_address s ! k + word_of_nat FS_BLOCK_SIZE]\<rparr>)
      }
      else Some (-1, s))"

definition fs_write_with ::
    "'w hal \<Rightarrow> ('w Fs \<Rightarrow> (int \<times> 'w Fs) option) \<Rightarrow> 'w writer" where
  "fs_write_with H update_sector blockName blockExt block_data block_len s =
     (if unat block_len > FS_BLOCK_SIZE - sizeof_blockHeader then Some (-1, s)
      else do {
        (r, s) \<leftarrow> update_sector s;
        if r < 0 then Some (-2, s)
        else do {
          write_buffer \<leftarrow> fill_write_buffer blockName blockExt block_data (unat block_len);
          let p_blockHeader = get_header write_buffer;
          let i = fd_search (Fs_fd s) (h_name p_blockHeader) (ucast (h_ext p_blockHeader))
                    0 (unat (curr_fd_index s));
          s \<leftarrow> mark_current H i s;
          let write_buffer = updateBlockHash (crc32_calc H) write_buffer
                (word_of_nat FS_BLOCK_SIZE) FS_SIZE32 FS_BLOCK_NEWER;
          s \<leftarrow> flash_put H (curr_address s ! unat (curr_sector s)) write_buffer s;
          s \<leftarrow> invalidate_former H i s;
          commit_fd H i write_buffer s
        }
      })"

section \<open>fs_read\<close>

text \<open>
  \<open>block_data\<close> is the caller's buffer, returned as the call leaves it. There is no check of
  \<open>block_len\<close>: beyond 28 the copy leaves \<open>read_buffer\<close>, and the result is \<open>None\<close>. The zeros
  stand for the uninitialised \<open>read_buffer\<close>; a device that accepts the address overwrites them all.
\<close>

definition fs_read ::
    "'w hal \<Rightarrow> u16 \<Rightarrow> u8 \<Rightarrow> bytes \<Rightarrow> u8 \<Rightarrow> 'w Fs \<Rightarrow> (int \<times> bytes \<times> 'w Fs) option" where
  "fs_read H blockName blockExt block_data block_len s =
     (let i = fd_search (Fs_fd s) blockName blockExt 0 (unat (curr_fd_index s)) in
      if i < unat (curr_fd_index s) then do {
        w \<leftarrow> flash_wait H (hw s);
        let (read_buffer, w) =
          flash_read H (fd_address (Fs_fd s ! i)) (replicate FS_BLOCK_SIZE 0) w;
        block_data \<leftarrow> memcpy block_data (drop sizeof_blockHeader read_buffer) (unat block_len);
        Some (0, block_data, s\<lparr>hw := w\<rparr>)
      }
      else Some (-1, block_data, s))"

section \<open>findRelocSector\<close>

record reloc_entry =
  fd_count :: u8
  full :: u8

text \<open>First loop: \<open>None\<close> is the early \<open>return -1\<close>, enough blank sectors.\<close>

fun reloc_scan :: "'w Fs \<Rightarrow> nat list \<Rightarrow> u8 \<Rightarrow> reloc_entry list \<Rightarrow> reloc_entry list option" where
  "reloc_scan s [] blankSectors reloc_map = Some reloc_map"
| "reloc_scan s (sector # sectors) blankSectors reloc_map =
     (if sector = unat (curr_sector s) then reloc_scan s sectors blankSectors reloc_map
      else if SECTOR_IS_BLANK s sector then
        if blankSectors + 1 = word_of_nat FS_MIN_BLANKSECTORS then None
        else reloc_scan s sectors (blankSectors + 1) reloc_map
      else if SECTOR_IS_FULL s sector then
        reloc_scan s sectors blankSectors (reloc_map[sector := (reloc_map ! sector)\<lparr>full := 1\<rparr>])
      else reloc_scan s sectors blankSectors reloc_map)"

text \<open>Second loop: the number of descriptors in each full sector.\<close>

fun reloc_histogram :: "'w Fs \<Rightarrow> nat list \<Rightarrow> reloc_entry list \<Rightarrow> reloc_entry list" where
  "reloc_histogram s [] reloc_map = reloc_map"
| "reloc_histogram s (fd # fds) reloc_map =
     (let k = unat (fd_sector (Fs_fd s ! fd)) in
      if full (reloc_map ! k) = 1 then
        reloc_histogram s fds (reloc_map[k := (reloc_map ! k)\<lparr>fd_count := fd_count (reloc_map ! k) + 1\<rparr>])
      else reloc_histogram s fds reloc_map)"

text \<open>Third loop: the full sector with the fewest descriptors, from the current sector on.\<close>

fun reloc_winner :: "'w Fs \<Rightarrow> reloc_entry list \<Rightarrow> nat list \<Rightarrow> u8 \<Rightarrow> u8 \<Rightarrow> u8" where
  "reloc_winner s reloc_map [] fd_min reloc = reloc"
| "reloc_winner s reloc_map (sector # sectors) fd_min reloc =
     (let new_sector = (unat (curr_sector s) + sector) mod FS_NUM_SECTORS in
      if full (reloc_map ! new_sector) = 1 \<and> fd_count (reloc_map ! new_sector) < fd_min then
        reloc_winner s reloc_map sectors (fd_count (reloc_map ! new_sector)) (word_of_nat new_sector)
      else reloc_winner s reloc_map sectors fd_min reloc)"

definition findRelocSector :: "'w Fs \<Rightarrow> int \<times> 'w Fs" where
  "findRelocSector s =
     (case reloc_scan s [0..<FS_NUM_SECTORS] 0
         (replicate FS_NUM_SECTORS \<lparr>fd_count = 0, full = 0\<rparr>) of
        None \<Rightarrow> (-1, s)
      | Some reloc_map \<Rightarrow>
          let reloc_map = reloc_histogram s [0..<unat (curr_fd_index s)] reloc_map
          in (0, s\<lparr>reloc_sector := reloc_winner s reloc_map [0..<FS_NUM_SECTORS]
                     (word_of_nat FDS_PER_SECTOR) 0\<rparr>))"

section \<open>fs_thread\<close>

text \<open>
  The thread is cut at its blocking macros; a continuation is the line of the macro, as
  \<open>lc-switch.h\<close> stores it. From the last macro to the first: the erase (line 622), the
  head of the \<open>for\<close> loop with the read (576), the conditional write (607 to 610), and the
  wait for the timer (555).
\<close>

definition flash_not_ready :: "'w hal \<Rightarrow> 'w Fs condition" where
  "flash_not_ready H s = (let (r, w) = flash_ready H (hw s) in Some (r \<noteq> 1, s\<lparr>hw := w\<rparr>))"

definition restart_timer :: "'w hal \<Rightarrow> 'w Fs \<Rightarrow> 'w Fs" where
  "restart_timer H s = (let (t, w) = timer_restart H (Fs_timer s) (hw s) in s\<lparr>Fs_timer := t, hw := w\<rparr>)"

definition thread_erase :: "'w hal \<Rightarrow> 'w Fs thread" where
  "thread_erase H = PT_WAIT_WHILE set_pt 622 (flash_not_ready H)
     (\<lambda>s. let k = unat (reloc_sector s);
            s = s\<lparr>hw := flash_erase H (Sector_base ! k) (hw s)\<rparr>;
            s = s\<lparr>curr_address := (curr_address s)[k := Sector_base ! k]\<rparr>;
            s = restart_timer H s
          in PT_END set_pt s)"

definition thread_read :: "'w hal \<Rightarrow> 'w Fs thread" where
  "thread_read H = PT_WAIT_WHILE set_pt 576 (flash_not_ready H)
     (\<lambda>s. let (b, w) = flash_read H (fd_address (reloc_fd s)) (reloc_buffer s) (hw s)
          in PT_YIELD set_pt 596 (s\<lparr>reloc_buffer := b, hw := w\<rparr>))"

function thread_for :: "'w hal \<Rightarrow> 'w Fs thread" where
  "thread_for H s =
     (if reloc_fd_index s < curr_fd_index s then
        if fd_sector (Fs_fd s ! unat (reloc_fd_index s)) = reloc_sector s
        then thread_read H (s\<lparr>reloc_fd := Fs_fd s ! unat (reloc_fd_index s)\<rparr>)
        else thread_for H (s\<lparr>reloc_fd_index := reloc_fd_index s + 1\<rparr>)
      else thread_erase H s)"
  by pat_completeness auto
termination
proof (relation "measure (\<lambda>(H, s). unat (curr_fd_index s) - unat (reloc_fd_index s))", goal_cases)
  case (2 H s)
  then have "unat (reloc_fd_index s) < unat (curr_fd_index s)"
    by (simp add: word_less_nat_alt)
  moreover from this have "unat (reloc_fd_index s + 1) = unat (reloc_fd_index s) + 1"
    using unsigned_less [of "curr_fd_index s", where ?'a = nat]
    by (simp add: unat_word_ariths)
  ultimately show ?case by simp
qed simp

declare thread_for.simps [simp del]

text \<open>The body after the write, and the loop's increment when line 617 is resumed.\<close>

definition thread_next :: "'w hal \<Rightarrow> 'w Fs thread" where
  "thread_next H s = thread_for H (s\<lparr>reloc_fd_index := reloc_fd_index s + 1\<rparr>)"

text \<open>\<open>while (fs_write(...) < 0) PT_YIELD\<close>: one attempt per call.\<close>

definition thread_write :: "'w writer \<Rightarrow> 'w Fs thread" where
  "thread_write writer s = do {
     (r, s) \<leftarrow> writer (h_name (fd_header (reloc_fd s))) (ucast (h_ext (fd_header (reloc_fd s))))
       (drop sizeof_blockHeader (reloc_buffer s))
       (word_of_nat (FS_BLOCK_SIZE - sizeof_blockHeader)) s;
     if r < 0 then PT_YIELD set_pt 610 s else PT_YIELD set_pt 617 s
   }"

definition thread_check :: "'w writer \<Rightarrow> 'w Fs thread" where
  "thread_check writer s =
     (if fd_address (Fs_fd s ! unat (reloc_fd_index s)) = fd_address (reloc_fd s)
      then thread_write writer s
      else PT_YIELD set_pt 617 s)"

definition thread_find :: "'w hal \<Rightarrow> 'w Fs thread" where
  "thread_find H s =
     (let (r, s) = findRelocSector s in
      if r < 0 then PT_RESTART set_pt (restart_timer H s)
      else thread_for H (s\<lparr>reloc_fd_index := 0\<rparr>))"

definition thread_wait :: "'w hal \<Rightarrow> u8 \<Rightarrow> 'w Fs thread" where
  "thread_wait H reloc_flag = PT_WAIT_UNTIL set_pt 555
     (\<lambda>s. Some (if reloc_flag = 1 then (True, s)
          else let (r, w) = timer_expired H (Fs_timer s) (hw s) in (r \<noteq> 0, s\<lparr>hw := w\<rparr>)))
     (PT_YIELD set_pt 556)"

text \<open>The jump of \<open>PT_BEGIN\<close>; a line that is no label falls out of the \<open>switch\<close>.\<close>

definition fs_thread_with :: "'w hal \<Rightarrow> 'w writer \<Rightarrow> u8 \<Rightarrow> 'w Fs thread" where
  "fs_thread_with H writer reloc_flag s =
     (if Fs_pt s = 0 \<or> Fs_pt s = 555 then thread_wait H reloc_flag s
      else if Fs_pt s = 556 then thread_find H s
      else if Fs_pt s = 576 then thread_read H s
      else if Fs_pt s = 596 then thread_check writer s
      else if Fs_pt s = 610 then thread_write writer s
      else if Fs_pt s = 617 then thread_next H s
      else if Fs_pt s = 622 then thread_erase H s
      else PT_END set_pt s)"

section \<open>Tying the knot\<close>

primrec fs_write_depth :: "nat \<Rightarrow> 'w hal \<Rightarrow> 'w writer" where
  "fs_write_depth 0 H = (\<lambda>_ _ _ _ _. None)"
| "fs_write_depth (Suc d) H = fs_write_with H (updateSector (fs_thread_with H (fs_write_depth d H)))"

definition fs_write :: "'w hal \<Rightarrow> 'w writer" where
  "fs_write H = fs_write_depth 2 H"

definition fs_thread :: "'w hal \<Rightarrow> u8 \<Rightarrow> 'w Fs thread" where
  "fs_thread H = fs_thread_with H (fs_write H)"

text \<open>
  The nested call finds a sector that is not full, so it does not start the thread again.
\<close>

lemma next_sector_not_full:
  assumes "next_sector_loop s n = Some (Some m)"
  shows "\<not> SECTOR_IS_FULL s (unat m)"
proof -
  have "\<forall>m. r = Some m \<longrightarrow> \<not> SECTOR_IS_FULL s (unat m)" if "next_sector_loop s n = Some r" for r
  proof (rule next_sector_loop.raw_induct
      [where P = "\<lambda>s n r. \<forall>m. r = Some m \<longrightarrow> \<not> SECTOR_IS_FULL s (unat m)", OF _ that], goal_cases)
    case (1 f s n r)
    from 1(2) show ?case
      by (auto simp: Let_def split: if_splits dest: 1(1))
  qed
  then show ?thesis using assms by blast
qed

definition curr_full :: "'w Fs \<Rightarrow> bool" where
  "curr_full s \<longleftrightarrow> SECTOR_IS_FULL s (unat (curr_sector s))"

lemma updateSector_not_full: "\<not> curr_full s \<Longrightarrow> updateSector f s = Some (0, s)"
  by (simp add: updateSector_def curr_full_def)

lemma fs_write_with_cong:
  "f s = g s \<Longrightarrow> fs_write_with H f name ext d n s = fs_write_with H g name ext d n s"
  by (simp add: fs_write_with_def)

lemma fs_thread_with_cong:
  assumes "\<And>name ext d n. f name ext d n s = g name ext d n s"
  shows "fs_thread_with H f flag s = fs_thread_with H g flag s"
  using assms by (simp add: fs_thread_with_def thread_write_def thread_check_def)

lemma updateSector_cong:
  assumes "\<And>s flag. \<not> curr_full s \<Longrightarrow> f flag s = g flag s"
  shows "updateSector f s = updateSector g s"
proof -
  have "f 1 (s\<lparr>curr_sector := m\<rparr>) = g 1 (s\<lparr>curr_sector := m\<rparr>)"
    if "next_sector_loop s (curr_sector s) = Some (Some m)" for m
    using next_sector_not_full [OF that] by (auto intro!: assms simp: curr_full_def SECTOR_IS_FULL_def)
  then show ?thesis
    by (cases "next_sector_loop s (curr_sector s)")
      (auto simp: updateSector_def split: option.split)
qed

lemma fs_write_depth_not_full:
  assumes "\<not> curr_full s"
  shows "fs_write_depth (Suc d) H name ext data n s = fs_write_depth (Suc e) H name ext data n s"
  by (simp add: fs_write_with_cong [of "updateSector _"] updateSector_not_full assms
      fs_write_with_def)

lemma fs_write_depth_enough:
  "fs_write_depth (Suc (Suc d)) H = fs_write H"
proof -
  have "updateSector (fs_thread_with H (fs_write_depth (Suc d) H))
      = updateSector (fs_thread_with H (fs_write_depth (Suc 0) H))"
    by (intro ext updateSector_cong fs_thread_with_cong fs_write_depth_not_full)
  then show ?thesis
    unfolding fs_write_def numeral_2_eq_2 fs_write_depth.simps(2) [of "Suc _"] by simp
qed

lemma fs_write_unfold: "fs_write H = fs_write_with H (updateSector (fs_thread H))"
  using fs_write_depth_enough [of "Suc 0" H]
  by (simp add: fs_thread_def fs_write_def numeral_2_eq_2 numeral_3_eq_3)

section \<open>Properties\<close>

text \<open>
  C15. The mutual recursion of \<open>fs_write\<close> and \<open>fs_thread\<close> is two calls deep: any larger
  bound on the nesting gives the same function, so \<open>fs_write\<close> and \<open>fs_thread\<close> satisfy the
  recursive equations of the code, on every device and in every state.
\<close>

theorem fs_write_recursion:
  "fs_write_depth (d + 2) H = fs_write H \<and>
   fs_write H = fs_write_with H (updateSector (fs_thread H)) \<and>
   fs_thread H = fs_thread_with H (fs_write H)"
  using fs_write_depth_enough [of d H] fs_write_unfold [of H] unfolding fs_thread_def
  by (intro conjI) simp_all

end
