(* ===== verification/Images.thy ===== *)
theory Images
  imports Hal
begin

text \<open>
  The abstract view of a flash image: which variables it holds (\<open>flash_vars\<close>), when it is
  well formed (\<open>image_ok\<close>), and what the file system's single writes and erases do to both.
  \<open>flash_vars\<close> is the specification the operations are proved against: it is what a reboot
  recovers.
\<close>

section \<open>The variables of an image\<close>

definition slots :: "nat list" where
  "slots = [0..<1024]"

lemma find_slots: "find P slots = Some m \<Longrightarrow> m < 1024 \<and> P m \<and> (\<forall>j < m. \<not> P j)"
  unfolding slots_def by (rule find_upt_least)

lemma find_slots_None: "find P slots = None \<longleftrightarrow> (\<forall>j < 1024. \<not> P j)"
  unfolding slots_def by (rule find_upt_None)

definition live :: "(bytes \<Rightarrow> u32) \<Rightarrow> image \<Rightarrow> key \<Rightarrow> nat \<Rightarrow> bool" where
  "live crc img key m \<longleftrightarrow> valid crc (img m) \<and> key_of (img m) = key"

text \<open>A variable's data is that of its valid block flagged newer, else of its valid block.\<close>

definition flash_vars :: "(bytes \<Rightarrow> u32) \<Rightarrow> image \<Rightarrow> key \<Rightarrow> bytes option" where
  "flash_vars crc img key =
     (case find (\<lambda>m. live crc img key m \<and> newer_of (img m) = FS_BLOCK_NEWER) slots of
        Some m \<Rightarrow> Some (data_of (img m))
      | None \<Rightarrow> map_option (\<lambda>m. data_of (img m)) (find (live crc img key) slots))"

section \<open>Well-formed images\<close>

text \<open>
  \<open>n k\<close> is the fill of sector \<open>k\<close>: the blocks below it are written (their header is not
  blank), those from it on are blank.
\<close>

definition layout :: "image \<Rightarrow> (nat \<Rightarrow> nat) \<Rightarrow> bool" where
  "layout img n \<longleftrightarrow>
     (\<forall>m. length (img m) = 32) \<and> (\<forall>m \<ge> 1024. img m = blank_block) \<and> (\<forall>k < 8. n k \<le> 128) \<and>
     (\<forall>m < 1024. if m mod 128 < n (m div 128) then \<not> hdr_blank (img m) else img m = blank_block)"

text \<open>Every sector but one, \<open>c\<close>, is blank or full.\<close>

definition ring :: "(nat \<Rightarrow> nat) \<Rightarrow> nat \<Rightarrow> bool" where
  "ring n c \<longleftrightarrow> c < 8 \<and> (\<forall>k < 8. k \<noteq> c \<longrightarrow> n k = 0 \<or> n k = 128)"

text \<open>Two valid blocks of one variable differ in \<open>newer\<close>; so there are two at most.\<close>

definition pairs :: "(bytes \<Rightarrow> u32) \<Rightarrow> image \<Rightarrow> bool" where
  "pairs crc img \<longleftrightarrow> (\<forall>key m m'. live crc img key m \<longrightarrow> live crc img key m' \<longrightarrow> m \<noteq> m' \<longrightarrow>
     newer_of (img m) \<noteq> newer_of (img m'))"

definition unique :: "(bytes \<Rightarrow> u32) \<Rightarrow> image \<Rightarrow> bool" where
  "unique crc img \<longleftrightarrow> (\<forall>key m m'. live crc img key m \<longrightarrow> live crc img key m' \<longrightarrow> m = m')"

definition image_ok :: "(bytes \<Rightarrow> u32) \<Rightarrow> image \<Rightarrow> bool" where
  "image_ok crc img \<longleftrightarrow> (\<exists>n c. layout img n \<and> ring n c) \<and> pairs crc img \<and>
     card (dom (flash_vars crc img)) \<le> FD_MAX"

section \<open>Reading the variables\<close>

lemma bit_flag: "(x :: 1 word) \<noteq> 1 \<longleftrightarrow> x = 0"
proof -
  have "x = (if bit x 0 then 1 else 0)"
    by (rule bit_word_eqI) (auto simp: bit_simps)
  then show ?thesis by (metis zero_neq_one)
qed

lemma flag_either: "(a :: 1 word) \<noteq> b \<Longrightarrow> a \<noteq> c \<Longrightarrow> b = c"
  using bit_flag [of a] bit_flag [of b] bit_flag [of c] by fastforce

lemma pairsD: "pairs crc img \<Longrightarrow> live crc img key m \<Longrightarrow> live crc img key m' \<Longrightarrow> m \<noteq> m' \<Longrightarrow>
    newer_of (img m) \<noteq> newer_of (img m')"
  unfolding pairs_def by blast

lemma pairsI: "(\<And>key m m'. live crc img key m \<Longrightarrow> live crc img key m' \<Longrightarrow> m \<noteq> m' \<Longrightarrow>
    newer_of (img m) \<noteq> newer_of (img m')) \<Longrightarrow> pairs crc img"
  unfolding pairs_def by blast

lemma uniqueD: "unique crc img \<Longrightarrow> live crc img key m \<Longrightarrow> live crc img key m' \<Longrightarrow> m = m'"
  unfolding unique_def by blast

lemma uniqueI: "(\<And>key m m'. live crc img key m \<Longrightarrow> live crc img key m' \<Longrightarrow> m = m') \<Longrightarrow>
    unique crc img"
  unfolding unique_def by blast

lemma unique_pairs: "unique crc img \<Longrightarrow> pairs crc img"
  by (blast intro: pairsI dest: uniqueD)

lemma live_lt: "layout img n \<Longrightarrow> live crc img key m \<Longrightarrow> m < 1024"
  by (metis live_def layout_def not_le not_valid_blank)

lemma valid_lt: "layout img n \<Longrightarrow> valid crc (img m) \<Longrightarrow> m < 1024"
  by (metis live_def live_lt)

lemma valid_filled: "layout img n \<Longrightarrow> valid crc (img m) \<Longrightarrow> m mod 128 < n (m div 128)"
  by (metis layout_def not_valid_blank valid_lt)

lemma flash_vars_None: "flash_vars crc img key = None \<longleftrightarrow> (\<forall>m < 1024. \<not> live crc img key m)"
  by (auto simp: flash_vars_def find_slots_None split: option.split dest: find_slots)

lemma flash_vars_Some:
  assumes "pairs crc img" "m < 1024" "live crc img key m"
    and "newer_of (img m) = 1 \<or> (\<forall>m' < 1024. live crc img key m' \<longrightarrow> m' = m)"
  shows "flash_vars crc img key = Some (data_of (img m))"
proof (cases "find (\<lambda>m. live crc img key m \<and> newer_of (img m) = FS_BLOCK_NEWER) slots")
  case (Some x)
  then have "x < 1024" "live crc img key x" "newer_of (img x) = 1"
    by (auto dest: find_slots)
  then have "x = m"
    using pairsD [OF assms(1), of key x m] assms(2-4) by auto
  with Some show ?thesis by (simp add: flash_vars_def)
next
  case None
  then have "newer_of (img m) \<noteq> 1"
    using assms(2,3) by (auto simp: find_slots_None)
  then have sole: "\<forall>m' < 1024. live crc img key m' \<longrightarrow> m' = m"
    using assms(4) by blast
  have "find (live crc img key) slots \<noteq> None"
    using assms(2,3) by (auto simp: find_slots_None)
  then obtain y where "find (live crc img key) slots = Some y" by auto
  with None sole show ?thesis by (auto simp: flash_vars_def dest!: find_slots)
qed

lemma flash_vars_unique:
  assumes "unique crc img" "m < 1024" "live crc img key m"
  shows "flash_vars crc img key = Some (data_of (img m))"
  using assms by (intro flash_vars_Some) (auto simp: unique_pairs dest: uniqueD)

text \<open>The block that decides a variable's value.\<close>

definition decides :: "(bytes \<Rightarrow> u32) \<Rightarrow> image \<Rightarrow> key \<Rightarrow> nat \<Rightarrow> bool" where
  "decides crc img key m \<longleftrightarrow> m < 1024 \<and> live crc img key m \<and>
     (newer_of (img m) = 1 \<or> (\<forall>m' < 1024. live crc img key m' \<longrightarrow> m' = m))"

lemma decides_exists:
  assumes "pairs crc img" "m < 1024" "live crc img key m"
  shows "\<exists>m'. decides crc img key m'"
proof (cases "newer_of (img m) = 1 \<or> (\<forall>m' < 1024. live crc img key m' \<longrightarrow> m' = m)")
  case True
  then show ?thesis using assms by (auto simp: decides_def)
next
  case False
  then obtain m' where "m' < 1024" "live crc img key m'" "m' \<noteq> m" "newer_of (img m) = 0"
    by (auto simp: bit_flag)
  moreover from this have "newer_of (img m') = 1"
    using pairsD [OF assms(1,3), of m'] bit_flag by metis
  ultimately show ?thesis by (auto simp: decides_def)
qed

lemma decides_value:
  "pairs crc img \<Longrightarrow> decides crc img key m \<Longrightarrow> flash_vars crc img key = Some (data_of (img m))"
  by (auto simp: decides_def intro: flash_vars_Some)

text \<open>
  Two images agree on a variable when each block that decides it in the first decides it in
  the second with the same data, and no block appears.
\<close>

lemma flash_vars_transfer:
  assumes "pairs crc img" "pairs crc img'"
    and "\<And>m. decides crc img key m \<Longrightarrow> decides crc img' key m \<and> data_of (img' m) = data_of (img m)"
    and "\<And>m. m < 1024 \<Longrightarrow> live crc img' key m \<Longrightarrow> \<exists>m' < 1024. live crc img key m'"
  shows "flash_vars crc img' key = flash_vars crc img key"
proof (cases "\<exists>m < 1024. live crc img key m")
  case True
  then obtain m where "decides crc img key m"
    using decides_exists assms(1) by blast
  then show ?thesis
    using assms(1-3) decides_value by metis
next
  case False
  then have "flash_vars crc img key = None" "flash_vars crc img' key = None"
    using assms(4) by (auto simp: flash_vars_None)
  then show ?thesis by simp
qed

section \<open>Writes and erases\<close>

lemma layout_length: "layout img n \<Longrightarrow> length (img m) = 32"
  by (simp add: layout_def)

lemma layout_update [image_intros]:
  assumes "layout img n" "m < 1024" "m mod 128 < n (m div 128)"
    and "length b = 32" "\<not> hdr_blank b"
  shows "layout (img(m := b)) n"
  using assms by (auto simp: layout_def)

lemma layout_append [image_intros]:
  assumes "layout img n" "k < 8" "n k < 128" "length b = 32" "\<not> hdr_blank b"
  shows "layout (img(128 * k + n k := b)) (n(k := Suc (n k)))"
proof -
  have "m = 128 * k + n k" if "m div 128 = k" "m mod 128 < Suc (n k)" "\<not> m mod 128 < n k" for m
    using that by (metis less_antisym mult_div_mod_eq)
  moreover have "(128 * k + n k) div 128 = k" "(128 * k + n k) mod 128 = n k"
    using assms(3) by auto
  ultimately show ?thesis
    using assms unfolding layout_def by auto (metis less_antisym mult_div_mod_eq)+
qed

lemma layout_erase [image_intros]:
  "layout img n \<Longrightarrow> layout (erase_sector k img) (n(k := 0))"
  by (auto simp: layout_def)

text \<open>Changing only the \<open>newer\<close> flag of a block.\<close>

lemma live_newer:
  assumes "img' = img(m := put_header ((get_header (img m))\<lparr>h_newer := x\<rparr>) (img m))"
  shows "live crc img' key m' = live crc img key m'"
  using assms by (auto simp: live_def hdr_simps) (simp_all add: key_of_def)

lemma unique_newer:
  assumes "unique crc img" "img' = img(m := put_header ((get_header (img m))\<lparr>h_newer := x\<rparr>) (img m))"
  shows "unique crc img' \<and> flash_vars crc img' = flash_vars crc img"
proof
  show u: "unique crc img'"
    using assms(1) by (auto intro!: uniqueI simp: live_newer [OF assms(2)] dest: uniqueD)
  show "flash_vars crc img' = flash_vars crc img"
  proof
    fix key
    show "flash_vars crc img' key = flash_vars crc img key"
    proof (rule flash_vars_transfer)
      fix m' assume "decides crc img key m'"
      moreover have "data_of (img' m') = data_of (img m')"
        by (simp add: assms(2) data_of_put)
      ultimately show "decides crc img' key m' \<and> data_of (img' m') = data_of (img m')"
        using assms(1) by (auto simp: decides_def live_newer [OF assms(2)] dest: uniqueD)
    qed (use assms(1) u live_newer [OF assms(2)] in \<open>auto simp: unique_pairs\<close>)
  qed
qed

text \<open>A new block, flagged newer, over a slot that was not valid.\<close>

lemma append_newer:
  assumes "unique crc img" "m < 1024" "\<not> valid crc (img m)" "valid crc b" "newer_of b = 1"
    and "\<And>m'. live crc img (key_of b) m' \<Longrightarrow> newer_of (img m') = 0"
  shows "pairs crc (img(m := b)) \<and>
    flash_vars crc (img(m := b)) = (flash_vars crc img)(key_of b \<mapsto> data_of b)"
proof
  let ?img = "img(m := b)"
  have live: "live crc ?img key m' \<longleftrightarrow> (if m' = m then key = key_of b else live crc img key m')" for key m'
    using assms(4) by (auto simp: live_def)
  show p: "pairs crc ?img"
    using assms(1,5,6) by (intro pairsI) (auto simp: live split: if_splits dest: uniqueD)
  show "flash_vars crc ?img = (flash_vars crc img)(key_of b \<mapsto> data_of b)"
  proof
    fix key
    show "flash_vars crc ?img key = ((flash_vars crc img)(key_of b \<mapsto> data_of b)) key"
    proof (cases "key = key_of b")
      case True
      then show ?thesis
        using decides_value [OF p, of key m] assms(2,5) by (simp add: decides_def live)
    next
      case False
      then have "flash_vars crc ?img key = flash_vars crc img key"
        using assms(1,3) p
        by (intro flash_vars_transfer)
          (auto simp: unique_pairs live decides_def live_def split: if_splits)
      with False show ?thesis by simp
    qed
  qed
qed

text \<open>Invalidating the older of the two blocks of a variable.\<close>

lemma invalidate_older:
  assumes "pairs crc img" "m2 < 1024" "live crc img key m" "live crc img key m2"
    and "m \<noteq> m2" "newer_of (img m2) = 1" "\<not> valid crc b"
  shows "flash_vars crc (img(m := b)) = flash_vars crc img"
    and "pairs crc (img(m := b))"
proof -
  let ?img = "img(m := b)"
  have live: "live crc ?img k m' \<longleftrightarrow> m' \<noteq> m \<and> live crc img k m'" for k m'
    using assms(7) by (auto simp: live_def)
  show p: "pairs crc ?img"
    using assms(1) by (intro pairsI) (auto simp: live dest: pairsD)
  show "flash_vars crc ?img = flash_vars crc img"
  proof
    fix k
    show "flash_vars crc ?img k = flash_vars crc img k"
    proof (rule flash_vars_transfer [OF assms(1) p])
      fix m' assume d: "decides crc img k m'"
      have "m' \<noteq> m"
      proof
        assume "m' = m"
        with d have "k = key" using assms(3) by (auto simp: decides_def live_def)
        with d \<open>m' = m\<close> show False
          using assms(1-6) pairsD unfolding decides_def by metis
      qed
      with d show "decides crc ?img k m' \<and> data_of (?img m') = data_of (img m')"
        by (auto simp: decides_def live)
    qed (auto simp: live)
  qed
qed

lemma unique_invalidate_older:
  assumes "pairs crc img" "live crc img key m" "live crc img key m2" "m \<noteq> m2" "\<not> valid crc b"
    and "\<And>k m1 m2. k \<noteq> key \<Longrightarrow> live crc img k m1 \<Longrightarrow> live crc img k m2 \<Longrightarrow> m1 = m2"
  shows "unique crc (img(m := b))"
proof -
  let ?img = "img(m := b)"
  have live: "live crc ?img k m' \<longleftrightarrow> m' \<noteq> m \<and> live crc img k m'" for k m'
    using assms(5) by (auto simp: live_def)
  have only: "m1 = m2" if "live crc img key m1" "m1 \<noteq> m" for m1
    using flag_either [of "newer_of (img m)" "newer_of (img m1)" "newer_of (img m2)"]
      pairsD [OF assms(1), of key] that assms(2-4) by metis
  show ?thesis
  proof (rule uniqueI)
    fix k x y assume "live crc ?img k x" "live crc ?img k y"
    then show "x = y"
      using only [of x] only [of y] assms(6) [of k x y] by (cases "k = key") (simp_all add: live)
  qed
qed

text \<open>A change that touches no valid block.\<close>

lemma invisible_change:
  assumes "\<And>m. valid crc (img m) \<or> valid crc (img' m) \<Longrightarrow> img' m = img m"
  shows "live crc img' = live crc img" "flash_vars crc img' = flash_vars crc img"
    "pairs crc img' = pairs crc img" "unique crc img' = unique crc img"
proof -
  have live: "live crc img' key m \<longleftrightarrow> live crc img key m" for key m
    using assms [of m] by (auto simp: live_def)
  then show "live crc img' = live crc img" by (intro ext)
  have same: "img' m = img m" if "live crc img key m" for key m
    using that assms [of m] by (auto simp: live_def)
  have dec: "decides crc img' key m \<longleftrightarrow> decides crc img key m" for key m
    using same live unfolding decides_def by metis
  show "pairs crc img' = pairs crc img"
    unfolding pairs_def live using same by metis
  show "unique crc img' = unique crc img"
    by (simp add: unique_def live)
  have find: "find (\<lambda>m. live crc img' key m \<and> newer_of (img' m) = 1) slots
      = find (\<lambda>m. live crc img key m \<and> newer_of (img m) = 1) slots"
      "find (live crc img' key) slots = find (live crc img key) slots" for key
    using same live by (auto intro!: find_cong)
  show "flash_vars crc img' = flash_vars crc img"
    unfolding flash_vars_def FS_BLOCK_NEWER_def find
    by (intro ext) (auto split: option.split dest!: find_slots simp: same map_option_case)
qed

end
