(* ===== verification/FsInv.thy ===== *)
theory FsInv
  imports FsInit FsOps Images
begin

text \<open>
  The invariant of a running file system: the index in RAM describes the image on flash.
  Everything here is about states and images; the device comes in with \<open>FsWrite\<close>.
\<close>

section \<open>Index and image\<close>

abbreviation nfd :: "'w Fs \<Rightarrow> nat" where
  "nfd s \<equiv> unat (curr_fd_index s)"

abbreviation cur :: "'w Fs \<Rightarrow> nat" where
  "cur s \<equiv> unat (curr_sector s)"

abbreviation fd_slot :: "st_fileDescriptor \<Rightarrow> nat" where
  "fd_slot d \<equiv> slot_of (fd_address d)"

abbreviation fd_key :: "st_fileDescriptor \<Rightarrow> key" where
  "fd_key d \<equiv> hdr_key (fd_header d)"

text \<open>A descriptor names a valid block, the sector it lies in, and has that block's header.\<close>

definition fd_ok :: "(bytes \<Rightarrow> u32) \<Rightarrow> image \<Rightarrow> st_fileDescriptor \<Rightarrow> bool" where
  "fd_ok crc img d \<longleftrightarrow> fd_slot d < 1024 \<and> fd_address d = slot_addr (fd_slot d) \<and>
     fd_sector d = word_of_nat (fd_slot d div 128) \<and> valid crc (img (fd_slot d)) \<and>
     get_header (img (fd_slot d)) = fd_header d"

definition fs_rel :: "(bytes \<Rightarrow> u32) \<Rightarrow> (nat \<Rightarrow> nat) \<Rightarrow> image \<Rightarrow> 'w Fs \<Rightarrow> bool" where
  "fs_rel crc n img s \<longleftrightarrow>
     length (Fs_fd s) = FD_MAX \<and> nfd s \<le> FD_MAX \<and>
     curr_address s = map (\<lambda>k. slot_addr (128 * k + n k)) [0..<8] \<and>
     layout img n \<and> ring n (cur s) \<and>
     (\<forall>i < nfd s. fd_ok crc img (Fs_fd s ! i)) \<and>
     (\<forall>i < nfd s. \<forall>j < nfd s. fd_key (Fs_fd s ! i) = fd_key (Fs_fd s ! j) \<longrightarrow> i = j) \<and>
     (\<forall>m. valid crc (img m) \<longrightarrow> (\<exists>i < nfd s. fd_slot (Fs_fd s ! i) = m))"

lemma fs_rel_frame [simp]:
  "fs_rel crc n img (s\<lparr>hw := w\<rparr>) = fs_rel crc n img s"
  "fs_rel crc n img (s\<lparr>Fs_pt := l\<rparr>) = fs_rel crc n img s"
  "fs_rel crc n img (s\<lparr>Fs_timer := t\<rparr>) = fs_rel crc n img s"
  "fs_rel crc n img (s\<lparr>reloc_buffer := b\<rparr>) = fs_rel crc n img s"
  "fs_rel crc n img (s\<lparr>reloc_fd := d\<rparr>) = fs_rel crc n img s"
  "fs_rel crc n img (s\<lparr>reloc_sector := k\<rparr>) = fs_rel crc n img s"
  "fs_rel crc n img (s\<lparr>reloc_fd_index := i\<rparr>) = fs_rel crc n img s"
  by (simp_all add: fs_rel_def)

lemma fs_relD:
  assumes "fs_rel crc n img s"
  shows fs_rel_length: "length (Fs_fd s) = FD_MAX" and fs_rel_nfd: "nfd s \<le> FD_MAX"
    and fs_rel_address: "curr_address s = map (\<lambda>k. slot_addr (128 * k + n k)) [0..<8]"
    and fs_rel_layout: "layout img n" and fs_rel_ring: "ring n (cur s)"
    and fs_rel_curr: "cur s < 8"
  using assms by (simp_all add: fs_rel_def ring_def)

lemma fs_rel_fd: "fs_rel crc n img s \<Longrightarrow> i < nfd s \<Longrightarrow> fd_ok crc img (Fs_fd s ! i)"
  by (simp add: fs_rel_def)

lemma fs_rel_key_inj:
  "fs_rel crc n img s \<Longrightarrow> i < nfd s \<Longrightarrow> j < nfd s \<Longrightarrow>
   fd_key (Fs_fd s ! i) = fd_key (Fs_fd s ! j) \<Longrightarrow> i = j"
  by (simp add: fs_rel_def)

lemma fs_rel_owner:
  "fs_rel crc n img s \<Longrightarrow> valid crc (img m) \<Longrightarrow> \<exists>i < nfd s. fd_slot (Fs_fd s ! i) = m"
  by (simp add: fs_rel_def)

lemma fill_le: "layout img n \<Longrightarrow> k < 8 \<Longrightarrow> n k \<le> 128"
  by (simp add: layout_def)

section \<open>The sector macros\<close>

lemma curr_address_nth:
  assumes "fs_rel crc n img s" "k < 8"
  shows "curr_address s ! k = slot_addr (128 * k + n k)"
  using assms by (simp add: fs_rel_address)

lemma full_iff:
  assumes "fs_rel crc n img s" "k < 8"
  shows "SECTOR_IS_FULL s k \<longleftrightarrow> n k = 128"
proof -
  have "n k \<le> 128" using assms fill_le fs_rel_layout by blast
  moreover have "Sector_base ! k + FILESYSTEM_SECTOR_SIZE = slot_addr (128 * k + 128)"
    using assms(2) by (simp only: Sector_base_slot slot_addr_sector)
  ultimately show ?thesis
    using assms unfolding SECTOR_IS_FULL_def
    by (simp only: curr_address_nth) (auto simp: slot_addr_le)
qed

lemma blank_iff:
  assumes "fs_rel crc n img s" "k < 8"
  shows "SECTOR_IS_BLANK s k \<longleftrightarrow> n k = 0"
proof -
  have "n k \<le> 128" using assms fill_le fs_rel_layout by blast
  then show ?thesis
    using assms by (simp add: SECTOR_IS_BLANK_def curr_address_nth Sector_base_slot slot_addr_inject)
qed

lemma curr_full_iff: "fs_rel crc n img s \<Longrightarrow> curr_full s \<longleftrightarrow> n (cur s) = 128"
  by (simp add: curr_full_def full_iff fs_rel_curr)

section \<open>Descriptors and variables\<close>

lemma fd_ok_live: "fd_ok crc img d \<Longrightarrow> live crc img (fd_key d) (fd_slot d)"
  by (simp add: fd_ok_def live_def key_of_def)

lemma live_fd:
  assumes "fs_rel crc n img s"
  shows "live crc img key m \<longleftrightarrow> (\<exists>i < nfd s. fd_key (Fs_fd s ! i) = key \<and> fd_slot (Fs_fd s ! i) = m)"
proof
  assume l: "live crc img key m"
  then obtain i where i: "i < nfd s" "fd_slot (Fs_fd s ! i) = m"
    using fs_rel_owner [OF assms] by (auto simp: live_def)
  with l show "\<exists>i < nfd s. fd_key (Fs_fd s ! i) = key \<and> fd_slot (Fs_fd s ! i) = m"
    using fd_ok_live [OF fs_rel_fd [OF assms i(1)]] by (auto simp: live_def)
next
  assume "\<exists>i < nfd s. fd_key (Fs_fd s ! i) = key \<and> fd_slot (Fs_fd s ! i) = m"
  then show "live crc img key m"
    using fd_ok_live fs_rel_fd [OF assms] by blast
qed

lemma fs_rel_unique: "fs_rel crc n img s \<Longrightarrow> unique crc img"
  by (rule uniqueI) (auto simp: live_fd dest: fs_rel_key_inj)

lemma fs_rel_slot_inj:
  assumes "fs_rel crc n img s" "i < nfd s" "j < nfd s" "fd_slot (Fs_fd s ! i) = fd_slot (Fs_fd s ! j)"
  shows "i = j"
  using assms fd_ok_live fs_rel_fd fs_rel_key_inj unfolding live_def by metis

lemma vars_fd:
  assumes "fs_rel crc n img s" "i < nfd s"
  shows "flash_vars crc img (fd_key (Fs_fd s ! i)) = Some (data_of (img (fd_slot (Fs_fd s ! i))))"
  using fs_rel_fd [OF assms] by (intro flash_vars_unique fs_rel_unique [OF assms(1)])
    (auto simp: fd_ok_def live_def key_of_def)

lemma vars_None_iff:
  assumes "fs_rel crc n img s"
  shows "flash_vars crc img key = None \<longleftrightarrow> (\<forall>i < nfd s. fd_key (Fs_fd s ! i) \<noteq> key)"
  using fs_rel_fd [OF assms] by (auto simp: flash_vars_None live_fd [OF assms] fd_ok_def)

lemma dom_vars:
  assumes "fs_rel crc n img s"
  shows "dom (flash_vars crc img) = (\<lambda>i. fd_key (Fs_fd s ! i)) ` {..<nfd s}"
  using vars_None_iff [OF assms] by (auto simp: dom_def)

lemma card_vars:
  assumes "fs_rel crc n img s"
  shows "card (dom (flash_vars crc img)) = nfd s"
proof -
  have "inj_on (\<lambda>i. fd_key (Fs_fd s ! i)) {..<nfd s}"
    using fs_rel_key_inj [OF assms] by (auto intro: inj_onI)
  then show ?thesis by (simp add: dom_vars [OF assms] card_image)
qed

lemma finite_dom_vars: "finite (dom (flash_vars crc img))"
proof -
  have "dom (flash_vars crc img) \<subseteq> (\<lambda>m. key_of (img m)) ` {..<1024}"
  proof
    fix key assume "key \<in> dom (flash_vars crc img)"
    then have "flash_vars crc img key \<noteq> None" by auto
    then obtain m where "m < 1024" "live crc img key m"
      by (auto simp: flash_vars_None)
    then show "key \<in> (\<lambda>m. key_of (img m)) ` {..<1024}" by (auto simp: live_def)
  qed
  then show ?thesis by (rule finite_subset) simp
qed

lemma fs_rel_image_ok: "fs_rel crc n img s \<Longrightarrow> image_ok crc img"
  using card_vars [of crc n img s] fs_relD [of crc n img s] unique_pairs [OF fs_rel_unique]
  by (auto simp: image_ok_def)

section \<open>The search of the index\<close>

lemma fd_search_spec:
  "i \<le> n \<Longrightarrow> i \<le> fd_search fds name ext i n \<and> fd_search fds name ext i n \<le> n \<and>
   (\<forall>j. i \<le> j \<longrightarrow> j < fd_search fds name ext i n \<longrightarrow>
      \<not> (h_name (fd_header (fds ! j)) = name \<and> ucast (h_ext (fd_header (fds ! j))) = ext)) \<and>
   (fd_search fds name ext i n < n \<longrightarrow>
      h_name (fd_header (fds ! fd_search fds name ext i n)) = name \<and>
      ucast (h_ext (fd_header (fds ! fd_search fds name ext i n))) = ext)"
proof (induction fds name ext i n rule: fd_search.induct)
  case (1 fds name ext i n)
  show ?case
  proof (cases "i < n \<and> \<not> (h_name (fd_header (fds ! i)) = name \<and> ucast (h_ext (fd_header (fds ! i))) = ext)")
    case True
    with 1 have "fd_search fds name ext i n = fd_search fds name ext (Suc i) n"
      by (subst fd_search.simps) auto
    with 1 True show ?thesis
      by (auto simp: Suc_le_eq) (metis le_neq_implies_less Suc_leI)+
  next
    case False
    then have "fd_search fds name ext i n = i"
      by (subst fd_search.simps) auto
    with False 1 show ?thesis by auto
  qed
qed

lemma ext_inject: "(ucast (e :: 3 word) :: u8) = ucast e' \<longleftrightarrow> e = e'"
proof
  assume "(ucast e :: u8) = ucast e'"
  then have "(ucast (ucast e :: u8) :: 3 word) = ucast (ucast e' :: u8)" by simp
  moreover have "(ucast (ucast x :: u8) :: 3 word) = x" for x :: "3 word"
    by (rule bit_word_eqI) (auto simp: bit_simps dest: bit_imp_le_length)
  ultimately show "e = e'" by simp
qed simp

lemma fd_match_key:
  "h_name (fd_header d) = h_name h \<and> (ucast (h_ext (fd_header d)) :: u8) = ucast (h_ext h)
   \<longleftrightarrow> fd_key d = hdr_key h"
  by (auto simp: hdr_key_def ext_inject)

text \<open>The two outcomes of a search for the variable of header \<open>h\<close>.\<close>

lemma fd_search_cases:
  assumes "i = fd_search fds (h_name h) (ucast (h_ext h)) 0 n"
  obtains (found) "i < n" "fd_key (fds ! i) = hdr_key h"
    | (absent) "i = n" "\<forall>j < n. fd_key (fds ! j) \<noteq> hdr_key h"
proof (cases "i < n")
  case True
  then have "fd_key (fds ! i) = hdr_key h"
    using fd_search_spec [of 0 n fds "h_name h" "ucast (h_ext h)"] assms
    by (simp add: fd_match_key)
  with True found show thesis by blast
next
  case False
  then have "i = n"
    using fd_search_spec [of 0 n fds "h_name h" "ucast (h_ext h)"] assms by auto
  moreover from this have "\<forall>j < n. fd_key (fds ! j) \<noteq> hdr_key h"
    using fd_search_spec [of 0 n fds "h_name h" "ucast (h_ext h)"] assms
    by (simp add: fd_match_key)
  ultimately show thesis using absent by blast
qed

end
