(* ===== verification/Journal.thy ===== *)
theory Journal
  imports Hal
begin

text \<open>
  A device that records itself: its state is the present state of the underlying device and
  the list of the states before each write and erase, newest first. A power cut leaves the
  device in one of these states (writes and erases are taken as atomic). The journal obeys the
  laws of \<open>flash_device\<close> with any set of admissible images, provided the client keeps to it,
  and remembers that every recorded image is admissible.
\<close>

type_synonym 'w journal = "'w \<times> 'w list"

definition lift_step :: "('w \<Rightarrow> 'r \<times> 'w) \<Rightarrow> 'w journal \<Rightarrow> 'r \<times> 'w journal" where
  "lift_step f j = (let (r, w) = f (fst j) in (r, (w, snd j)))"

definition record_step :: "('w \<Rightarrow> 'w) \<Rightarrow> 'w journal \<Rightarrow> 'w journal" where
  "record_step f j = (f (fst j), fst j # snd j)"

definition journal_hal :: "'w hal \<Rightarrow> 'w journal hal" where
  "journal_hal H = \<lparr>
     flash_ready = lift_step (flash_ready H),
     flash_read = (\<lambda>a b. lift_step (flash_read H a b)),
     flash_write = (\<lambda>a bs. record_step (flash_write H a bs)),
     flash_erase = (\<lambda>a. record_step (flash_erase H a)),
     timer_nopsleep = (\<lambda>n j. (timer_nopsleep H n (fst j), snd j)),
     timer_set = (\<lambda>t n. lift_step (timer_set H t n)),
     timer_restart = (\<lambda>t. lift_step (timer_restart H t)),
     timer_expired = (\<lambda>t. lift_step (timer_expired H t)),
     crc32_calc = crc32_calc H \<rparr>"

lemma journal_hal_sel [simp]:
  "flash_ready (journal_hal H) = lift_step (flash_ready H)"
  "flash_read (journal_hal H) a b = lift_step (flash_read H a b)"
  "flash_write (journal_hal H) a bs = record_step (flash_write H a bs)"
  "flash_erase (journal_hal H) a = record_step (flash_erase H a)"
  "timer_nopsleep (journal_hal H) n j = (timer_nopsleep H n (fst j), snd j)"
  "timer_set (journal_hal H) t m = lift_step (timer_set H t m)"
  "timer_restart (journal_hal H) t = lift_step (timer_restart H t)"
  "timer_expired (journal_hal H) t = lift_step (timer_expired H t)"
  "crc32_calc (journal_hal H) = crc32_calc H"
  by (simp_all add: journal_hal_def)

text \<open>The states a power cut can leave.\<close>

definition journal_states :: "'w journal \<Rightarrow> 'w set" where
  "journal_states j = insert (fst j) (set (snd j))"

definition journal_content :: "('w \<Rightarrow> image) \<Rightarrow> 'w journal \<Rightarrow> image" where
  "journal_content content j = content (fst j)"

definition journal_ok ::
    "('w \<Rightarrow> image) \<Rightarrow> ('w \<Rightarrow> bool) \<Rightarrow> (image \<Rightarrow> bool) \<Rightarrow> 'w journal \<Rightarrow> bool" where
  "journal_ok content ok adm j \<longleftrightarrow> (\<forall>w \<in> journal_states j. ok w \<and> adm (content w))"

text \<open>The busy wait records nothing.\<close>

lemma journal_wait:
  assumes "flash_wait H w = Some w'"
  shows "flash_wait (journal_hal H) (w, past) = Some (w', past)"
proof (rule flash_wait.raw_induct
    [where P = "\<lambda>H w w'. flash_wait (journal_hal H) (w, past) = Some (w', past)", OF _ assms], goal_cases)
  case (1 f H w w')
  show ?case
  proof (cases "fst (flash_ready H w) = 1")
    case True
    then have "w' = snd (flash_ready H w)" using 1(2) by (simp add: Let_def split_beta)
    then show ?thesis
      using True by (subst flash_wait.simps) (simp add: lift_step_def Let_def split_beta)
  next
    case False
    then have "f H (timer_nopsleep H 100 (snd (flash_ready H w))) = Some w'"
      using 1(2) by (simp add: Let_def split_beta)
    then have "flash_wait (journal_hal H) (timer_nopsleep H 100 (snd (flash_ready H w)), past) = Some (w', past)"
      by (rule 1(1))
    then show ?thesis
      using False by (subst flash_wait.simps) (simp add: lift_step_def Let_def split_beta)
  qed
qed

locale plain_device = flash_device H content ok "\<lambda>_. True"
  for H :: "'w hal" and content :: "'w \<Rightarrow> image" and ok :: "'w \<Rightarrow> bool"

sublocale plain_device \<subseteq> journal: flash_device "journal_hal H" "journal_content content"
    "journal_ok content ok adm" adm
  for adm
proof (unfold_locales, goal_cases)
  case (1 j m)
  then show ?case using content_length by (simp add: journal_ok_def journal_states_def journal_content_def)
next
  case (2 j m)
  then show ?case using content_outside by (simp add: journal_ok_def journal_states_def journal_content_def)
next
  case (3 j)
  obtain w past where j: "j = (w, past)" by (cases j)
  obtain w' where "flash_wait H w = Some w'" "ok w'" "content w' = content w"
    using wait_returns [of w] 3 j by (auto simp: journal_ok_def journal_states_def)
  then show ?case
    using 3 journal_wait [of H w w' past] j
    by (auto simp: journal_ok_def journal_states_def journal_content_def)
next
  case (4 j)
  then show ?case using ready_keeps [of "fst j"]
    by (auto simp: journal_ok_def journal_states_def journal_content_def lift_step_def Let_def split_beta)
next
  case (5 j m buf)
  then obtain w' where "flash_read H (slot_addr m) buf (fst j) = (content (fst j) m, w')" "ok w'"
      "content w' = content (fst j)"
    using read_slot [of "fst j" m buf] by (auto simp: journal_ok_def journal_states_def)
  then show ?case
    using 5 by (auto simp: journal_ok_def journal_states_def journal_content_def lift_step_def)
next
  case (6 j m bs)
  then show ?case using write_slot [of "fst j" m bs]
    by (auto simp: journal_ok_def journal_states_def journal_content_def record_step_def)
next
  case (7 j k)
  then show ?case using erase_slot [of "fst j" k]
    by (auto simp: journal_ok_def journal_states_def journal_content_def record_step_def)
next
  case (8 j t n)
  then show ?case using timer_set_keeps [of "fst j" t n]
    by (auto simp: journal_ok_def journal_states_def journal_content_def lift_step_def Let_def split_beta)
next
  case (9 j t)
  then show ?case using timer_restart_keeps [of "fst j" t]
    by (auto simp: journal_ok_def journal_states_def journal_content_def lift_step_def Let_def split_beta)
next
  case (10 j t)
  then show ?case using timer_expired_keeps [of "fst j" t]
    by (auto simp: journal_ok_def journal_states_def journal_content_def lift_step_def Let_def split_beta)
qed

end
