(* ===== verification/FlashMock.thy ===== *)
theory FlashMock
  imports Journal
begin

text \<open>
  The device of \<open>ll_mock/\<close>: class \<open>FlashMock\<close> (\<open>FlashMock.cc\<close>, \<open>FlashMock.h\<close>),
  which keeps, per sector, a vector of written chunks, the C wrappers of \<open>flash.cc\<close>, and
  the stubs \<open>crc32.c\<close> and \<open>timer.c\<close>. The interpretation at the end shows that the
  mock is a NOR flash at block granularity.
\<close>

section \<open>State\<close>

text \<open>
  The three counters are statistics that nothing modelled here reads back; they are unbounded,
  where the \<open>int\<close> of \<open>FlashMock.h\<close> would overflow after \<open>2^31\<close> operations.
\<close>

record flash_chunk =
  c_address :: u32
  c_buffer :: bytes

record FlashMock =
  read_count :: int
  write_count :: int
  erase_count :: int
  flash :: "flash_chunk list list"

definition FLASHMOCK_NUMSECTORS :: nat where [simp]: "FLASHMOCK_NUMSECTORS = 8"
definition FLASHMOCK_FIRSTSECTOR_ADDRESS :: u32 where [simp]: "FLASHMOCK_FIRSTSECTOR_ADDRESS = 0x0F4000"
definition FLASHMOCK_SECTOR_SIZE :: u32 where [simp]: "FLASHMOCK_SECTOR_SIZE = 0x1000"
definition FLASHMOCK_CHUNK_MAX :: nat where [simp]: "FLASHMOCK_CHUNK_MAX = 256"
definition FLASHMOCK_BUFFER_CHUNK_MAX :: nat where [simp]: "FLASHMOCK_BUFFER_CHUNK_MAX = 256"

definition FlashMock_new :: FlashMock where
  "FlashMock_new = \<lparr>read_count = 0, write_count = 0, erase_count = 0,
     flash = replicate FLASHMOCK_NUMSECTORS []\<rparr>"

section \<open>Operations\<close>

definition address_to_sector :: "u32 \<Rightarrow> nat option" where
  "address_to_sector address =
     (let address = address - FLASHMOCK_FIRSTSECTOR_ADDRESS;
          l_sector = unat (address div FLASHMOCK_SECTOR_SIZE)
      in if l_sector \<ge> FLASHMOCK_NUMSECTORS then None else Some l_sector)"

definition FlashMock_read :: "u32 \<Rightarrow> bytes \<Rightarrow> FlashMock \<Rightarrow> bytes \<times> FlashMock" where
  "FlashMock_read address buffer fm =
     (case address_to_sector address of
        None \<Rightarrow> (buffer, fm)
      | Some sector \<Rightarrow>
          let fm = fm\<lparr>read_count := read_count fm + 1\<rparr>
          in case find (\<lambda>chunk. c_address chunk = address) (flash fm ! sector) of
               Some chunk \<Rightarrow>
                 (map (\<lambda>i. if i < length (c_buffer chunk) then c_buffer chunk ! i else 0xFF)
                    [0..<length buffer], fm)
             | None \<Rightarrow> (replicate (length buffer) 0xFF, fm))"

text \<open>The loop over a reused chunk: written offsets can only lose bits, new ones are appended.\<close>

fun chunk_and :: "bytes \<Rightarrow> bytes \<Rightarrow> bytes" where
  "chunk_and (o1 # os) (n1 # ns) = (o1 AND n1) # chunk_and os ns"
| "chunk_and os [] = os"
| "chunk_and [] ns = ns"

fun chunk_write :: "u32 \<Rightarrow> bytes \<Rightarrow> flash_chunk list \<Rightarrow> flash_chunk list" where
  "chunk_write address bs [] = [\<lparr>c_address = address, c_buffer = bs\<rparr>]"
| "chunk_write address bs (chunk # chunks) =
     (if c_address chunk = address
      then chunk\<lparr>c_buffer := chunk_and (c_buffer chunk) bs\<rparr> # chunks
      else chunk # chunk_write address bs chunks)"

definition FlashMock_write :: "u32 \<Rightarrow> bytes \<Rightarrow> FlashMock \<Rightarrow> FlashMock" where
  "FlashMock_write address bs fm =
     (if length bs > FLASHMOCK_BUFFER_CHUNK_MAX then fm
      else case address_to_sector address of
        None \<Rightarrow> fm
      | Some sector \<Rightarrow>
          if length (flash fm ! sector) > FLASHMOCK_CHUNK_MAX then fm
          else fm\<lparr>write_count := write_count fm + 1,
                 flash := (flash fm)[sector := chunk_write address bs (flash fm ! sector)]\<rparr>)"

definition FlashMock_erase :: "u32 \<Rightarrow> FlashMock \<Rightarrow> FlashMock" where
  "FlashMock_erase sector_address fm =
     (case address_to_sector sector_address of
        None \<Rightarrow> fm
      | Some sector \<Rightarrow> fm\<lparr>flash := (flash fm)[sector := []], erase_count := erase_count fm + 1\<rparr>)"

section \<open>The mocked board\<close>

definition crc32_calc_stub :: "bytes \<Rightarrow> u32" where
  "crc32_calc_stub buffer = 0"

text \<open>The timer stubs: no timer ever runs, and every timer has expired.\<close>

definition timer_nopsleep_stub :: "int \<Rightarrow> FlashMock \<Rightarrow> FlashMock" where [simp]:
  "timer_nopsleep_stub number_of_nops w = w"

definition timer_set_stub :: "timer \<Rightarrow> u32 \<Rightarrow> FlashMock \<Rightarrow> timer \<times> FlashMock" where [simp]:
  "timer_set_stub t seconds w = (t, w)"

definition timer_restart_stub :: "timer \<Rightarrow> FlashMock \<Rightarrow> timer \<times> FlashMock" where [simp]:
  "timer_restart_stub t w = (t, w)"

definition timer_expired_stub :: "timer \<Rightarrow> FlashMock \<Rightarrow> int \<times> FlashMock" where [simp]:
  "timer_expired_stub t w = (1, w)"

text \<open>
  The board: the mock's flash behind \<open>flash.cc\<close>, always ready, the timer stubs, and a CRC
  routine of the user's choice, the repository's stub among them.
\<close>

definition mock_hal :: "(bytes \<Rightarrow> u32) \<Rightarrow> FlashMock hal" where
  "mock_hal crc = \<lparr>
     flash_ready = (\<lambda>w. (1, w)),
     flash_read = FlashMock_read,
     flash_write = FlashMock_write,
     flash_erase = FlashMock_erase,
     timer_nopsleep = timer_nopsleep_stub,
     timer_set = timer_set_stub,
     timer_restart = timer_restart_stub,
     timer_expired = timer_expired_stub,
     crc32_calc = crc \<rparr>"

section \<open>Addresses\<close>

lemma address_to_sector_range:
  "address_to_sector a = Some k \<longleftrightarrow>
     k < 8 \<and> 0xF4000 + 0x1000 * k \<le> unat a \<and> unat a < 0xF4000 + 0x1000 * (k + 1)"
proof -
  have u: "unat (a - 0xF4000) = (if 0xF4000 \<le> unat a then unat a - 0xF4000
      else unat a + 2 ^ 32 - 0xF4000)"
    by (simp add: unat_sub_if' word_le_nat_alt)
  have lt: "unat a < 2 ^ 32"
    using unsigned_less [of a, where ?'a = nat] by simp
  show ?thesis
    unfolding address_to_sector_def Let_def
    using lt by (auto simp: unat_div u split: if_splits)
qed

lemma address_to_sector_slot: "m < 1024 \<Longrightarrow> address_to_sector (slot_addr m) = Some (m div 128)"
  by (simp add: address_to_sector_range unat_slot_addr) linarith

section \<open>The mock as a flash image\<close>

definition mock_sector :: "flash_chunk list \<Rightarrow> nat \<Rightarrow> bytes" where
  "mock_sector chunks m =
     (case find (\<lambda>chunk. c_address chunk = slot_addr m) chunks of
        Some chunk \<Rightarrow> take 32 (c_buffer chunk @ blank_block)
      | None \<Rightarrow> blank_block)"

definition mock_content :: "FlashMock \<Rightarrow> image" where
  "mock_content fm m =
     (if m < 1024 then mock_sector (flash fm ! (m div 128)) m else blank_block)"

text \<open>
  The mock's invariant when it is only written at block addresses: the chunks of a sector
  have distinct addresses, of blocks of that sector, and hold at most 32 bytes.
\<close>

definition chunks_ok :: "nat \<Rightarrow> flash_chunk list \<Rightarrow> bool" where
  "chunks_ok k chunks \<longleftrightarrow> distinct (map c_address chunks) \<and>
     (\<forall>chunk \<in> set chunks. (\<exists>m. m < 1024 \<and> m div 128 = k \<and> c_address chunk = slot_addr m) \<and>
        length (c_buffer chunk) \<le> 32)"

definition mock_ok :: "FlashMock \<Rightarrow> bool" where
  "mock_ok fm \<longleftrightarrow> length (flash fm) = 8 \<and> (\<forall>k < 8. chunks_ok k (flash fm ! k))"

lemma chunk_and_length [simp]: "length (chunk_and os ns) = max (length os) (length ns)"
  by (induction os ns rule: chunk_and.induct) auto

lemma chunk_and_program:
  "length ns \<le> n \<Longrightarrow> length os \<le> n \<Longrightarrow>
   program_bytes (take n (os @ replicate n 0xFF)) ns = take n (chunk_and os ns @ replicate n 0xFF)"
proof (induction os ns arbitrary: n rule: chunk_and.induct)
  case (1 o1 os n1 ns)
  then obtain k where k: "n = Suc k" by (cases n) auto
  have "take k (os @ replicate (Suc k) (0xFF :: u8)) = take k (os @ replicate k 0xFF)"
      "take k (chunk_and os ns @ replicate (Suc k) (0xFF :: u8)) = take k (chunk_and os ns @ replicate k 0xFF)"
    by (simp_all add: min_def del: replicate_Suc)
  then show ?case using 1 k by (simp del: replicate_Suc)
next
  case (2 os)
  then show ?case by (cases "take n (os @ replicate n (0xFF :: u8))") auto
next
  case (3 v va)
  have pad: "take n (xs @ replicate n (0xFF :: u8)) = xs @ replicate (n - length xs) 0xFF"
    if "length xs \<le> n" for xs
    using that by simp
  from 3 show ?case
    by (simp only: chunk_and.simps append_Nil pad program_replicate take_replicate min.idem)
qed

lemma find_chunk_write:
  "find (\<lambda>c. c_address c = b) (chunk_write a bs chunks) =
    (if a = b then Some (case find (\<lambda>c. c_address c = a) chunks of
          None \<Rightarrow> \<lparr>c_address = a, c_buffer = bs\<rparr>
        | Some c \<Rightarrow> c\<lparr>c_buffer := chunk_and (c_buffer c) bs\<rparr>)
     else find (\<lambda>c. c_address c = b) chunks)"
  by (induction chunks) auto

lemma mock_sector_write:
  assumes "length bs \<le> 32" "m < 1024" "m' < 1024"
    and "\<forall>chunk \<in> set chunks. length (c_buffer chunk) \<le> 32"
  shows "mock_sector (chunk_write (slot_addr m) bs chunks) m' =
    (if m' = m then program_bytes (mock_sector chunks m) bs else mock_sector chunks m')"
proof (cases "m' = m")
  case True
  show ?thesis
  proof (cases "find (\<lambda>c. c_address c = slot_addr m) chunks")
    case None
    with True assms(1) show ?thesis
      by (simp add: mock_sector_def find_chunk_write program_replicate blank_block_def min_def)
  next
    case (Some c)
    then have "length (c_buffer c) \<le> 32"
      using assms(4) by (auto simp: find_Some_iff)
    with True Some assms(1) show ?thesis
      using chunk_and_program [of bs 32 "c_buffer c"]
      by (simp add: mock_sector_def find_chunk_write blank_block_def)
  qed
next
  case False
  with assms(2,3) have "slot_addr m \<noteq> slot_addr m'"
    by (simp add: slot_addr_inject)
  with False show ?thesis by (simp add: mock_sector_def find_chunk_write)
qed

lemma set_chunk_write:
  "set (chunk_write a bs chunks) \<subseteq> set chunks \<union>
     {\<lparr>c_address = a, c_buffer = bs\<rparr>} \<union>
     {c\<lparr>c_buffer := chunk_and (c_buffer c) bs\<rparr> | c. c \<in> set chunks \<and> c_address c = a}"
  by (induction chunks) auto

lemma addresses_chunk_write:
  "map c_address (chunk_write a bs chunks) =
     (if a \<in> c_address ` set chunks then map c_address chunks else map c_address chunks @ [a])"
  by (induction chunks) auto

lemma chunks_ok_write:
  assumes "chunks_ok k chunks" "length bs \<le> 32" "m < 1024" "m div 128 = k"
  shows "chunks_ok k (chunk_write (slot_addr m) bs chunks)"
proof -
  have "distinct (map c_address (chunk_write (slot_addr m) bs chunks))"
    using assms(1) by (auto simp: chunks_ok_def addresses_chunk_write)
  moreover have "(\<exists>m. m < 1024 \<and> m div 128 = k \<and> c_address c = slot_addr m) \<and> length (c_buffer c) \<le> 32"
    if "c \<in> set (chunk_write (slot_addr m) bs chunks)" for c
    using that set_chunk_write [of "slot_addr m" bs chunks] assms
    by (fastforce simp: chunks_ok_def)
  ultimately show ?thesis by (auto simp: chunks_ok_def)
qed

lemma chunks_ok_length:
  assumes "chunks_ok k chunks" "k < 8"
  shows "length chunks \<le> 128"
proof -
  have "c_address ` set chunks \<subseteq> slot_addr ` {128 * k ..< 128 * k + 128}"
  proof
    fix a assume "a \<in> c_address ` set chunks"
    then obtain m where m: "m < 1024" "m div 128 = k" "a = slot_addr m"
      using assms(1) by (auto simp: chunks_ok_def)
    then have "m \<in> {128 * k ..< 128 * k + 128}" by (auto simp: div_nat_eqI)
    with m(3) show "a \<in> slot_addr ` {128 * k ..< 128 * k + 128}" by blast
  qed
  then have "card (c_address ` set chunks) \<le> card (slot_addr ` {128 * k ..< 128 * k + 128})"
    by (intro card_mono) auto
  also have "\<dots> \<le> 128"
    using card_image_le [of "{128 * k ..< 128 * k + 128}" slot_addr] by simp
  finally have "card (set (map c_address chunks)) \<le> 128" by simp
  moreover have "distinct (map c_address chunks)"
    using assms(1) by (simp add: chunks_ok_def)
  ultimately show ?thesis
    using distinct_card by fastforce
qed

lemma mock_write:
  assumes "mock_ok fm" "m < 1024" "length bs \<le> 32"
  shows "mock_ok (FlashMock_write (slot_addr m) bs fm) \<and>
    mock_content (FlashMock_write (slot_addr m) bs fm) = program_slot m bs (mock_content fm)"
proof -
  let ?k = "m div 128"
  have k: "?k < 8" "?k < length (flash fm)"
    using assms(1,2) by (auto simp: mock_ok_def)
  have ck: "chunks_ok ?k (flash fm ! ?k)"
    using assms(1) k by (simp add: mock_ok_def)
  then have len: "length (flash fm ! ?k) \<le> 128"
    by (rule chunks_ok_length [OF _ k(1)])
  define fm' where "fm' = FlashMock_write (slot_addr m) bs fm"
  have fm': "flash fm' = (flash fm)[?k := chunk_write (slot_addr m) bs (flash fm ! ?k)]"
    using assms len by (simp add: fm'_def FlashMock_write_def address_to_sector_slot)
  have "chunks_ok j (flash fm' ! j)" if "j < 8" for j
    using that assms(1) k chunks_ok_write [OF ck assms(3,2) refl]
    by (cases "j = ?k") (simp_all add: mock_ok_def fm')
  then have "mock_ok fm'"
    using assms(1) by (simp add: mock_ok_def fm')
  moreover have "mock_content fm' m' = program_slot m bs (mock_content fm) m'" for m'
  proof (cases "m' < 1024 \<and> m' div 128 = ?k")
    case True
    then show ?thesis
      using k(2) ck mock_sector_write [OF assms(3,2), of m' "flash fm ! ?k"]
      by (simp add: mock_content_def fm' program_slot_def chunks_ok_def assms(2))
  next
    case False
    then show ?thesis
      using assms(2) by (auto simp: mock_content_def fm' program_slot_def)
  qed
  ultimately show ?thesis
    by (auto simp: fm'_def)
qed

lemma mock_read:
  assumes "mock_ok fm" "m < 1024" "length buf = 32"
  shows "FlashMock_read (slot_addr m) buf fm
    = (mock_content fm m, fm\<lparr>read_count := read_count fm + 1\<rparr>)"
proof -
  have k: "m div 128 < 8" using assms(2) by auto
  have "map (\<lambda>i. if i < length b then b ! i else 0xFF) [0..<32] = take 32 (b @ blank_block)"
    if "length b \<le> 32" for b :: bytes
    using that by (intro nth_equalityI) (auto simp: nth_append blank_block_def)
  moreover have "length (c_buffer c) \<le> 32"
    if "find (\<lambda>c. c_address c = slot_addr m) (flash fm ! (m div 128)) = Some c" for c
    using that assms(1) k by (auto simp: mock_ok_def chunks_ok_def find_Some_iff)
  ultimately show ?thesis
    using assms by (auto simp: FlashMock_read_def address_to_sector_slot mock_content_def
        mock_sector_def blank_block_def split: option.split)
qed

lemma mock_erase:
  assumes "mock_ok fm" "k < 8"
  shows "mock_ok (FlashMock_erase (slot_addr (128 * k)) fm) \<and>
    mock_content (FlashMock_erase (slot_addr (128 * k)) fm) = erase_sector k (mock_content fm)"
proof -
  have "address_to_sector (slot_addr (128 * k)) = Some k"
    using assms(2) by (simp add: address_to_sector_slot)
  moreover have "mock_sector [] m = blank_block" for m
    by (simp add: mock_sector_def)
  ultimately show ?thesis
    using assms by (auto simp: FlashMock_erase_def mock_ok_def nth_list_update chunks_ok_def
        mock_content_def fun_eq_iff)
qed

interpretation mock: plain_device "mock_hal crc" mock_content mock_ok
  for crc
proof (unfold_locales, goal_cases)
  case (1 w m)
  have "length (mock_sector cs m) = 32" for cs
    by (auto simp: mock_sector_def split: option.split)
  then show ?case by (simp add: mock_content_def)
next
  case (2 w m)
  then show ?case by (simp add: mock_content_def)
next
  case (3 w)
  then show ?case by (subst flash_wait.simps) (simp add: mock_hal_def)
next
  case (5 w m buf)
  then show ?case by (simp add: mock_hal_def mock_read) (simp add: mock_ok_def mock_content_def fun_eq_iff)
next
  case (6 w m bs)
  then show ?case by (simp add: mock_hal_def mock_write)
next
  case (7 w k)
  then show ?case by (simp add: mock_hal_def mock_erase)
qed (simp_all add: mock_hal_def)

section \<open>Properties\<close>

text \<open>
  C22. \<open>address_to_sector\<close> maps an address to sector \<open>k\<close> exactly when it lies in that
  4 KiB sector of the eight; every other address, below the first sector included (where the
  unsigned subtraction wraps), is rejected.
\<close>

theorem address_to_sector_exact:
  "address_to_sector a =
     (if 0xF4000 \<le> unat a \<and> unat a < 0xFC000 then Some ((unat a - 0xF4000) div 0x1000) else None)"
proof (cases "0xF4000 \<le> unat a \<and> unat a < 0xFC000")
  case True
  let ?k = "(unat a - 0xF4000) div 0x1000"
  have "?k < 8" "0xF4000 + 0x1000 * ?k \<le> unat a" "unat a < 0xF4000 + 0x1000 * (?k + 1)"
    using True by auto
  then show ?thesis using True by (simp add: address_to_sector_range)
next
  case False
  have "address_to_sector a \<noteq> Some k" for k
    unfolding address_to_sector_range using False by auto
  then show ?thesis using False by (cases "address_to_sector a") auto
qed

text \<open>
  C20. The mock behaves as a NOR flash at block granularity. After a write of at most 32 bytes to a
  block, a read of that block returns its old bytes with the written bits cleared, and a read of
  any other block returns what it did before.
\<close>

theorem FlashMock_write_read:
  assumes "mock_ok fm" "m < 1024" "m' < 1024" "length bs \<le> 32" "length buf = 32"
  shows "fst (FlashMock_read (slot_addr m') buf (FlashMock_write (slot_addr m) bs fm)) =
    (if m' = m then program_bytes (fst (FlashMock_read (slot_addr m) buf fm)) bs
     else fst (FlashMock_read (slot_addr m') buf fm))"
  using mock_write [OF assms(1,2,4)] assms by (simp add: mock_read program_slot_def)

theorem FlashMock_write_read_witness:
  "fst (FlashMock_read (slot_addr 3) (replicate 32 0)
      (FlashMock_write (slot_addr 3) [0x0F] (FlashMock_write (slot_addr 3) [0x3C] FlashMock_new)))
    = 0x0C # replicate 31 0xFF"
proof -
  have new: "mock_ok FlashMock_new" by (simp add: mock_ok_def FlashMock_new_def chunks_ok_def)
  then have "mock_ok (FlashMock_write (slot_addr 3) [0x3C] FlashMock_new)"
    using mock_write [of FlashMock_new 3 "[0x3C]"] by simp
  from FlashMock_write_read [OF this, of 3 3 "[0x0F]" "replicate 32 0"]
    FlashMock_write_read [OF new, of 3 3 "[0x3C]" "replicate 32 0"]
  show ?thesis using mock_read [OF new, of 3 "replicate 32 0"]
    by (simp add: mock_content_def mock_sector_def FlashMock_new_def blank_block_def)
      (simp add: numeral_eq_Suc)
qed

text \<open>
  C21. After an erase every block of the sector reads blank and every other block reads as it did.
\<close>

theorem FlashMock_erase_read:
  assumes "mock_ok fm" "k < 8" "m < 1024" "length buf = 32"
  shows "fst (FlashMock_read (slot_addr m) buf (FlashMock_erase (Sector_base ! k) fm)) =
    (if m div 128 = k then replicate 32 0xFF else fst (FlashMock_read (slot_addr m) buf fm))"
  using mock_erase [OF assms(1,2)] assms
  by (simp add: mock_read Sector_base_slot blank_block_def)

theorem FlashMock_erase_read_witness:
  "fst (FlashMock_read (slot_addr 130) (replicate 32 0)
      (FlashMock_erase (Sector_base ! 1) (FlashMock_write (slot_addr 130) [0] FlashMock_new)))
    = replicate 32 0xFF"
proof -
  have "mock_ok FlashMock_new" by (simp add: mock_ok_def FlashMock_new_def chunks_ok_def)
  then have "mock_ok (FlashMock_write (slot_addr 130) [0] FlashMock_new)"
    using mock_write [of FlashMock_new 130 "[0]"] by simp
  from FlashMock_erase_read [OF this, of 1 130 "replicate 32 0"] show ?thesis by simp
qed

end
