(* ===== verification/FsWrite.thy ===== *)
theory FsWrite
  imports FsInv FlashMock
begin

text \<open>
  \<open>fs_write\<close> step by step: each of its four flash writes is followed on the image, the
  invariant is restored at the end, and the image is well formed and holds either the old or
  the new variables in between.
\<close>

section \<open>What the write does to the image\<close>

text \<open>
  \<open>between v0 v1 img\<close>: a well-formed image that holds the variables \<open>v0\<close> or \<open>v1\<close>.
\<close>

definition between ::
    "(bytes \<Rightarrow> u32) \<Rightarrow> (key \<Rightarrow> bytes option) \<Rightarrow> (key \<Rightarrow> bytes option) \<Rightarrow> image \<Rightarrow> bool" where
  "between crc v0 v1 img \<longleftrightarrow> image_ok crc img \<and> (flash_vars crc img = v0 \<or> flash_vars crc img = v1)"

text \<open>Clearing \<open>newer\<close> in one descriptor and in its block keeps the invariant.\<close>

lemma fs_rel_mark_current:
  assumes rel: "fs_rel crc n img s" and i: "i < nfd s"
    and d': "d' = (Fs_fd s ! i)\<lparr>fd_header := (fd_header (Fs_fd s ! i))\<lparr>h_newer := x\<rparr>\<rparr>"
    and img': "img' = img(fd_slot d' := put_header (fd_header d') (img (fd_slot d')))"
  shows "fs_rel crc n img' (s\<lparr>Fs_fd := (Fs_fd s)[i := d']\<rparr>)"
    and "flash_vars crc img' = flash_vars crc img"
proof -
  let ?m = "fd_slot (Fs_fd s ! i)"
  have ok: "fd_ok crc img (Fs_fd s ! i)" using fs_rel_fd [OF rel i] .
  have slot: "fd_slot d' = ?m" by (simp add: d')
  have img'': "img' = img(?m := put_header ((get_header (img ?m))\<lparr>h_newer := x\<rparr>) (img ?m))"
    using ok by (simp add: img' d' fd_ok_def)
  have len: "i < length (Fs_fd s)" using i rel by (simp add: fs_rel_def)
  have valid: "valid crc (img' m) = valid crc (img m)" for m
    by (simp add: img'' hdr_simps)
  have "layout img' n"
    unfolding img''
  proof (rule layout_update)
    show "layout img n" using rel by (rule fs_rel_layout)
    show "?m < 1024" "?m mod 128 < n (?m div 128)"
      using ok valid_filled [OF fs_rel_layout [OF rel]] by (auto simp: fd_ok_def)
    show "length (put_header ((get_header (img ?m))\<lparr>h_newer := x\<rparr>) (img ?m)) = 32"
      using layout_length [OF fs_rel_layout [OF rel], of ?m] by simp
    show "\<not> hdr_blank (put_header ((get_header (img ?m))\<lparr>h_newer := x\<rparr>) (img ?m))"
      using ok valid_newer [of crc x "img ?m"] by (intro valid_not_blank [of crc]) (simp add: fd_ok_def)
  qed
  moreover have "fd_ok crc img' ((Fs_fd s)[i := d'] ! j)" if "j < nfd s" for j
  proof (cases "j = i")
    case True
    then show ?thesis
      using ok len valid_newer [of crc x "img ?m"] by (simp add: fd_ok_def slot d' img'' hdr_simps)
  next
    case False
    then have "fd_slot (Fs_fd s ! j) \<noteq> ?m" using fs_rel_slot_inj [OF rel that i] by blast
    with False show ?thesis using fs_rel_fd [OF rel that] by (simp add: fd_ok_def img'')
  qed
  moreover have "fd_key ((Fs_fd s)[i := d'] ! j) = fd_key (Fs_fd s ! j)"
      "fd_slot ((Fs_fd s)[i := d'] ! j) = fd_slot (Fs_fd s ! j)" if "j < nfd s" for j
    using len by (cases "j = i"; simp add: d' hdr_simps)+
  moreover from this have "\<exists>j < nfd s. fd_slot ((Fs_fd s)[i := d'] ! j) = m"
    if "valid crc (img' m)" for m
    using fs_rel_owner [OF rel, of m] that valid by auto
  ultimately show "fs_rel crc n img' (s\<lparr>Fs_fd := (Fs_fd s)[i := d']\<rparr>)"
    using rel unfolding fs_rel_def by simp
  show "flash_vars crc img' = flash_vars crc img"
    using unique_newer [OF fs_rel_unique [OF rel] img''] by blast
qed

text \<open>
  The new block \<open>b\<close> goes to the first blank slot of the active sector, \<open>head_slot\<close>. Index
  \<open>i\<close> is the variable's descriptor, or the first free one. \<open>append_ok\<close> is the situation
  after \<open>mark_current\<close>: there is room, the block is valid and flagged newer, and the
  variable's previous block, if any, is current.
\<close>

definition head_slot :: "(nat \<Rightarrow> nat) \<Rightarrow> 'w Fs \<Rightarrow> nat" where
  "head_slot n s = 128 * cur s + n (cur s)"

definition append_ok ::
    "(bytes \<Rightarrow> u32) \<Rightarrow> (nat \<Rightarrow> nat) \<Rightarrow> image \<Rightarrow> 'w Fs \<Rightarrow> bytes \<Rightarrow> nat \<Rightarrow> bool" where
  "append_ok crc n img s b i \<longleftrightarrow>
     fs_rel crc n img s \<and> n (cur s) < 128 \<and>
     length b = 32 \<and> valid crc b \<and> newer_of b = 1 \<and>
     (if i < nfd s then fd_key (Fs_fd s ! i) = key_of b \<and> h_newer (fd_header (Fs_fd s ! i)) = 0
      else i = nfd s \<and> nfd s < FD_MAX \<and> (\<forall>j < nfd s. fd_key (Fs_fd s ! j) \<noteq> key_of b))"

text \<open>The image after the block is written, after the former one is invalidated, at the end.\<close>

definition img_new :: "(nat \<Rightarrow> nat) \<Rightarrow> image \<Rightarrow> 'w Fs \<Rightarrow> bytes \<Rightarrow> image" where
  "img_new n img s b = img(head_slot n s := b)"

definition img_inv :: "(nat \<Rightarrow> nat) \<Rightarrow> image \<Rightarrow> 'w Fs \<Rightarrow> bytes \<Rightarrow> nat \<Rightarrow> image" where
  "img_inv n img s b i = (if i < nfd s then
     (img_new n img s b)(fd_slot (Fs_fd s ! i) :=
       put_header ((fd_header (Fs_fd s ! i))\<lparr>h_size := 0\<rparr>) (img (fd_slot (Fs_fd s ! i))))
     else img_new n img s b)"

definition img_done :: "(nat \<Rightarrow> nat) \<Rightarrow> image \<Rightarrow> 'w Fs \<Rightarrow> bytes \<Rightarrow> nat \<Rightarrow> image" where
  "img_done n img s b i =
     (img_inv n img s b i)(head_slot n s := put_header ((get_header b)\<lparr>h_newer := 0\<rparr>) b)"

definition fd_done :: "(nat \<Rightarrow> nat) \<Rightarrow> 'w Fs \<Rightarrow> bytes \<Rightarrow> st_fileDescriptor" where
  "fd_done n s b = \<lparr>fd_address = slot_addr (head_slot n s),
     fd_header = (get_header b)\<lparr>h_newer := 0\<rparr>, fd_sector = curr_sector s\<rparr>"

definition s_done :: "(nat \<Rightarrow> nat) \<Rightarrow> 'w Fs \<Rightarrow> bytes \<Rightarrow> nat \<Rightarrow> 'w Fs" where
  "s_done n s b i = s\<lparr>Fs_fd := (Fs_fd s)[i := fd_done n s b],
     curr_fd_index := (if i = nfd s then curr_fd_index s + 1 else curr_fd_index s),
     curr_address := (curr_address s)[cur s := curr_address s ! cur s + 32]\<rparr>"

lemma append_okD:
  assumes "append_ok crc n img s b i"
  shows "fs_rel crc n img s" "n (cur s) < 128" "length b = 32" "valid crc b" "newer_of b = 1"
    and "i < nfd s \<Longrightarrow> fd_key (Fs_fd s ! i) = key_of b"
    and "i < nfd s \<Longrightarrow> h_newer (fd_header (Fs_fd s ! i)) = 0"
    and "\<not> i < nfd s \<Longrightarrow> i = nfd s \<and> nfd s < FD_MAX"
    and "\<not> i < nfd s \<Longrightarrow> j < nfd s \<Longrightarrow> fd_key (Fs_fd s ! j) \<noteq> key_of b"
  using assms by (auto simp: append_ok_def split: if_splits)

lemma append_okI:
  assumes rel: "fs_rel crc n img s" "n (cur s) < 128"
    and b: "length b = 32" "valid crc b" "newer_of b = 1" "hdr_key h = key_of b"
    and i: "i = fd_search fds (h_name h) (ucast (h_ext h)) 0 (nfd s)"
    and keys: "\<And>j. fd_key (Fs_fd s ! j) = fd_key (fds ! j)"
    and curr: "i < nfd s \<longrightarrow> h_newer (fd_header (Fs_fd s ! i)) = 0"
    and free: "flash_vars crc img (key_of b) \<noteq> None \<or> nfd s < FD_MAX"
  shows "append_ok crc n img s b i"
  using i
proof (cases rule: fd_search_cases)
  case found
  then show ?thesis using rel b keys curr by (simp add: append_ok_def)
next
  case absent
  then have "flash_vars crc img (key_of b) = None" using vars_None_iff [OF rel(1)] keys b(4) by simp
  then show ?thesis using absent rel b keys free by (simp add: append_ok_def)
qed

lemma top_slot:
  assumes "append_ok crc n img s b i"
  shows "head_slot n s < 1024" "head_slot n s div 128 = cur s" "head_slot n s mod 128 = n (cur s)"
  using append_okD(1,2) [OF assms] fs_rel_curr [of crc n img s] by (auto simp: head_slot_def)

lemma top_blank:
  assumes "append_ok crc n img s b i"
  shows "img (head_slot n s) = blank_block"
  using fs_rel_layout [OF append_okD(1) [OF assms]] top_slot [OF assms] by (auto simp: layout_def)

lemma fd_not_top:
  assumes "append_ok crc n img s b i" "j < nfd s"
  shows "fd_slot (Fs_fd s ! j) \<noteq> head_slot n s"
  using fs_rel_fd [OF append_okD(1) [OF assms(1)] assms(2)] top_blank [OF assms(1)]
  by (auto simp: fd_ok_def)

lemma live_former:
  assumes "append_ok crc n img s b i"
  shows "live crc img (key_of b) m \<longleftrightarrow> i < nfd s \<and> m = fd_slot (Fs_fd s ! i)"
  using append_okD(1,6,9) [OF assms] fs_rel_key_inj [OF append_okD(1) [OF assms]]
  unfolding live_fd [OF append_okD(1) [OF assms]] by metis

lemma live_new:
  assumes "append_ok crc n img s b i"
  shows "live crc (img_new n img s b) key m \<longleftrightarrow>
    (if m = head_slot n s then key = key_of b else live crc img key m)"
  using append_okD(4) [OF assms] by (auto simp: img_new_def live_def)

lemma live_new_top:
  assumes "append_ok crc n img s b i"
  shows "live crc (img_new n img s b) (key_of b) (head_slot n s)" "newer_of (img_new n img s b (head_slot n s)) = 1"
  using append_okD(5) [OF assms] live_new [OF assms] by (simp_all add: img_new_def)

lemma live_new_former:
  assumes "append_ok crc n img s b i" "i < nfd s"
  shows "live crc (img_new n img s b) (key_of b) (fd_slot (Fs_fd s ! i))"
  using live_former [OF assms(1)] fd_not_top [OF assms] assms(2) by (simp add: live_new [OF assms(1)])

lemma new_vars:
  assumes "append_ok crc n img s b i"
  shows "pairs crc (img_new n img s b)"
    and "flash_vars crc (img_new n img s b) = (flash_vars crc img)(key_of b \<mapsto> data_of b)"
proof -
  have "newer_of (img m) = 0" if "live crc img (key_of b) m" for m
    using that live_former [OF assms, of m] append_okD(1,7) [OF assms] fs_rel_fd [of crc n img s i]
    by (auto simp: newer_of_def fd_ok_def)
  then have "pairs crc (img_new n img s b) \<and>
      flash_vars crc (img_new n img s b) = (flash_vars crc img)(key_of b \<mapsto> data_of b)"
    unfolding img_new_def
    using fs_rel_unique [OF append_okD(1)] append_okD(4,5) top_slot(1) top_blank [OF assms] assms
    by (intro append_newer) auto
  then show "pairs crc (img_new n img s b)"
      "flash_vars crc (img_new n img s b) = (flash_vars crc img)(key_of b \<mapsto> data_of b)" by auto
qed

lemma new_layout:
  assumes "append_ok crc n img s b i"
  shows "layout (img_new n img s b) (n(cur s := Suc (n (cur s))))"
    and "ring (n(cur s := Suc (n (cur s)))) (cur s)"
proof -
  have rel: "fs_rel crc n img s" using append_okD(1) [OF assms] .
  show "layout (img_new n img s b) (n(cur s := Suc (n (cur s))))"
    unfolding img_new_def head_slot_def
    using fs_rel_layout [OF rel] fs_rel_curr [OF rel] append_okD(2-4) [OF assms] valid_not_blank
    by (intro layout_append) auto
  show "ring (n(cur s := Suc (n (cur s)))) (cur s)"
    using fs_rel_ring [OF rel] by (auto simp: ring_def)
qed

lemma new_card:
  assumes "append_ok crc n img s b i"
  shows "card (dom ((flash_vars crc img)(key_of b \<mapsto> x))) \<le> FD_MAX"
proof (cases "i < nfd s")
  case True
  have rel: "fs_rel crc n img s" using append_okD(1) [OF assms] .
  have "key_of b \<in> dom (flash_vars crc img)"
    using vars_fd [OF rel True] append_okD(6) [OF assms True] by auto
  then have "dom ((flash_vars crc img)(key_of b \<mapsto> x)) = dom (flash_vars crc img)" by auto
  then show ?thesis using card_vars [OF rel] fs_rel_nfd [OF rel] by simp
next
  case False
  then show ?thesis
    using card_vars [OF append_okD(1) [OF assms]] append_okD(8) [OF assms]
    by (simp add: card_insert_if finite_dom_vars)
qed

lemma new_image_ok:
  assumes "append_ok crc n img s b i"
  shows "image_ok crc (img_new n img s b)"
  using new_vars [OF assms] new_layout [OF assms] new_card [OF assms, of "data_of b"]
  by (auto simp: image_ok_def)

lemma inv_unique:
  assumes "append_ok crc n img s b i"
  shows "unique crc (img_inv n img s b i)"
proof (cases "i < nfd s")
  case True
  have "m1 = m2" if "k \<noteq> key_of b" "live crc (img_new n img s b) k m1"
      "live crc (img_new n img s b) k m2" for k m1 m2
    using that uniqueD [OF fs_rel_unique [OF append_okD(1) [OF assms]]]
    by (auto simp: live_new [OF assms] split: if_splits)
  then show ?thesis
    unfolding img_inv_def if_P [OF True]
    using new_vars(1) [OF assms] live_new_top(1) [OF assms] live_new_former [OF assms True]
      fd_not_top [OF assms True]
    by (intro unique_invalidate_older [of crc _ "key_of b"]) (auto simp: invalid_size)
next
  case False
  then show ?thesis
    unfolding img_inv_def if_not_P [OF False]
    using uniqueD [OF fs_rel_unique [OF append_okD(1) [OF assms]]] live_former [OF assms]
    by (intro uniqueI) (auto simp: live_new [OF assms] split: if_splits)
qed

lemma inv_vars:
  assumes "append_ok crc n img s b i"
  shows "flash_vars crc (img_inv n img s b i) = (flash_vars crc img)(key_of b \<mapsto> data_of b)"
proof (cases "i < nfd s")
  case True
  show ?thesis
    unfolding img_inv_def if_P [OF True] new_vars(2) [OF assms, symmetric]
    using new_vars(1) [OF assms] live_new_top [OF assms] live_new_former [OF assms True]
      fd_not_top [OF assms True] top_slot(1) [OF assms]
    by (intro invalidate_older [of crc _ "head_slot n s" "key_of b"]) (auto simp: invalid_size)
qed (simp add: img_inv_def new_vars(2) [OF assms])

lemma inv_layout:
  assumes "append_ok crc n img s b i"
  shows "layout (img_inv n img s b i) (n(cur s := Suc (n (cur s))))"
proof (cases "i < nfd s")
  case True
  let ?m = "fd_slot (Fs_fd s ! i)"
  have rel: "fs_rel crc n img s" using append_okD(1) [OF assms] .
  have "?m < 1024" "?m mod 128 < n (?m div 128)"
    using fs_rel_fd [OF rel True] valid_filled [OF fs_rel_layout [OF rel]] by (auto simp: fd_ok_def)
  then show ?thesis
    unfolding img_inv_def if_P [OF True]
    using layout_length [OF fs_rel_layout [OF rel], of ?m]
    by (intro layout_update new_layout(1) [OF assms]) (auto simp: not_blank_size)
qed (simp add: img_inv_def new_layout [OF assms])

lemma inv_image_ok:
  assumes "append_ok crc n img s b i"
  shows "image_ok crc (img_inv n img s b i)"
  using inv_vars [OF assms] inv_layout [OF assms] new_layout(2) [OF assms]
    new_card [OF assms, of "data_of b"] unique_pairs [OF inv_unique [OF assms]]
  by (auto simp: image_ok_def)

lemma inv_top:
  assumes "append_ok crc n img s b i"
  shows "img_inv n img s b i (head_slot n s) = b"
  using fd_not_top [OF assms, of i] by (auto simp: img_inv_def img_new_def)

lemma done_vars:
  assumes "append_ok crc n img s b i"
  shows "flash_vars crc (img_done n img s b i) = (flash_vars crc img)(key_of b \<mapsto> data_of b)"
  using unique_newer [OF inv_unique [OF assms], of "img_done n img s b i" "head_slot n s" 0] inv_vars [OF assms]
  by (simp add: img_done_def inv_top [OF assms])

lemma nfd_done:
  assumes "append_ok crc n img s b i"
  shows "nfd (s_done n s b i) = (if i = nfd s then Suc (nfd s) else nfd s)"
  using append_okD(8) [OF assms] by (auto simp: s_done_def unat_word_ariths)

lemma fd_done_at:
  assumes "append_ok crc n img s b i"
  shows "i < nfd (s_done n s b i)" "Fs_fd (s_done n s b i) ! i = fd_done n s b"
    "fd_key (fd_done n s b) = key_of b" "fd_slot (fd_done n s b) = head_slot n s"
proof -
  have "i < length (Fs_fd s)"
    using fs_rel_length [OF append_okD(1) [OF assms]] fs_rel_nfd [OF append_okD(1) [OF assms]]
      append_okD(8) [OF assms] by (cases "i < nfd s") auto
  then show "Fs_fd (s_done n s b i) ! i = fd_done n s b" by (simp add: s_done_def)
  show "i < nfd (s_done n s b i)" using append_okD(8) [OF assms] by (auto simp: nfd_done [OF assms])
  show "fd_key (fd_done n s b) = key_of b" by (simp add: fd_done_def key_of_def hdr_simps)
  show "fd_slot (fd_done n s b) = head_slot n s" using top_slot(1) [OF assms] by (simp add: fd_done_def)
qed

lemma fd_done_other:
  assumes "append_ok crc n img s b i" "j \<noteq> i"
  shows "j < nfd (s_done n s b i) \<longleftrightarrow> j < nfd s" "Fs_fd (s_done n s b i) ! j = Fs_fd s ! j"
    and "j < nfd s \<Longrightarrow> fd_key (Fs_fd s ! j) \<noteq> key_of b"
    and "j < nfd s \<Longrightarrow> img_done n img s b i (fd_slot (Fs_fd s ! j)) = img (fd_slot (Fs_fd s ! j))"
proof -
  have rel: "fs_rel crc n img s" using append_okD(1) [OF assms(1)] .
  show "j < nfd (s_done n s b i) \<longleftrightarrow> j < nfd s"
    using assms(2) by (auto simp: nfd_done [OF assms(1)])
  show "Fs_fd (s_done n s b i) ! j = Fs_fd s ! j" using assms(2) by (simp add: s_done_def)
  show "fd_key (Fs_fd s ! j) \<noteq> key_of b" if "j < nfd s"
    using that append_okD(6,9) [OF assms(1)] fs_rel_key_inj [OF rel] assms(2) by metis
  show "img_done n img s b i (fd_slot (Fs_fd s ! j)) = img (fd_slot (Fs_fd s ! j))" if "j < nfd s"
    using that fd_not_top [OF assms(1) that] fs_rel_slot_inj [OF rel that, of i] assms(2)
    by (auto simp: img_done_def img_inv_def img_new_def)
qed

lemma done_valid:
  assumes "valid crc (img_done n img s b i m)" "m \<noteq> head_slot n s"
  shows "valid crc (img m) \<and> \<not> (i < nfd s \<and> m = fd_slot (Fs_fd s ! i))"
  using assms by (auto simp: img_done_def img_inv_def img_new_def invalid_size split: if_splits)

lemma done_layout:
  assumes "append_ok crc n img s b i"
  shows "layout (img_done n img s b i) (n(cur s := Suc (n (cur s))))"
  unfolding img_done_def
proof (rule layout_update [OF inv_layout [OF assms]])
  show "\<not> hdr_blank (put_header ((get_header b)\<lparr>h_newer := 0\<rparr>) b)"
    using append_okD(4) [OF assms] by (intro valid_not_blank [of crc]) (simp add: valid_newer)
qed (use top_slot [OF assms] append_okD(3) [OF assms] in simp_all)

lemma done_address:
  assumes "fs_rel crc n img s"
  shows "curr_address (s_done n s b i) =
    map (\<lambda>k. slot_addr (128 * k + (n(cur s := Suc (n (cur s)))) k)) [0..<8]"
proof (rule nth_equalityI)
  fix k assume "k < length (curr_address (s_done n s b i))"
  then have k: "k < 8" by (simp add: s_done_def fs_rel_address [OF assms])
  then show "curr_address (s_done n s b i) ! k
      = map (\<lambda>k. slot_addr (128 * k + (n(cur s := Suc (n (cur s)))) k)) [0..<8] ! k"
    using fs_rel_curr [OF assms] curr_address_nth [OF assms]
    by (cases "k = cur s") (simp_all add: s_done_def fs_rel_address [OF assms] slot_addr_next)
qed (simp add: s_done_def fs_rel_address [OF assms])

lemma done_fd_ok:
  assumes "append_ok crc n img s b i" "j < nfd (s_done n s b i)"
  shows "fd_ok crc (img_done n img s b i) (Fs_fd (s_done n s b i) ! j)"
proof (cases "j = i")
  case True
  have "fd_ok crc (img_done n img s b i) (fd_done n s b)"
    unfolding fd_ok_def fd_done_at(4) [OF assms(1)]
    using top_slot [OF assms(1)] append_okD(4) [OF assms(1)]
    by (simp add: fd_done_def img_done_def valid_newer get_put_header)
  with True show ?thesis using fd_done_at(2) [OF assms(1)] by simp
next
  case False
  then show ?thesis
    using assms(2) fd_done_other [OF assms(1) False] fs_rel_fd [OF append_okD(1) [OF assms(1)], of j]
    by (simp add: fd_ok_def)
qed

lemma done_key_inj:
  assumes "append_ok crc n img s b i" "j < nfd (s_done n s b i)" "k < nfd (s_done n s b i)"
    and "fd_key (Fs_fd (s_done n s b i) ! j) = fd_key (Fs_fd (s_done n s b i) ! k)"
  shows "j = k"
  using assms(2-4) fd_done_at(2,3) [OF assms(1)] fd_done_other [OF assms(1)]
    fs_rel_key_inj [OF append_okD(1) [OF assms(1)]]
  by (cases "j = i"; cases "k = i") metis+

lemma done_owner:
  assumes "append_ok crc n img s b i" "valid crc (img_done n img s b i m)"
  shows "\<exists>j < nfd (s_done n s b i). fd_slot (Fs_fd (s_done n s b i) ! j) = m"
proof (cases "m = head_slot n s")
  case True
  then show ?thesis using fd_done_at [OF assms(1)] by auto
next
  case False
  then obtain j where j: "j < nfd s" "fd_slot (Fs_fd s ! j) = m" "j \<noteq> i"
    using done_valid [OF assms(2)] fs_rel_owner [OF append_okD(1) [OF assms(1)], of m] by auto
  then show ?thesis using fd_done_other(1,2) [OF assms(1) j(3)] by auto
qed

lemma done_rel:
  assumes "append_ok crc n img s b i"
  shows "fs_rel crc (n(cur s := Suc (n (cur s)))) (img_done n img s b i) (s_done n s b i)"
proof -
  have rel: "fs_rel crc n img s" using append_okD(1) [OF assms] .
  have "length (Fs_fd (s_done n s b i)) = FD_MAX" "cur (s_done n s b i) = cur s"
    using fs_rel_length [OF rel] by (simp_all add: s_done_def)
  moreover have "nfd (s_done n s b i) \<le> FD_MAX"
    using append_okD(8) [OF assms] fs_rel_nfd [OF rel] by (auto simp: nfd_done [OF assms])
  ultimately show ?thesis
    unfolding fs_rel_def
    using done_address [OF rel] done_layout [OF assms] new_layout(2) [OF assms]
      done_fd_ok [OF assms] done_key_inj [OF assms] done_owner [OF assms] by simp
qed

section \<open>The write buffer\<close>

text \<open>The 28 bytes stored for a value shorter than the block: the rest is zero.\<close>

definition stored :: "bytes \<Rightarrow> u8 \<Rightarrow> bytes" where
  "stored block_data block_len =
     take (unat block_len) block_data @ replicate (28 - unat block_len) 0"

lemma fill_write_buffer_spec:
  assumes "unat block_len \<le> 28" "unat block_len \<le> length block_data"
  shows "\<exists>wb. fill_write_buffer name ext block_data (unat block_len) = Some wb \<and> length wb = 32 \<and>
    key_of wb = Key name (ucast ext) \<and> data_of wb = stored block_data block_len"
proof -
  let ?h = "(get_header (0xFF # replicate 31 0))\<lparr>h_name := name, h_ext := ucast ext\<rparr>"
  have "drop 4 (put_header ?h (0xFF # replicate 31 0)) = replicate 28 (0 :: u8)"
    by (simp add: put_header_def numeral_eq_Suc)
  moreover have "take 4 (put_header ?h (0xFF # replicate 31 0)) = header_bytes ?h"
    by (simp add: put_header_def)
  ultimately have "fill_write_buffer name ext block_data (unat block_len)
      = Some (header_bytes ?h @ stored block_data block_len)"
    using assms by (simp add: fill_write_buffer_def memcpy_def stored_def)
  moreover have "length (stored block_data block_len) = 28"
    using assms by (simp add: stored_def)
  ultimately show ?thesis
    by (simp add: key_of_def get_header_bytes data_of_def hdr_key_def)
qed

section \<open>On any flash device\<close>

text \<open>
  What \<open>fs_write\<close> leaves alone and where it puts things: the descriptor of the variable
  written is in the active sector, every other one stays where it was.
\<close>

definition written :: "key \<Rightarrow> 'w Fs \<Rightarrow> 'w Fs \<Rightarrow> bool" where
  "written key s s' \<longleftrightarrow>
     nfd s \<le> nfd s' \<and> (\<forall>j. j < nfd s \<longrightarrow> fd_key (Fs_fd s' ! j) = fd_key (Fs_fd s ! j)) \<and>
     (\<forall>j. j < nfd s' \<longrightarrow>
        j < nfd s \<and> fd_address (Fs_fd s' ! j) = fd_address (Fs_fd s ! j) \<and>
          fd_sector (Fs_fd s' ! j) = fd_sector (Fs_fd s ! j) \<and> fd_key (Fs_fd s ! j) \<noteq> key \<or>
        fd_key (Fs_fd s' ! j) = key \<and> fd_sector (Fs_fd s' ! j) = curr_sector s) \<and>
     curr_sector s' = curr_sector s \<and> Fs_pt s' = Fs_pt s \<and> reloc_sector s' = reloc_sector s \<and>
     reloc_fd_index s' = reloc_fd_index s \<and> reloc_fd s' = reloc_fd s \<and>
     reloc_buffer s' = reloc_buffer s"

context flash_device
begin

lemma put_slot:
  assumes "ok (hw s)" "m < 1024" "length bs \<le> 32" "adm (program_slot m bs (content (hw s)))"
  shows "\<exists>w. flash_put H (slot_addr m) bs s = Some (s\<lparr>hw := w\<rparr>) \<and> ok w \<and>
    content w = program_slot m bs (content (hw s))"
  using wait_write [OF assms] by (auto simp: flash_put_def)

lemma mark_current_ok:
  assumes s: "ok (hw s)" "fs_rel (crc32_calc H) n (content (hw s)) s"
    and adm: "\<And>img. image_ok (crc32_calc H) img \<Longrightarrow>
      flash_vars (crc32_calc H) img = flash_vars (crc32_calc H) (content (hw s)) \<Longrightarrow> adm img"
  shows "\<exists>fds w. mark_current H i s = Some (s\<lparr>Fs_fd := fds, hw := w\<rparr>) \<and> ok w \<and>
    fs_rel (crc32_calc H) n (content w) (s\<lparr>Fs_fd := fds\<rparr>) \<and>
    flash_vars (crc32_calc H) (content w) = flash_vars (crc32_calc H) (content (hw s)) \<and>
    (i < nfd s \<longrightarrow> h_newer (fd_header (fds ! i)) = 0) \<and>
    (\<forall>j. fd_key (fds ! j) = fd_key (Fs_fd s ! j) \<and> fd_address (fds ! j) = fd_address (Fs_fd s ! j) \<and>
       fd_sector (fds ! j) = fd_sector (Fs_fd s ! j))"
proof (cases "i < nfd s \<and> h_newer (fd_header (Fs_fd s ! i)) = FS_BLOCK_NEWER")
  case False
  then have "mark_current H i s = Some (s\<lparr>Fs_fd := Fs_fd s, hw := hw s\<rparr>)"
    by (auto simp: mark_current_def)
  with False s show ?thesis
    by (intro exI [of _ "Fs_fd s"] exI [of _ "hw s"]) (auto simp: bit_flag)
next
  case True
  let ?d = "Fs_fd s ! i" and ?img = "content (hw s)"
  define d' where "d' = ?d\<lparr>fd_header := (fd_header ?d)\<lparr>h_newer := 0\<rparr>\<rparr>"
  define img' where "img' = ?img(fd_slot d' := put_header (fd_header d') (?img (fd_slot d')))"
  have okd: "fd_ok (crc32_calc H) ?img ?d" using fs_rel_fd [OF s(2)] True by blast
  then have addr: "fd_address ?d = slot_addr (fd_slot ?d)" "fd_slot ?d < 1024"
    by (auto simp: fd_ok_def)
  have "program_bytes (?img (fd_slot ?d)) (header_bytes (fd_header d')) = put_header (fd_header d') (?img (fd_slot ?d))"
    using okd content_length [OF s(1)] by (simp add: d'_def fd_ok_def program_clear_newer(1))
  then have img': "program_slot (fd_slot ?d) (header_bytes (fd_header d')) ?img = img'"
    by (simp add: program_slot_def img'_def d'_def)
  have rel': "fs_rel (crc32_calc H) n img' (s\<lparr>Fs_fd := (Fs_fd s)[i := d']\<rparr>)"
    and vars': "flash_vars (crc32_calc H) img' = flash_vars (crc32_calc H) ?img"
    using fs_rel_mark_current [OF s(2) conjunct1 [OF True], of d' 0 img'] by (simp_all add: d'_def img'_def)
  then have "adm img'" using adm fs_rel_image_ok [OF rel'] by blast
  then obtain w where w: "flash_put H (slot_addr (fd_slot ?d)) (header_bytes (fd_header d'))
      (s\<lparr>Fs_fd := (Fs_fd s)[i := d']\<rparr>) = Some (s\<lparr>Fs_fd := (Fs_fd s)[i := d'], hw := w\<rparr>)" "ok w" "content w = img'"
    using put_slot [of "s\<lparr>Fs_fd := (Fs_fd s)[i := d']\<rparr>" "fd_slot ?d" "header_bytes (fd_header d')"] s(1) addr img'
    by auto
  have "mark_current H i s = Some (s\<lparr>Fs_fd := (Fs_fd s)[i := d'], hw := w\<rparr>)"
    using True w(1) by (simp add: mark_current_def d'_def addr(1) [symmetric] Let_def)
  moreover have "i < length (Fs_fd s)" using True fs_rel_length [OF s(2)] fs_rel_nfd [OF s(2)] by simp
  then have "h_newer (fd_header ((Fs_fd s)[i := d'] ! i)) = 0"
    and "\<forall>j. fd_key ((Fs_fd s)[i := d'] ! j) = fd_key (Fs_fd s ! j) \<and>
      fd_address ((Fs_fd s)[i := d'] ! j) = fd_address (Fs_fd s ! j) \<and>
      fd_sector ((Fs_fd s)[i := d'] ! j) = fd_sector (Fs_fd s ! j)"
    by (auto simp: d'_def nth_list_update hdr_simps)
  ultimately show ?thesis using w rel' vars' by blast
qed

text \<open>The three flash writes of the append, one after the other.\<close>

lemma put_new_ok:
  assumes ok: "ok (hw s)" and app: "append_ok (crc32_calc H) n (content (hw s)) s b i"
    and adm: "adm (img_new n (content (hw s)) s b)"
  shows "\<exists>w. flash_put H (slot_addr (head_slot n s)) b s = Some (s\<lparr>hw := w\<rparr>) \<and> ok w \<and>
    content w = img_new n (content (hw s)) s b"
proof -
  have "program_slot (head_slot n s) b (content (hw s)) = img_new n (content (hw s)) s b"
    using append_okD(3) [OF app] by (simp add: program_slot_def img_new_def top_blank [OF app] program_blank)
  then show ?thesis
    using put_slot [OF ok, of "head_slot n s" b] top_slot(1) [OF app] append_okD(3) [OF app] adm by auto
qed

lemma invalidate_former_ok:
  assumes app: "append_ok (crc32_calc H) n (content (hw s)) s b i"
    and ok: "ok (hw s)" and w: "ok w" "content w = img_new n (content (hw s)) s b"
    and adm: "adm (img_inv n (content (hw s)) s b i)"
  shows "\<exists>fds w'. invalidate_former H i (s\<lparr>hw := w\<rparr>) = Some (s\<lparr>Fs_fd := fds, hw := w'\<rparr>) \<and> ok w' \<and>
    content w' = img_inv n (content (hw s)) s b i \<and> (\<forall>d. fds[i := d] = (Fs_fd s)[i := d])"
proof (cases "i < nfd s")
  case False
  then show ?thesis
    using w by (intro exI [of _ "Fs_fd s"] exI [of _ w]) (simp add: invalidate_former_def img_inv_def)
next
  case True
  let ?img = "content (hw s)" and ?d = "Fs_fd s ! i"
  define d' where "d' = ?d\<lparr>fd_header := (fd_header ?d)\<lparr>h_size := 0\<rparr>\<rparr>"
  have okd: "fd_ok (crc32_calc H) ?img ?d" using fs_rel_fd [OF append_okD(1) [OF app] True] .
  then have slot: "fd_address ?d = slot_addr (fd_slot ?d)" "fd_slot ?d < 1024"
    by (auto simp: fd_ok_def)
  have "program_bytes (?img (fd_slot ?d)) (take 1 (header_bytes (fd_header d')))
      = put_header (fd_header d') (?img (fd_slot ?d))"
    using okd content_length [OF ok] by (simp add: d'_def fd_ok_def program_clear_size(2))
  then have "program_slot (fd_slot ?d) (take 1 (header_bytes (fd_header d'))) (content w) = img_inv n ?img s b i"
    using True fd_not_top [OF app True]
    by (simp add: program_slot_def img_inv_def img_new_def w(2) d'_def)
  then obtain w' where "flash_put H (slot_addr (fd_slot ?d)) (take 1 (header_bytes (fd_header d')))
      (s\<lparr>hw := w, Fs_fd := (Fs_fd s)[i := d']\<rparr>) = Some (s\<lparr>Fs_fd := (Fs_fd s)[i := d'], hw := w'\<rparr>)"
      "ok w'" "content w' = img_inv n ?img s b i"
    using put_slot [of "s\<lparr>hw := w, Fs_fd := (Fs_fd s)[i := d']\<rparr>" "fd_slot ?d"
        "take 1 (header_bytes (fd_header d'))"] w(1) slot(2) adm by auto
  then show ?thesis
    using True by (intro exI [of _ "(Fs_fd s)[i := d']"] exI [of _ w'])
      (simp add: invalidate_former_def d'_def slot(1) [symmetric] Let_def)
qed

lemma commit_fd_ok:
  assumes app: "append_ok (crc32_calc H) n (content (hw s)) s b i"
    and w: "ok w" "content w = img_inv n (content (hw s)) s b i"
    and fds: "\<And>d. fds[i := d] = (Fs_fd s)[i := d]"
    and adm: "adm (img_done n (content (hw s)) s b i)"
  shows "\<exists>w'. commit_fd H i b (s\<lparr>Fs_fd := fds, hw := w\<rparr>) = Some (0, (s_done n s b i)\<lparr>hw := w'\<rparr>) \<and> ok w' \<and>
    content w' = img_done n (content (hw s)) s b i"
proof -
  let ?h = "head_slot n s" and ?bs = "take 1 (header_bytes ((get_header b)\<lparr>h_newer := 0\<rparr>))"
  let ?s = "s\<lparr>hw := w, Fs_fd := (Fs_fd s)[i := fd_done n s b]\<rparr>"
  have rel: "fs_rel (crc32_calc H) n (content (hw s)) s" using append_okD(1) [OF app] .
  have addr: "curr_address s ! cur s = slot_addr ?h"
    using curr_address_nth [OF rel fs_rel_curr [OF rel]] by (simp add: head_slot_def)
  have "program_slot ?h ?bs (content w) = img_done n (content (hw s)) s b i"
    using append_okD(3) [OF app] inv_top [OF app]
    by (simp add: program_slot_def img_done_def w(2) program_clear_newer(2))
  then obtain w' where w': "flash_put H (slot_addr ?h) ?bs ?s
      = Some (s\<lparr>Fs_fd := (Fs_fd s)[i := fd_done n s b], hw := w'\<rparr>)" "ok w'"
      "content w' = img_done n (content (hw s)) s b i"
    using put_slot [of ?s ?h ?bs] w(1) adm top_slot(1) [OF app] by auto
  have "i < FD_MAX"
    using append_okD(8) [OF app] fs_rel_nfd [OF rel] by (cases "i < nfd s") auto
  then have "commit_fd H i b (s\<lparr>Fs_fd := fds, hw := w\<rparr>) = Some (0, (s_done n s b i)\<lparr>hw := w'\<rparr>)"
    using w'(1) by (simp add: commit_fd_def addr fds fd_done_def s_done_def)
  then show ?thesis using w'(2,3) by blast
qed

lemma append_block_ok:
  assumes ok: "ok (hw s)" and app: "append_ok (crc32_calc H) n (content (hw s)) s b i"
    and v1: "v1 = (flash_vars (crc32_calc H) (content (hw s)))(key_of b \<mapsto> data_of b)"
    and adm: "\<And>img. image_ok (crc32_calc H) img \<Longrightarrow> flash_vars (crc32_calc H) img = v1 \<Longrightarrow> adm img"
  shows "\<exists>w. do {
      s \<leftarrow> flash_put H (curr_address s ! cur s) b s;
      s \<leftarrow> invalidate_former H i s;
      commit_fd H i b s } = Some (0, (s_done n s b i)\<lparr>hw := w\<rparr>) \<and> ok w \<and>
    content w = img_done n (content (hw s)) s b i"
proof -
  let ?img = "content (hw s)"
  have rel: "fs_rel (crc32_calc H) n ?img s" using append_okD(1) [OF app] .
  have addr: "curr_address s ! cur s = slot_addr (head_slot n s)"
    using curr_address_nth [OF rel fs_rel_curr [OF rel]] by (simp add: head_slot_def)
  have adm1: "adm (img_new n ?img s b)" using adm new_image_ok [OF app] new_vars(2) [OF app] v1 by auto
  have adm2: "adm (img_inv n ?img s b i)" using adm inv_image_ok [OF app] inv_vars [OF app] v1 by blast
  have adm3: "adm (img_done n ?img s b i)"
    using adm fs_rel_image_ok [OF done_rel [OF app]] done_vars [OF app] v1 by blast
  obtain w1 where w1: "flash_put H (slot_addr (head_slot n s)) b s = Some (s\<lparr>hw := w1\<rparr>)" "ok w1"
      "content w1 = img_new n ?img s b"
    using put_new_ok [OF ok app adm1] by blast
  obtain fds w2 where w2: "invalidate_former H i (s\<lparr>hw := w1\<rparr>) = Some (s\<lparr>Fs_fd := fds, hw := w2\<rparr>)"
      "ok w2" "content w2 = img_inv n ?img s b i" "\<And>d. fds[i := d] = (Fs_fd s)[i := d]"
    using invalidate_former_ok [OF app ok w1(2,3) adm2] by blast
  obtain w3 where "commit_fd H i b (s\<lparr>Fs_fd := fds, hw := w2\<rparr>) = Some (0, (s_done n s b i)\<lparr>hw := w3\<rparr>)"
      "ok w3" "content w3 = img_done n ?img s b i"
    using commit_fd_ok [OF app w2(2,3,4) adm3] by blast
  then show ?thesis using w1(1) w2(1) by (intro exI [of _ w3]) (simp add: addr)
qed

lemma written_done:
  assumes app: "append_ok crc n img s b i"
    and fds: "\<And>j. fd_key (Fs_fd s ! j) = fd_key (Fs_fd s0 ! j)"
      "\<And>j. fd_address (Fs_fd s ! j) = fd_address (Fs_fd s0 ! j)"
      "\<And>j. fd_sector (Fs_fd s ! j) = fd_sector (Fs_fd s0 ! j)"
    and s: "s = s0\<lparr>Fs_fd := Fs_fd s, hw := hw s\<rparr>"
  shows "written (key_of b) s0 ((s_done n s b i)\<lparr>hw := w\<rparr>)"
proof -
  have eq: "nfd s = nfd s0" "curr_sector s = curr_sector s0" "Fs_pt s = Fs_pt s0" "reloc_sector s = reloc_sector s0"
      "reloc_fd_index s = reloc_fd_index s0" "reloc_fd s = reloc_fd s0" "reloc_buffer s = reloc_buffer s0"
    by (subst s, simp)+
  let ?s' = "(s_done n s b i)\<lparr>hw := w\<rparr>"
  have "fd_key (Fs_fd ?s' ! j) = fd_key (Fs_fd s0 ! j)" if "j < nfd s" for j
    using that fds(1) fd_done_at(2,3) [OF app] fd_done_other(2) [OF app, of j] append_okD(6) [OF app]
    by (cases "j = i") simp_all
  moreover have "j < nfd s \<and> fd_address (Fs_fd ?s' ! j) = fd_address (Fs_fd s0 ! j) \<and>
      fd_sector (Fs_fd ?s' ! j) = fd_sector (Fs_fd s0 ! j) \<and> fd_key (Fs_fd s0 ! j) \<noteq> key_of b \<or>
      fd_key (Fs_fd ?s' ! j) = key_of b \<and> fd_sector (Fs_fd ?s' ! j) = curr_sector s" if "j < nfd ?s'" for j
    using that fds fd_done_at(2,3) [OF app] fd_done_other [OF app, of j]
    by (cases "j = i") (auto simp: fd_done_def)
  ultimately show ?thesis
    using nfd_done [OF app] by (simp add: written_def eq [symmetric] s_done_def)
qed

text \<open>
  The whole of \<open>fs_write\<close> after \<open>updateSector\<close> found room. \<open>s1\<close> is the state
  \<open>updateSector\<close> left.
\<close>

lemma fs_write_with_ok:
  assumes upd: "upd s = Some (r, s1)" "\<not> r < 0"
    and ok: "ok (hw s1)" and rel: "fs_rel (crc32_calc H) n (content (hw s1)) s1"
    and room: "n (cur s1) < 128"
    and len: "unat block_len \<le> 28" "unat block_len \<le> length block_data"
    and key: "key = Key name (ucast ext)"
    and free: "flash_vars (crc32_calc H) (content (hw s1)) key \<noteq> None \<or> nfd s1 < FD_MAX"
    and v: "v0 = flash_vars (crc32_calc H) (content (hw s1))" "v1 = v0(key \<mapsto> stored block_data block_len)"
    and adm: "\<And>img. between (crc32_calc H) v0 v1 img \<Longrightarrow> adm img"
  shows "\<exists>s'. fs_write_with H upd name ext block_data block_len s = Some (0, s') \<and> ok (hw s') \<and>
    fs_rel (crc32_calc H) (n(cur s1 := Suc (n (cur s1)))) (content (hw s')) s' \<and>
    flash_vars (crc32_calc H) (content (hw s')) = v1 \<and> written key s1 s'"
proof -
  obtain wb where wb: "fill_write_buffer name ext block_data (unat block_len) = Some wb"
      "length wb = 32" "key_of wb = key" "data_of wb = stored block_data block_len"
    using fill_write_buffer_spec [OF len] key by blast
  define h where "h = get_header wb"
  define i where "i = fd_search (Fs_fd s1) (h_name h) (ucast (h_ext h)) 0 (nfd s1)"
  define b where "b = updateBlockHash (crc32_calc H) wb 32 FS_SIZE32 FS_BLOCK_NEWER"
  have hkey: "hdr_key h = key" using wb(3) by (simp add: h_def key_of_def)
  have b: "length b = 32" "valid (crc32_calc H) b" "newer_of b = 1" "key_of b = key"
      "data_of b = stored block_data block_len"
    using wb updateBlockHash_valid [OF wb(2)] by (simp_all add: b_def hdr_simps)
  have adm': "adm img" if "image_ok (crc32_calc H) img"
      "flash_vars (crc32_calc H) img = v0 \<or> flash_vars (crc32_calc H) img = v1" for img
    using adm that by (simp add: between_def)
  obtain fds w where m: "mark_current H i s1 = Some (s1\<lparr>Fs_fd := fds, hw := w\<rparr>)" "ok w"
      "fs_rel (crc32_calc H) n (content w) (s1\<lparr>Fs_fd := fds\<rparr>)"
      "flash_vars (crc32_calc H) (content w) = v0"
      "i < nfd s1 \<longrightarrow> h_newer (fd_header (fds ! i)) = 0"
      "\<And>j. fd_key (fds ! j) = fd_key (Fs_fd s1 ! j)" "\<And>j. fd_address (fds ! j) = fd_address (Fs_fd s1 ! j)"
      "\<And>j. fd_sector (fds ! j) = fd_sector (Fs_fd s1 ! j)"
    using mark_current_ok [OF ok rel adm', of i] v(1) by blast
  define s2 where "s2 = s1\<lparr>Fs_fd := fds, hw := w\<rparr>"
  have app: "append_ok (crc32_calc H) n (content (hw s2)) s2 b i"
  proof (rule append_okI)
    show "fs_rel (crc32_calc H) n (content (hw s2)) s2" using m(3) by (simp add: s2_def)
    show "i = fd_search (Fs_fd s1) (h_name h) (ucast (h_ext h)) 0 (nfd s2)" by (simp add: i_def s2_def)
    show "flash_vars (crc32_calc H) (content (hw s2)) (key_of b) \<noteq> None \<or> nfd s2 < FD_MAX"
      using free m(4) v(1) b(4) by (simp add: s2_def)
  qed (use b m(5,6) room hkey in \<open>simp_all add: s2_def\<close>)
  obtain w3 where w3: "do {
      s \<leftarrow> flash_put H (curr_address s2 ! cur s2) b s2;
      s \<leftarrow> invalidate_former H i s;
      commit_fd H i b s } = Some (0, (s_done n s2 b i)\<lparr>hw := w3\<rparr>)" "ok w3"
      "content w3 = img_done n (content (hw s2)) s2 b i"
    using append_block_ok [OF _ app, of v1] m(2,4) b(4,5) v(2) adm' by (auto simp: s2_def)
  define s' where "s' = (s_done n s2 b i)\<lparr>hw := w3\<rparr>"
  have "fs_write_with H upd name ext block_data block_len s = Some (0, s')"
    using len upd wb(1) m(1) w3(1)
    by (simp add: fs_write_with_def h_def [symmetric] i_def [symmetric] b_def s'_def s2_def)
  moreover have "fs_rel (crc32_calc H) (n(cur s1 := Suc (n (cur s1)))) (content (hw s')) s'"
    using done_rel [OF app] w3(3) by (simp add: s'_def s2_def)
  moreover have "flash_vars (crc32_calc H) (content (hw s')) = v1"
    using done_vars [OF app] w3(3) m(4) b(4,5) v(2) by (simp add: s'_def s2_def)
  moreover have "written key s1 s'"
    using written_done [OF app, of s1 w3] m(6-8) b(4) by (simp add: s'_def s2_def)
  ultimately show ?thesis using w3(2) by (auto simp: s'_def)
qed

end

end
