(* ===== verification/RelocSector.thy ===== *)
theory RelocSector
  imports FsInv
begin

text \<open>
  \<open>findRelocSector\<close>: its three loops, and what it chooses. Under the invariant it refuses
  exactly when two sectors beside the active one are blank; otherwise it chooses a full
  sector with the fewest descriptors, and its 8-bit counters do not wrap.
\<close>

section \<open>The three loops\<close>

definition blank_others :: "'w Fs \<Rightarrow> nat list \<Rightarrow> nat list" where
  "blank_others s ks = filter (\<lambda>k. k \<noteq> unat (curr_sector s) \<and> SECTOR_IS_BLANK s k) ks"

definition full_other :: "'w Fs \<Rightarrow> nat \<Rightarrow> bool" where
  "full_other s k \<longleftrightarrow> k \<noteq> unat (curr_sector s) \<and> \<not> SECTOR_IS_BLANK s k \<and> SECTOR_IS_FULL s k"

lemma reloc_scan_spec:
  assumes "b = 0 \<or> b = 1" "set ks \<subseteq> {..<length reloc_map}"
  shows "if unat b + length (blank_others s ks) \<ge> 2 then reloc_scan s ks b reloc_map = None
    else \<exists>m'. reloc_scan s ks b reloc_map = Some m' \<and> length m' = length reloc_map \<and>
      (\<forall>k < length reloc_map. m' ! k = (if k \<in> set ks \<and> full_other s k
         then (reloc_map ! k)\<lparr>full := 1\<rparr> else reloc_map ! k))"
  using assms
proof (induction s ks b reloc_map rule: reloc_scan.induct)
  case (1 s b m)
  then show ?case by (auto simp: blank_others_def)
next
  case (2 s k ks b m)
  consider "k = unat (curr_sector s)" | "k \<noteq> unat (curr_sector s)" "SECTOR_IS_BLANK s k" "b = 1"
    | "k \<noteq> unat (curr_sector s)" "SECTOR_IS_BLANK s k" "b = 0"
    | "k \<noteq> unat (curr_sector s)" "\<not> SECTOR_IS_BLANK s k" "SECTOR_IS_FULL s k"
    | "k \<noteq> unat (curr_sector s)" "\<not> SECTOR_IS_BLANK s k" "\<not> SECTOR_IS_FULL s k"
    using 2(5) by blast
  then show ?case
  proof cases
    case 1
    with 2 show ?thesis by (auto simp: blank_others_def full_other_def)
  next
    case 2
    then show ?thesis by (simp add: blank_others_def)
  next
    case 3
    with 2(2) 2(6) show ?thesis by (auto simp: blank_others_def full_other_def)
  next
    case 4
    with 2(3,5,6) show ?thesis by (auto simp: blank_others_def full_other_def nth_list_update)
  next
    case 5
    with 2(4,5,6) show ?thesis by (auto simp: blank_others_def full_other_def)
  qed
qed

definition fds_in :: "'w Fs \<Rightarrow> nat \<Rightarrow> nat list \<Rightarrow> nat" where
  "fds_in s k is = length (filter (\<lambda>i. unat (fd_sector (Fs_fd s ! i)) = k) is)"

lemma reloc_histogram_spec:
  assumes "\<forall>i \<in> set is. unat (fd_sector (Fs_fd s ! i)) < length reloc_map"
  shows "length (reloc_histogram s is reloc_map) = length reloc_map \<and>
    (\<forall>k < length reloc_map. full (reloc_histogram s is reloc_map ! k) = full (reloc_map ! k) \<and>
      fd_count (reloc_histogram s is reloc_map ! k) = (if full (reloc_map ! k) = 1
        then fd_count (reloc_map ! k) + word_of_nat (fds_in s k is) else fd_count (reloc_map ! k)))"
  using assms
proof (induction s "is" reloc_map rule: reloc_histogram.induct)
  case (1 s m)
  then show ?case by (simp add: fds_in_def)
next
  case (2 s fd fds m)
  then show ?case by (auto simp: Let_def fds_in_def nth_list_update)
qed

lemma reloc_winner_spec:
  defines "f s x \<equiv> (unat (curr_sector s) + x) mod FS_NUM_SECTORS"
  shows "(reloc_winner s m xs fd_min reloc = reloc \<and>
      (\<forall>x \<in> set xs. full (m ! f s x) = 1 \<longrightarrow> fd_min \<le> fd_count (m ! f s x))) \<or>
    (\<exists>x \<in> set xs. reloc_winner s m xs fd_min reloc = word_of_nat (f s x) \<and>
      full (m ! f s x) = 1 \<and> fd_count (m ! f s x) < fd_min \<and>
      (\<forall>y \<in> set xs. full (m ! f s y) = 1 \<longrightarrow> fd_count (m ! f s x) \<le> fd_count (m ! f s y)))"
proof (induction s m xs fd_min reloc rule: reloc_winner.induct)
  case (1 s m fd_min reloc)
  then show ?case by simp
next
  case (2 s m x xs fd_min reloc)
  show ?case
  proof (cases "full (m ! f s x) = 1 \<and> fd_count (m ! f s x) < fd_min")
    case True
    then have eq: "reloc_winner s m (x # xs) fd_min reloc
        = reloc_winner s m xs (fd_count (m ! f s x)) (word_of_nat (f s x))"
      by (simp add: f_def Let_def)
    note IH = 2(1) [OF refl True [unfolded f_def], folded f_def]
    from IH show ?thesis
    proof
      assume a: "reloc_winner s m xs (fd_count (m ! f s x)) (word_of_nat (f s x)) = word_of_nat (f s x) \<and>
        (\<forall>y \<in> set xs. full (m ! f s y) = 1 \<longrightarrow> fd_count (m ! f s x) \<le> fd_count (m ! f s y))"
      show ?thesis
        unfolding eq using a True by (intro disjI2 bexI [of _ x]) auto
    next
      assume "\<exists>y \<in> set xs. reloc_winner s m xs (fd_count (m ! f s x)) (word_of_nat (f s x)) = word_of_nat (f s y) \<and>
        full (m ! f s y) = 1 \<and> fd_count (m ! f s y) < fd_count (m ! f s x) \<and>
        (\<forall>z \<in> set xs. full (m ! f s z) = 1 \<longrightarrow> fd_count (m ! f s y) \<le> fd_count (m ! f s z))"
      then obtain y where y: "y \<in> set xs"
          "reloc_winner s m xs (fd_count (m ! f s x)) (word_of_nat (f s x)) = word_of_nat (f s y)"
          "full (m ! f s y) = 1" "fd_count (m ! f s y) < fd_count (m ! f s x)"
          "\<forall>z \<in> set xs. full (m ! f s z) = 1 \<longrightarrow> fd_count (m ! f s y) \<le> fd_count (m ! f s z)"
        by blast
      then have "fd_count (m ! f s y) < fd_min" using True by (meson less_trans)
      then show ?thesis
        unfolding eq using y by (intro disjI2 bexI [of _ y]) (auto intro: less_imp_le)
    qed
  next
    case False
    then have eq: "reloc_winner s m (x # xs) fd_min reloc = reloc_winner s m xs fd_min reloc"
      by (auto simp: f_def Let_def)
    note IH = 2(2) [OF refl False [unfolded f_def], folded f_def]
    from IH False show ?thesis
      unfolding eq by (elim disjE bexE) (auto simp: not_less)
  qed
qed

section \<open>The choice\<close>

text \<open>The number of variables whose block lies in sector \<open>k\<close>.\<close>

definition fds_of :: "'w Fs \<Rightarrow> nat \<Rightarrow> nat" where
  "fds_of s k = fds_in s k [0..<unat (curr_fd_index s)]"

lemma fds_of_card: "fds_of s k = card {i. i < nfd s \<and> unat (fd_sector (Fs_fd s ! i)) = k}"
proof -
  have "distinct (filter (\<lambda>i. unat (fd_sector (Fs_fd s ! i)) = k) [0..<nfd s])" by simp
  then have "fds_of s k = card (set (filter (\<lambda>i. unat (fd_sector (Fs_fd s ! i)) = k) [0..<nfd s]))"
    unfolding fds_of_def fds_in_def by (rule distinct_card [symmetric])
  then show ?thesis by (simp add: conj_commute)
qed

lemma fd_sector_slot:
  assumes "fs_rel crc n img s" "i < nfd s"
  shows "unat (fd_sector (Fs_fd s ! i)) = fd_slot (Fs_fd s ! i) div 128" "unat (fd_sector (Fs_fd s ! i)) < 8"
proof -
  have "fd_slot (Fs_fd s ! i) < 1024"
      "fd_sector (Fs_fd s ! i) = word_of_nat (fd_slot (Fs_fd s ! i) div 128)"
    using fs_rel_fd [OF assms] by (auto simp: fd_ok_def)
  moreover from this have "fd_slot (Fs_fd s ! i) div 128 < 8" by auto
  moreover from this have "fd_slot (Fs_fd s ! i) div 128 < 256" by linarith
  ultimately show "unat (fd_sector (Fs_fd s ! i)) = fd_slot (Fs_fd s ! i) div 128"
      "unat (fd_sector (Fs_fd s ! i)) < 8"
    by (simp_all add: unat_of_nat)
qed

lemma fds_of_le:
  assumes "fs_rel crc n img s"
  shows "fds_of s k \<le> 128"
proof -
  let ?I = "{i. i < nfd s \<and> unat (fd_sector (Fs_fd s ! i)) = k}"
  have "inj_on (\<lambda>i. fd_slot (Fs_fd s ! i)) ?I"
    using fs_rel_slot_inj [OF assms] by (auto intro!: inj_onI)
  then have "card ?I = card ((\<lambda>i. fd_slot (Fs_fd s ! i)) ` ?I)" by (simp add: card_image)
  also have "\<dots> \<le> card {128 * k ..< 128 * k + 128}"
    using fd_sector_slot(1) [OF assms] by (intro card_mono) (auto simp: div_nat_eqI)
  finally show ?thesis by (simp add: fds_of_card)
qed

text \<open>
  With at most \<open>FD_MAX\<close> variables and at most one blank sector beside the active one,
  some full sector holds few of them: at least six are full and \<open>6 * 51 > FD_MAX\<close>.
\<close>

lemma light_sector:
  assumes rel: "fs_rel crc n img s" and few: "card {k. k < 8 \<and> k \<noteq> cur s \<and> n k = 0} < 2"
  shows "\<exists>k < 8. k \<noteq> cur s \<and> n k = 128 \<and> fds_of s k \<le> 50"
proof (rule ccontr)
  let ?I = "\<lambda>k. {i. i < nfd s \<and> unat (fd_sector (Fs_fd s ! i)) = k}"
  let ?F = "{k. k < 8 \<and> k \<noteq> cur s \<and> n k = 128}" and ?B = "{k. k < 8 \<and> k \<noteq> cur s \<and> n k = 0}"
  assume "\<not> ?thesis"
  then have full: "51 \<le> fds_of s k" if "k \<in> ?F" for k using that by fastforce
  have "{..<8} = insert (cur s) (?F \<union> ?B)"
    using fs_rel_ring [OF rel] by (auto simp: ring_def)
  then have "8 = card (insert (cur s) (?F \<union> ?B))" by (metis card_lessThan)
  also have "\<dots> \<le> Suc (card ?F + card ?B)"
    using card_Un_le [of ?F ?B] by (simp add: card_insert_if)
  finally have "6 \<le> card ?F" using few by simp
  then have "6 * 51 \<le> (\<Sum>k \<in> ?F. 51 :: nat)" by simp
  also have "\<dots> \<le> (\<Sum>k \<in> ?F. card (?I k))"
    using full by (intro sum_mono) (simp add: fds_of_card)
  also have "\<dots> = card (\<Union>k \<in> ?F. ?I k)" by (subst card_UN_disjoint) auto
  also have "\<dots> \<le> card {..<nfd s}" by (intro card_mono) auto
  finally show False using fs_rel_nfd [OF rel] by simp
qed

lemma sparse_sector:
  assumes "fs_rel crc n img s" "card {k. k < 8 \<and> k \<noteq> cur s \<and> n k = 0} < 2"
  shows "\<exists>k < 8. k \<noteq> cur s \<and> n k = 128 \<and> fds_of s k < 128"
  using light_sector [OF assms] by (auto intro: le_less_trans)

lemma blank_others_card:
  assumes "fs_rel crc n img s"
  shows "length (blank_others s [0..<8]) = card {k. k < 8 \<and> k \<noteq> cur s \<and> n k = 0}"
proof -
  have "distinct (blank_others s [0..<8])" by (simp add: blank_others_def)
  then have "length (blank_others s [0..<8]) = card (set (blank_others s [0..<8]))"
    by (rule distinct_card [symmetric])
  also have "set (blank_others s [0..<8]) = {k. k < 8 \<and> k \<noteq> cur s \<and> n k = 0}"
    using blank_iff [OF assms] by (auto simp: blank_others_def)
  finally show ?thesis .
qed

lemma full_other_iff:
  "fs_rel crc n img s \<Longrightarrow> k < 8 \<Longrightarrow> full_other s k \<longleftrightarrow> k \<noteq> cur s \<and> n k = 128"
  by (auto simp: full_other_def blank_iff full_iff)

text \<open>The two loops that fill the table: the full sectors and how many variables they hold.\<close>

definition counts :: "'w Fs \<Rightarrow> reloc_entry list \<Rightarrow> bool" where
  "counts s m \<longleftrightarrow> (\<forall>k < 8. full (m ! k) = (if full_other s k then 1 else 0) \<and>
     (full_other s k \<longrightarrow> unat (fd_count (m ! k)) = fds_of s k))"

lemma reloc_table_ok:
  assumes rel: "fs_rel crc n img s"
  shows "if 2 \<le> card {k. k < 8 \<and> k \<noteq> cur s \<and> n k = 0}
    then reloc_scan s [0..<8] 0 (replicate 8 \<lparr>fd_count = 0, full = 0\<rparr>) = None
    else \<exists>m. reloc_scan s [0..<8] 0 (replicate 8 \<lparr>fd_count = 0, full = 0\<rparr>) = Some m \<and>
      counts s (reloc_histogram s [0..<nfd s] m)"
proof (cases "2 \<le> card {k. k < 8 \<and> k \<noteq> cur s \<and> n k = 0}")
  case True
  then show ?thesis
    using reloc_scan_spec [of 0 "[0..<8]" "replicate 8 \<lparr>fd_count = 0, full = 0\<rparr>" s]
    by (simp add: atLeast0LessThan blank_others_card [OF rel])
next
  case few: False
  then obtain m where m: "reloc_scan s [0..<8] 0 (replicate 8 \<lparr>fd_count = 0, full = 0\<rparr>) = Some m" "length m = 8"
      "\<forall>k < 8. m ! k = (if full_other s k then \<lparr>fd_count = 0, full = 1\<rparr> else \<lparr>fd_count = 0, full = 0\<rparr>)"
    using reloc_scan_spec [of 0 "[0..<8]" "replicate 8 \<lparr>fd_count = 0, full = 0\<rparr>" s]
    by (auto simp: atLeast0LessThan blank_others_card [OF rel])
  have "full (reloc_histogram s [0..<nfd s] m ! k) = (if full_other s k then 1 else 0) \<and>
      (full_other s k \<longrightarrow> unat (fd_count (reloc_histogram s [0..<nfd s] m ! k)) = fds_of s k)" if "k < 8" for k
  proof -
    have "fds_of s k < 256" using fds_of_le [OF rel, of k] by linarith
    then show ?thesis
      using reloc_histogram_spec [of "[0..<nfd s]" s m] fd_sector_slot(2) [OF rel] m(2,3) that
      by (simp add: unat_of_nat fds_of_def [symmetric])
  qed
  with few m(1) show ?thesis by (auto simp: counts_def)
qed

lemma ring_onto: "c < 8 \<Longrightarrow> k < 8 \<Longrightarrow> \<exists>x \<in> {0..<8}. (c + x) mod FS_NUM_SECTORS = k"
  by (intro bexI [of _ "(8 + k - c) mod 8"]) (simp_all add: mod_simps)

text \<open>The last loop picks a full sector with the fewest variables; there is one below the bound.\<close>

lemma reloc_winner_ok:
  assumes rel: "fs_rel crc n img s" and few: "card {k. k < 8 \<and> k \<noteq> cur s \<and> n k = 0} < 2"
    and m: "counts s m"
  shows "\<exists>k < 8. reloc_winner s m [0..<8] 128 0 = word_of_nat k \<and> full_other s k \<and>
    (\<forall>k' < 8. full_other s k' \<longrightarrow> fds_of s k \<le> fds_of s k')"
proof -
  let ?f = "\<lambda>x. (cur s + x) mod FS_NUM_SECTORS"
  have f: "?f x < 8" for x by simp
  have full: "full (m ! ?f x) = 1 \<longleftrightarrow> full_other s (?f x)" for x
    using m f [of x] by (simp add: counts_def)
  have le: "fd_count (m ! ?f x) \<le> fd_count (m ! ?f y) \<longleftrightarrow> fds_of s (?f x) \<le> fds_of s (?f y)"
    if "full_other s (?f x)" "full_other s (?f y)" for x y
    using m f [of x] f [of y] that by (simp add: counts_def word_le_nat_alt)
  obtain k0 where k0: "k0 < 8" "full_other s k0" "fds_of s k0 < 128"
    using sparse_sector [OF rel few] full_other_iff [OF rel] by blast
  obtain x0 where x0: "x0 \<in> {0..<8}" "?f x0 = k0" using ring_onto [OF fs_rel_curr [OF rel] k0(1)] by blast
  have "unat (fd_count (m ! k0)) = fds_of s k0" using m k0(1,2) by (simp add: counts_def)
  then have "\<not> 128 \<le> fd_count (m ! ?f x0)" using k0(3) x0(2) by (simp add: word_le_nat_alt)
  moreover have "full (m ! ?f x0) = 1" using full [of x0] k0(2) x0(2) by simp
  ultimately obtain x where x: "reloc_winner s m [0..<8] 128 0 = word_of_nat (?f x)" "full (m ! ?f x) = 1"
      "\<forall>y \<in> {0..<8}. full (m ! ?f y) = 1 \<longrightarrow> fd_count (m ! ?f x) \<le> fd_count (m ! ?f y)"
    using reloc_winner_spec [of s m "[0..<8]" 128 0] x0(1) unfolding set_upt by blast
  have "fds_of s (?f x) \<le> fds_of s k'" if k': "k' < 8" "full_other s k'" for k'
  proof -
    obtain y where y: "y \<in> {0..<8}" "?f y = k'" using ring_onto [OF fs_rel_curr [OF rel] k'(1)] by blast
    then show ?thesis using x(2,3) full le [of x y] k'(2) by (auto simp del: mod_less_divisor)
  qed
  then show ?thesis using x(1,2) full f by blast
qed

lemma findRelocSector_ok:
  assumes rel: "fs_rel crc n img s"
  obtains (enough) "2 \<le> card {k. k < 8 \<and> k \<noteq> cur s \<and> n k = 0}" "findRelocSector s = (-1, s)"
  | (found) k where "card {k. k < 8 \<and> k \<noteq> cur s \<and> n k = 0} < 2"
      "findRelocSector s = (0, s\<lparr>reloc_sector := word_of_nat k\<rparr>)" "k < 8" "k \<noteq> cur s" "n k = 128"
      "\<And>k'. k' < 8 \<Longrightarrow> k' \<noteq> cur s \<Longrightarrow> n k' = 128 \<Longrightarrow> fds_of s k \<le> fds_of s k'"
proof (cases "2 \<le> card {k. k < 8 \<and> k \<noteq> cur s \<and> n k = 0}")
  case True
  then have "findRelocSector s = (-1, s)" using reloc_table_ok [OF rel] by (simp add: findRelocSector_def)
  with True show thesis by (rule enough)
next
  case False
  then have few: "card {k. k < 8 \<and> k \<noteq> cur s \<and> n k = 0} < 2" by simp
  obtain m where m: "reloc_scan s [0..<8] 0 (replicate 8 \<lparr>fd_count = 0, full = 0\<rparr>) = Some m"
      "counts s (reloc_histogram s [0..<nfd s] m)"
    using reloc_table_ok [OF rel] False by auto
  obtain k where k: "reloc_winner s (reloc_histogram s [0..<nfd s] m) [0..<8] 128 0 = word_of_nat k"
      "k < 8" "full_other s k" "\<forall>k' < 8. full_other s k' \<longrightarrow> fds_of s k \<le> fds_of s k'"
    using reloc_winner_ok [OF rel few m(2)] by blast
  then have "findRelocSector s = (0, s\<lparr>reloc_sector := word_of_nat k\<rparr>)"
    using m(1) by (simp add: findRelocSector_def)
  then show thesis using few k(2-4) full_other_iff [OF rel] by (intro found) auto
qed

end
