(* ===== verification/FsThread.thy ===== *)
theory FsThread
  imports FsWrite RelocSector
begin

text \<open>
  The relocation protothread. Its own invariant \<open>th_inv\<close> says, for each line it can be
  suspended at, what it knows of the sector it is emptying; together with \<open>fs_rel\<close> it is
  the invariant \<open>fs_ok\<close> that \<open>fs_write\<close>, \<open>fs_read\<close> and \<open>fs_thread\<close> keep in any order of
  calls, the nested ones included.
\<close>

section \<open>The thread's invariant\<close>

text \<open>The sector being emptied: full, and not the active one.\<close>

definition reloc_target :: "(nat \<Rightarrow> nat) \<Rightarrow> 'w Fs \<Rightarrow> bool" where
  "reloc_target n s \<longleftrightarrow> unat (reloc_sector s) < 8 \<and> reloc_sector s \<noteq> curr_sector s \<and>
     n (unat (reloc_sector s)) = 128"

text \<open>No descriptor below \<open>i\<close> lies in the sector.\<close>

definition moved :: "'w Fs \<Rightarrow> nat \<Rightarrow> bool" where
  "moved s i \<longleftrightarrow> (\<forall>j < i. fd_sector (Fs_fd s ! j) \<noteq> reloc_sector s)"

abbreviation ridx :: "'w Fs \<Rightarrow> nat" where
  "ridx s \<equiv> unat (reloc_fd_index s)"

text \<open>
  The copy \<open>Fs.reloc.fd\<close> names a block of the sector, of the variable of \<open>fd[fd_index]\<close>;
  unless the variable has been written since, the copy is its descriptor's address.
\<close>

definition picked :: "'w Fs \<Rightarrow> bool" where
  "picked s \<longleftrightarrow> fd_key (reloc_fd s) = fd_key (Fs_fd s ! ridx s) \<and>
     fd_slot (reloc_fd s) < 1024 \<and> fd_address (reloc_fd s) = slot_addr (fd_slot (reloc_fd s)) \<and>
     fd_slot (reloc_fd s) div 128 = unat (reloc_sector s) \<and> length (reloc_buffer s) = 32 \<and>
     (fd_address (Fs_fd s ! ridx s) \<noteq> fd_address (reloc_fd s) \<longrightarrow>
        fd_sector (Fs_fd s ! ridx s) \<noteq> reloc_sector s)"

text \<open>The buffer holds the variable's value, unless the variable has been written since.\<close>

definition buffered :: "(bytes \<Rightarrow> u32) \<Rightarrow> image \<Rightarrow> 'w Fs \<Rightarrow> bool" where
  "buffered crc img s \<longleftrightarrow>
     (fd_address (Fs_fd s ! ridx s) = fd_address (reloc_fd s) \<longrightarrow>
        flash_vars crc img (fd_key (reloc_fd s)) = Some (drop 4 (reloc_buffer s)))"

definition th_inv :: "(bytes \<Rightarrow> u32) \<Rightarrow> (nat \<Rightarrow> nat) \<Rightarrow> image \<Rightarrow> 'w Fs \<Rightarrow> bool" where
  "th_inv crc n img s \<longleftrightarrow>
     Fs_pt s \<in> {0, 555, 556} \<or>
     Fs_pt s = 622 \<and> reloc_target n s \<and> moved s (nfd s) \<or>
     Fs_pt s \<in> {576, 596, 610, 617} \<and> reloc_target n s \<and> ridx s < nfd s \<and> moved s (ridx s) \<and>
       (Fs_pt s = 617 \<longrightarrow> fd_sector (Fs_fd s ! ridx s) \<noteq> reloc_sector s) \<and>
       (Fs_pt s \<in> {576, 596, 610} \<longrightarrow> picked s) \<and>
       (Fs_pt s \<in> {596, 610} \<longrightarrow> buffered crc img s) \<and>
       (Fs_pt s = 610 \<longrightarrow> fd_address (Fs_fd s ! ridx s) = fd_address (reloc_fd s) \<and>
          (\<forall>k < 8. n k = 128))"

text \<open>
  The invariant of the running system over a device: \<open>v\<close> are the variables it holds and
  \<open>n\<close> the fill of its sectors.
\<close>

definition fs_ok ::
    "('w \<Rightarrow> image) \<Rightarrow> ('w \<Rightarrow> bool) \<Rightarrow> (bytes \<Rightarrow> u32) \<Rightarrow> (key \<Rightarrow> bytes option) \<Rightarrow> (nat \<Rightarrow> nat) \<Rightarrow>
     'w Fs \<Rightarrow> bool" where
  "fs_ok content ok crc v n s \<longleftrightarrow> ok (hw s) \<and> fs_rel crc n (content (hw s)) s \<and>
     flash_vars crc (content (hw s)) = v \<and> length (reloc_buffer s) = 32 \<and>
     th_inv crc n (content (hw s)) s"

text \<open>A step of the thread that leaves the active sector alone and writes it once at most.\<close>

definition thread_step ::
    "('w \<Rightarrow> image) \<Rightarrow> ('w \<Rightarrow> bool) \<Rightarrow> (bytes \<Rightarrow> u32) \<Rightarrow> (key \<Rightarrow> bytes option) \<Rightarrow> (nat \<Rightarrow> nat) \<Rightarrow>
     'w Fs \<Rightarrow> (int \<times> 'w Fs) option \<Rightarrow> bool" where
  "thread_step content ok crc v n s X \<longleftrightarrow>
     (\<exists>r s' n'. X = Some (r, s') \<and> fs_ok content ok crc v n' s' \<and>
        curr_sector s' = curr_sector s \<and> n' (cur s) \<le> Suc (n (cur s)))"

lemma th_inv_frame [simp]:
  "th_inv crc n img (s\<lparr>hw := w\<rparr>) = th_inv crc n img s"
  "th_inv crc n img (s\<lparr>Fs_timer := t\<rparr>) = th_inv crc n img s"
  by (simp_all add: th_inv_def reloc_target_def moved_def picked_def buffered_def)

lemma thread_step_frame [simp]:
  "thread_step content ok crc v n (s\<lparr>reloc_fd_index := i\<rparr>) = thread_step content ok crc v n s"
  "thread_step content ok crc v n (s\<lparr>reloc_fd := d\<rparr>) = thread_step content ok crc v n s"
  "thread_step content ok crc v n (s\<lparr>reloc_sector := k\<rparr>) = thread_step content ok crc v n s"
  "thread_step content ok crc v n (s\<lparr>hw := w\<rparr>) = thread_step content ok crc v n s"
  "thread_step content ok crc v n (s\<lparr>Fs_pt := l\<rparr>) = thread_step content ok crc v n s"
  by (auto simp: thread_step_def fun_eq_iff)

lemma reloc_target_frame [simp]:
  "reloc_target n (s\<lparr>hw := w\<rparr>) = reloc_target n s"
  "reloc_target n (s\<lparr>Fs_pt := l\<rparr>) = reloc_target n s"
  "reloc_target n (s\<lparr>reloc_fd_index := i\<rparr>) = reloc_target n s"
  "reloc_target n (s\<lparr>reloc_fd := d\<rparr>) = reloc_target n s"
  "reloc_target n (s\<lparr>reloc_buffer := b\<rparr>) = reloc_target n s"
  by (simp_all add: reloc_target_def)

lemma moved_frame [simp]:
  "moved (s\<lparr>hw := w\<rparr>) i = moved s i"
  "moved (s\<lparr>Fs_pt := l\<rparr>) i = moved s i"
  "moved (s\<lparr>curr_sector := k\<rparr>) i = moved s i"
  "moved (s\<lparr>reloc_fd_index := j\<rparr>) i = moved s i"
  "moved (s\<lparr>reloc_fd := d\<rparr>) i = moved s i"
  "moved (s\<lparr>reloc_buffer := b\<rparr>) i = moved s i"
  by (simp_all add: moved_def)

lemma picked_frame [simp]:
  "picked (s\<lparr>hw := w\<rparr>) = picked s"
  "picked (s\<lparr>Fs_pt := l\<rparr>) = picked s"
  "picked (s\<lparr>curr_sector := k\<rparr>) = picked s"
  by (simp_all add: picked_def)

lemma buffered_frame [simp]:
  "buffered crc img (s\<lparr>hw := w\<rparr>) = buffered crc img s"
  "buffered crc img (s\<lparr>Fs_pt := l\<rparr>) = buffered crc img s"
  "buffered crc img (s\<lparr>curr_sector := k\<rparr>) = buffered crc img s"
  by (simp_all add: buffered_def)

section \<open>The invariant under a write\<close>

lemma fs_rel_sector_address:
  assumes "fs_rel crc n img s" "i < nfd s" "fd_address (Fs_fd s ! i) = slot_addr m" "m < 1024"
  shows "unat (fd_sector (Fs_fd s ! i)) = m div 128"
  using fd_sector_slot(1) [OF assms(1,2)] assms(3,4) by simp

text \<open>
  A write puts one descriptor in the active sector, which is not the one being emptied.
\<close>

lemma written_moved:
  assumes w: "written key s s'" and t: "reloc_target n s" and m: "moved s i" and i: "i \<le> nfd s"
    and new: "i = nfd s \<Longrightarrow> i' \<le> nfd s'" "i \<noteq> nfd s \<Longrightarrow> i' = i"
  shows "moved s' i'"
proof -
  have "fd_sector (Fs_fd s' ! j) \<noteq> reloc_sector s'" if "j < i'" for j
  proof -
    have j': "j < nfd s'"
      using that new i w by (cases "i = nfd s") (auto simp: written_def)
    then consider "j < nfd s" "fd_sector (Fs_fd s' ! j) = fd_sector (Fs_fd s ! j)"
      | "fd_sector (Fs_fd s' ! j) = curr_sector s"
      using w by (auto simp: written_def)
    then show ?thesis
    proof cases
      case 1
      have "j < i" using 1(1) that new by (cases "i = nfd s") auto
      then show ?thesis using 1(2) m w by (simp add: moved_def written_def)
    next
      case 2
      then show ?thesis using t w by (auto simp: reloc_target_def written_def)
    qed
  qed
  then show ?thesis by (simp add: moved_def)
qed

lemma written_target:
  assumes "written key s s'" "reloc_target n s"
  shows "reloc_target (n(cur s := x)) s'"
proof -
  have "unat (reloc_sector s) \<noteq> cur s" using assms(2) by (auto simp: reloc_target_def word_unat_eq_iff)
  then show ?thesis using assms by (auto simp: reloc_target_def written_def)
qed

text \<open>The descriptor under relocation: written, and so moved away, or as it was.\<close>

lemma written_fd:
  assumes w: "written key s s'" and rel': "fs_rel crc n' img' s'" and t: "reloc_target n s" and i: "ridx s < nfd s"
  obtains (away) "fd_key (Fs_fd s ! ridx s) = key" "fd_sector (Fs_fd s' ! ridx s') \<noteq> reloc_sector s'"
  | (same) "fd_key (Fs_fd s ! ridx s) \<noteq> key"
      "fd_sector (Fs_fd s' ! ridx s') = fd_sector (Fs_fd s ! ridx s)"
      "fd_address (Fs_fd s' ! ridx s') = fd_address (Fs_fd s ! ridx s)"
proof -
  have eq: "ridx s' = ridx s" "reloc_sector s' = reloc_sector s" "ridx s < nfd s'"
      "fd_key (Fs_fd s' ! ridx s) = fd_key (Fs_fd s ! ridx s)"
    using w i by (auto simp: written_def)
  have "fd_address (Fs_fd s' ! ridx s) = fd_address (Fs_fd s ! ridx s) \<and>
        fd_sector (Fs_fd s' ! ridx s) = fd_sector (Fs_fd s ! ridx s) \<and> fd_key (Fs_fd s ! ridx s) \<noteq> key \<or>
      fd_key (Fs_fd s' ! ridx s) = key \<and> fd_sector (Fs_fd s' ! ridx s) = curr_sector s"
    using w eq(3) by (auto simp: written_def)
  then show thesis
    using away same eq t by (auto simp: reloc_target_def)
qed

lemma written_picked:
  assumes w: "written key s s'" and rel': "fs_rel crc n' img' s'" and t: "reloc_target n s" and i: "ridx s < nfd s"
    and p: "picked s"
  shows "picked s'"
proof -
  have eq: "fd_key (Fs_fd s' ! ridx s') = fd_key (Fs_fd s ! ridx s)" "reloc_fd s' = reloc_fd s"
      "reloc_sector s' = reloc_sector s" "reloc_buffer s' = reloc_buffer s"
    using w i by (simp_all add: written_def)
  show ?thesis
    by (cases rule: written_fd [OF w rel' t i]) (use p eq in \<open>auto simp: picked_def\<close>)
qed

lemma picked_address:
  assumes "fs_rel crc n img s" "ridx s < nfd s" "picked s"
    and "fd_address (Fs_fd s ! ridx s) = fd_address (reloc_fd s)"
  shows "fd_sector (Fs_fd s ! ridx s) = reloc_sector s"
proof -
  have "unat (fd_sector (Fs_fd s ! ridx s)) = fd_slot (reloc_fd s) div 128"
    using assms(3,4) by (intro fs_rel_sector_address [OF assms(1,2)]) (simp_all add: picked_def)
  then show ?thesis using assms(3) by (simp add: picked_def word_unat_eq_iff)
qed

lemma written_buffered:
  assumes w: "written key s s'" and rel': "fs_rel crc n' img' s'" and t: "reloc_target n s" and i: "ridx s < nfd s"
    and p: "picked s" and b: "buffered crc img s"
    and v: "flash_vars crc img' = (flash_vars crc img)(key \<mapsto> x)"
  shows "buffered crc img' s'"
proof -
  have i': "ridx s' < nfd s'" using w i by (simp add: written_def)
  have p': "picked s'" by (rule written_picked [OF w rel' t i p])
  show ?thesis
  proof (cases rule: written_fd [OF w rel' t i])
    case 1
    then show ?thesis using picked_address [OF rel' i' p'] by (auto simp: buffered_def)
  next
    case 2
    have "fd_key (reloc_fd s) \<noteq> key" "reloc_fd s' = reloc_fd s" "reloc_buffer s' = reloc_buffer s"
      using p 2(1) w by (simp_all add: picked_def written_def)
    then show ?thesis using b 2(3) by (simp add: buffered_def v)
  qed
qed

lemma written_th_inv:
  assumes w: "written key s s'" and rel': "fs_rel crc n' img' s'"
    and n': "n' = n(cur s := Suc (n (cur s)))" and room: "n (cur s) < 128" "cur s < 8"
    and v: "flash_vars crc img' = (flash_vars crc img)(key \<mapsto> x)"
    and t: "th_inv crc n img s"
  shows "th_inv crc n' img' s'"
proof -
  have pt: "Fs_pt s' = Fs_pt s" using w by (simp add: written_def)
  consider "Fs_pt s \<in> {0, 555, 556}" | "Fs_pt s = 622" "reloc_target n s" "moved s (nfd s)"
    | "Fs_pt s \<in> {576, 596, 617}" "reloc_target n s" "ridx s < nfd s" "moved s (ridx s)"
      "Fs_pt s = 617 \<longrightarrow> fd_sector (Fs_fd s ! ridx s) \<noteq> reloc_sector s"
      "Fs_pt s \<in> {576, 596} \<longrightarrow> picked s" "Fs_pt s = 596 \<longrightarrow> buffered crc img s"
    using t room unfolding th_inv_def by auto
  then show ?thesis
  proof cases
    case 1
    then show ?thesis using pt by (simp add: th_inv_def)
  next
    case 2
    then show ?thesis
      using pt written_target [OF w 2(2)] written_moved [OF w 2(2,3), of "nfd s'"] n'
      by (simp add: th_inv_def)
  next
    case 3
    have i': "ridx s' = ridx s" "ridx s < nfd s'" using w 3(3) by (simp_all add: written_def)
    have "moved s' (ridx s')"
      using written_moved [OF w 3(2,4), of "ridx s"] 3(3) i' by simp
    moreover have "Fs_pt s = 617 \<longrightarrow> fd_sector (Fs_fd s' ! ridx s') \<noteq> reloc_sector s'"
      using written_fd [OF w rel' 3(2,3)] 3(5) w by (metis written_def)
    moreover have "Fs_pt s \<in> {576, 596} \<longrightarrow> picked s'"
      using written_picked [OF w rel' 3(2,3)] 3(6) by blast
    moreover have "Fs_pt s = 596 \<longrightarrow> buffered crc img' s'"
      using written_buffered [OF w rel' 3(2,3) _ _ v] 3(6,7) by blast
    ultimately show ?thesis
      using 3(1) i' pt written_target [OF w 3(2)] n' by (auto simp: th_inv_def)
  qed
qed

text \<open>After the thread's own write of the variable it moves, it yields at line 617.\<close>

lemma written_th_inv_617:
  assumes w: "written key s s'" and rel': "fs_rel crc n' img' s'"
    and n': "n' = n(cur s := Suc (n (cur s)))"
    and t: "reloc_target n s" "ridx s < nfd s" "moved s (ridx s)"
    and key: "fd_key (Fs_fd s ! ridx s) = key"
  shows "th_inv crc n' img' (s'\<lparr>Fs_pt := 617\<rparr>)"
proof -
  have i': "ridx s' = ridx s" "ridx s < nfd s'" using w t(2) by (simp_all add: written_def)
  have "moved s' (ridx s')"
    using written_moved [OF w t(1,3), of "ridx s"] t(2) i' by simp
  moreover have "fd_sector (Fs_fd s' ! ridx s') \<noteq> reloc_sector s'"
    using key by (cases rule: written_fd [OF w rel' t(1,2)]) auto
  ultimately show ?thesis
    using i' written_target [OF w t(1)] n' by (simp add: th_inv_def)
qed

section \<open>The next sector\<close>

text \<open>
  From \<open>d\<close> steps before the active sector, the loop of \<open>updateSector\<close> returns, with the
  first sector in ring order that has room, or, if there is none, back at the active one.
\<close>

definition ring_at :: "'w Fs \<Rightarrow> nat \<Rightarrow> nat" where
  "ring_at s i = (cur s + i) mod 8"

definition ring_search :: "'w Fs \<Rightarrow> nat \<Rightarrow> u8 option \<Rightarrow> bool" where
  "ring_search s a r \<longleftrightarrow>
     (case r of None \<Rightarrow> \<forall>i. a < i \<and> i \<le> 8 \<longrightarrow> SECTOR_IS_FULL s (ring_at s i)
      | Some m \<Rightarrow> \<exists>i. a < i \<and> i \<le> 8 \<and> m = word_of_nat (ring_at s i) \<and> \<not> SECTOR_IS_FULL s (ring_at s i) \<and>
          (\<forall>j. a < j \<and> j < i \<longrightarrow> SECTOR_IS_FULL s (ring_at s j)))"

lemma ring_search_extend:
  assumes "ring_search s (Suc a) r" "SECTOR_IS_FULL s (ring_at s (Suc a))"
  shows "ring_search s a r"
proof -
  have split: "a < i \<longleftrightarrow> i = Suc a \<or> Suc a < i" for i by auto
  show ?thesis
  proof (cases r)
    case None
    then show ?thesis using assms by (auto simp: ring_search_def split)
  next
    case (Some m)
    then obtain i where "Suc a < i" "i \<le> 8" "m = word_of_nat (ring_at s i)" "\<not> SECTOR_IS_FULL s (ring_at s i)"
        "\<forall>j. Suc a < j \<and> j < i \<longrightarrow> SECTOR_IS_FULL s (ring_at s j)"
      using assms(1) by (auto simp: ring_search_def)
    then show ?thesis using Some assms(2) by (auto simp: ring_search_def split intro!: exI [of _ i])
  qed
qed

lemma next_sector_loop_at:
  "next_sector_loop s (word_of_nat (ring_at s a)) =
     (if \<not> SECTOR_IS_FULL s (ring_at s (Suc a)) then Some (Some (word_of_nat (ring_at s (Suc a))))
      else if ring_at s (Suc a) \<noteq> cur s then next_sector_loop s (word_of_nat (ring_at s (Suc a)))
      else Some None)"
proof -
  have small: "unat (word_of_nat (ring_at s i) :: u8) = ring_at s i" for i
  proof -
    have "ring_at s i < 8" by (simp add: ring_at_def)
    then have "ring_at s i < 256" by linarith
    then show ?thesis by (simp add: unat_of_nat)
  qed
  have "(ring_at s a + 1) mod FS_NUM_SECTORS = ring_at s (Suc a)" by (simp add: ring_at_def mod_Suc_eq)
  moreover have "word_of_nat (ring_at s (Suc a)) = curr_sector s \<longleftrightarrow> ring_at s (Suc a) = cur s"
    using small [of "Suc a"] by (auto simp: word_unat_eq_iff)
  ultimately show ?thesis by (subst next_sector_loop.simps) (simp only: Let_def small)
qed

lemma next_sector_loop_spec:
  assumes c: "cur s < 8" and d: "1 \<le> d" "d \<le> 8"
  shows "\<exists>r. next_sector_loop s (word_of_nat (ring_at s (8 - d))) = Some r \<and> ring_search s (8 - d) r"
  using d
proof (induction d)
  case 0
  then show ?case by simp
next
  case (Suc d)
  let ?a = "8 - Suc d"
  have a: "Suc ?a = 8 - d" using Suc.prems by simp
  note step = next_sector_loop_at [of s ?a]
  show ?case
  proof (cases "SECTOR_IS_FULL s (ring_at s (Suc ?a))")
    case False
    then have "ring_search s ?a (Some (word_of_nat (ring_at s (Suc ?a))))"
      using a by (auto simp: ring_search_def intro!: exI [of _ "Suc ?a"])
    then show ?thesis using False step by simp
  next
    case full: True
    show ?thesis
    proof (cases "d = 0")
      case True
      have "ring_at s 8 = cur s" using c by (simp add: ring_at_def)
      then have "next_sector_loop s (word_of_nat (ring_at s ?a)) = Some None"
        using step full True by simp
      moreover have "ring_search s ?a None" using full True by (auto simp: ring_search_def le_Suc_eq numeral_eq_Suc)
      ultimately show ?thesis by blast
    next
      case False
      have "ring_at s (Suc ?a) \<noteq> cur s"
        using c False Suc.prems by (auto simp: ring_at_def mod_if split: if_splits)
      then show ?thesis
        using step full Suc.IH False Suc.prems ring_search_extend [of s ?a] unfolding a by auto
    qed
  qed
qed

section \<open>Erasing the emptied sector\<close>

lemma erase_rel:
  assumes rel: "fs_rel crc n img s" and t: "reloc_target n s" and m: "moved s (nfd s)"
    and k: "k = unat (reloc_sector s)"
  shows "fs_rel crc (n(k := 0)) (erase_sector k img)
      (s\<lparr>curr_address := (curr_address s)[k := Sector_base ! k]\<rparr>)"
    and "flash_vars crc (erase_sector k img) = flash_vars crc img"
proof -
  have k8: "k < 8" "k \<noteq> cur s" using t by (auto simp: k reloc_target_def word_unat_eq_iff)
  have away: "fd_slot (Fs_fd s ! i) div 128 \<noteq> k" if "i < nfd s" for i
    using that m fd_sector_slot [OF rel that] by (auto simp: moved_def k word_unat_eq_iff)
  have unchanged: "erase_sector k img m = img m" if "valid crc (img m) \<or> valid crc (erase_sector k img m)" for m
    using that fs_rel_owner [OF rel, of m] away by (auto split: if_splits)
  have valid: "valid crc (erase_sector k img m) \<longleftrightarrow> valid crc (img m)" for m
    using unchanged [of m] by auto
  show "flash_vars crc (erase_sector k img) = flash_vars crc img"
    using unchanged by (intro invisible_change(2)) blast
  have addr: "(curr_address s)[k := Sector_base ! k] = map (\<lambda>j. slot_addr (128 * j + (n(k := 0)) j)) [0..<8]"
    using k8(1) by (intro nth_equalityI) (auto simp: fs_rel_address [OF rel] nth_list_update Sector_base_slot)
  have "fd_ok crc (erase_sector k img) (Fs_fd s ! i)" if "i < nfd s" for i
    using fs_rel_fd [OF rel that] away [OF that] by (simp add: fd_ok_def)
  moreover have "ring (n(k := 0)) (cur s)" using fs_rel_ring [OF rel] by (auto simp: ring_def)
  ultimately show "fs_rel crc (n(k := 0)) (erase_sector k img)
      (s\<lparr>curr_address := (curr_address s)[k := Sector_base ! k]\<rparr>)"
    using fs_relD [OF rel] layout_erase [OF fs_rel_layout [OF rel], of k] fs_rel_key_inj [OF rel] fs_rel_owner [OF rel]
    unfolding fs_rel_def [of crc "n(k := 0)"] by (simp add: addr [unfolded fs_rel_address [OF rel]] valid)
qed

section \<open>On any flash device\<close>

context flash_device
begin

abbreviation good :: "(key \<Rightarrow> bytes option) \<Rightarrow> (nat \<Rightarrow> nat) \<Rightarrow> 'w Fs \<Rightarrow> bool" where
  "good \<equiv> fs_ok content ok (crc32_calc H)"

abbreviation step :: "(key \<Rightarrow> bytes option) \<Rightarrow> (nat \<Rightarrow> nat) \<Rightarrow> 'w Fs \<Rightarrow> (int \<times> 'w Fs) option \<Rightarrow> bool" where
  "step \<equiv> thread_step content ok (crc32_calc H)"

lemma not_ready_ok:
  assumes "ok (hw s)"
  obtains c w where "flash_not_ready H s = Some (c, s\<lparr>hw := w\<rparr>)" "ok w" "content w = content (hw s)"
  using ready_keeps [OF assms] by (cases "flash_ready H (hw s)") (auto simp: flash_not_ready_def)

lemma restart_timer_ok:
  assumes "ok (hw s)"
  obtains t w where "restart_timer H s = s\<lparr>Fs_timer := t, hw := w\<rparr>" "ok w" "content w = content (hw s)"
  using timer_restart_keeps [OF assms, of "Fs_timer s"]
  by (cases "timer_restart H (Fs_timer s) (hw s)") (auto simp: restart_timer_def)

text \<open>
  The state a step starts from: the index describes the flash; what the thread knows is a
  hypothesis of each lemma, since it changes along the way.
\<close>

lemma stepI:
  assumes "X = Some (r, s')" "ok (hw s')" "fs_rel (crc32_calc H) n' (content (hw s')) s'"
    and "flash_vars (crc32_calc H) (content (hw s')) = v" "th_inv (crc32_calc H) n' (content (hw s')) s'"
    and "curr_sector s' = curr_sector s" "n' (cur s) \<le> Suc (n (cur s))"
    and "length (reloc_buffer s') = 32"
  shows "step v n s X"
  using assms by (auto simp: thread_step_def fs_ok_def)

lemma thread_erase_ok:
  assumes s: "ok (hw s)" "fs_rel (crc32_calc H) n (content (hw s)) s"
      "flash_vars (crc32_calc H) (content (hw s)) = v" "length (reloc_buffer s) = 32"
    and t: "reloc_target n s" "moved s (nfd s)"
    and adm: "\<And>img. image_ok (crc32_calc H) img \<Longrightarrow> flash_vars (crc32_calc H) img = v \<Longrightarrow> adm img"
  shows "step v n s (thread_erase H s)"
proof -
  obtain c w where w: "flash_not_ready H (set_pt 622 s) = Some (c, (set_pt 622 s)\<lparr>hw := w\<rparr>)" "ok w"
      "content w = content (hw s)"
    using not_ready_ok [of "set_pt 622 s"] s(1) by (auto simp: set_pt_def)
  show ?thesis
  proof (cases c)
    case True
    then show ?thesis
      using w s t by (intro stepI [where s' = "s\<lparr>Fs_pt := 622, hw := w\<rparr>" and n' = n])
        (auto simp: thread_erase_def PT_WAIT_WHILE_def PT_WAIT_UNTIL_def set_pt_def th_inv_def)
  next
    case False
    let ?k = "unat (reloc_sector s)" and ?a = "slot_addr (128 * unat (reloc_sector s))"
    have k8: "?k < 8" "?k \<noteq> cur s" using t(1) by (auto simp: reloc_target_def word_unat_eq_iff)
    note er = erase_rel [OF s(2) t refl]
    have "adm (erase_sector ?k (content w))"
      using adm [OF fs_rel_image_ok [OF er(1)]] er(2) s(3) w(3) by simp
    then have e: "ok (flash_erase H ?a w)" "content (flash_erase H ?a w) = erase_sector ?k (content (hw s))"
      using erase_slot [OF w(2) k8(1)] w(3) by auto
    define s2 where "s2 = s\<lparr>Fs_pt := 622, hw := flash_erase H ?a w,
        curr_address := (curr_address s)[?k := Sector_base ! ?k]\<rparr>"
    have "ok (hw s2)" using e(1) by (simp add: s2_def)
    then obtain tm w' where r: "restart_timer H s2 = s2\<lparr>Fs_timer := tm, hw := w'\<rparr>" "ok w'"
        "content w' = content (hw s2)"
      by (rule restart_timer_ok)
    have eq: "thread_erase H s = Some (PT_ENDED, s2\<lparr>Fs_timer := tm, hw := w', Fs_pt := 0\<rparr>)"
      using w(1) False r(1) k8(1)
      by (simp add: thread_erase_def pt_defs PT_WAIT_WHILE_def set_pt_def s2_def Sector_base_slot Let_def)
    have rel': "fs_rel (crc32_calc H) (n(?k := 0)) (content w') (s2\<lparr>Fs_timer := tm, hw := w', Fs_pt := 0\<rparr>)"
      using er(1) e(2) r(3) by (simp add: s2_def)
    show ?thesis
      by (rule stepI [OF eq, where n' = "n(?k := 0)"])
        (use rel' r(2,3) e(2) er(2) s(3,4) k8(2) in \<open>auto simp: s2_def th_inv_def\<close>)
  qed
qed

lemma thread_read_ok:
  assumes s: "ok (hw s)" "fs_rel (crc32_calc H) n (content (hw s)) s"
      "flash_vars (crc32_calc H) (content (hw s)) = v"
    and t: "reloc_target n s" "ridx s < nfd s" "moved s (ridx s)" "picked s"
  shows "step v n s (thread_read H s)"
proof -
  obtain c w where w: "flash_not_ready H (set_pt 576 s) = Some (c, (set_pt 576 s)\<lparr>hw := w\<rparr>)" "ok w"
      "content w = content (hw s)"
    using not_ready_ok [of "set_pt 576 s"] s(1) by (auto simp: set_pt_def)
  show ?thesis
  proof (cases c)
    case True
    then have "thread_read H s = Some (PT_WAITING, s\<lparr>Fs_pt := 576, hw := w\<rparr>)"
      using w(1) by (simp add: thread_read_def PT_WAIT_WHILE_def PT_WAIT_UNTIL_def set_pt_def)
    then show ?thesis
      by (rule stepI [where n' = n]) (use w s t in \<open>auto simp: th_inv_def picked_def\<close>)
  next
    case False
    let ?m = "fd_slot (reloc_fd s)"
    have m: "?m < 1024" "fd_address (reloc_fd s) = slot_addr ?m" "length (reloc_buffer s) = 32"
      using t(4) by (simp_all add: picked_def)
    obtain w' where w': "flash_read H (slot_addr ?m) (reloc_buffer s) w = (content w ?m, w')" "ok w'"
        "content w' = content w"
      using read_slot [OF w(2) m(1,3)] by blast
    define s' where "s' = s\<lparr>reloc_buffer := content w ?m, hw := w', Fs_pt := 596\<rparr>"
    have eq: "thread_read H s = Some (PT_YIELDED, s')"
      using w(1) w'(1) False m(2)
      by (simp add: thread_read_def PT_WAIT_WHILE_def PT_WAIT_UNTIL_def PT_YIELD_def set_pt_def s'_def)
    have "picked s'" using t(4) content_length [OF w(2)] by (simp add: picked_def s'_def)
    moreover have "buffered (crc32_calc H) (content (hw s)) s'"
      using vars_fd [OF s(2) t(2)] t(4) w(3) by (simp add: buffered_def s'_def picked_def data_of_def)
    moreover have "reloc_target n s'" "moved s' (ridx s')"
      using t by (simp_all add: reloc_target_def moved_def s'_def)
    ultimately have "th_inv (crc32_calc H) n (content (hw s)) s'"
      using t(2) by (simp add: th_inv_def s'_def)
    then show ?thesis
      by (intro stepI [OF eq, where n' = n]) (use s w w' content_length [OF w(2)] in \<open>simp_all add: s'_def\<close>)
  qed
qed

lemma thread_for_ok:
  assumes "ok (hw s)" "fs_rel (crc32_calc H) n (content (hw s)) s"
      "flash_vars (crc32_calc H) (content (hw s)) = v"
    and "reloc_target n s" "ridx s \<le> nfd s" "moved s (ridx s)" "length (reloc_buffer s) = 32"
    and adm: "\<And>img. image_ok (crc32_calc H) img \<Longrightarrow> flash_vars (crc32_calc H) img = v \<Longrightarrow> adm img"
  shows "step v n s (thread_for H s)"
  using assms(1-7)
proof (induction "nfd s - ridx s" arbitrary: s rule: less_induct)
  case less
  show ?case
  proof (cases "ridx s < nfd s")
    case False
    then have "\<not> reloc_fd_index s < curr_fd_index s" "ridx s = nfd s"
      using less(6) by (simp_all add: word_less_nat_alt)
    then show ?thesis
      using thread_erase_ok [OF less(2-4,8,5) _ adm] less(7) by (simp add: thread_for.simps [of H s])
  next
    case True
    then have lt: "reloc_fd_index s < curr_fd_index s" by (simp add: word_less_nat_alt)
    let ?d = "Fs_fd s ! ridx s"
    show ?thesis
    proof (cases "fd_sector ?d = reloc_sector s")
      case here: True
      have "picked (s\<lparr>reloc_fd := ?d\<rparr>)"
        using fs_rel_fd [OF less(3) True] fd_sector_slot(1) [OF less(3) True] less(8) here
        by (simp add: picked_def fd_ok_def)
      then have "step v n (s\<lparr>reloc_fd := ?d\<rparr>) (thread_read H (s\<lparr>reloc_fd := ?d\<rparr>))"
        using less True by (intro thread_read_ok) simp_all
      then show ?thesis using lt here by (simp add: thread_for.simps [of H s])
    next
      case away: False
      let ?s = "s\<lparr>reloc_fd_index := reloc_fd_index s + 1\<rparr>"
      have "ridx s < 65535" using True fs_rel_nfd [OF less(3)] by simp
      then have i: "ridx ?s = Suc (ridx s)" by (simp add: unat_word_ariths)
      have "moved ?s (ridx ?s)" using less(7) away unfolding i by (auto simp: moved_def less_Suc_eq)
      then have "step v n ?s (thread_for H ?s)"
        using less(2-6,8) True i by (intro less(1)) simp_all
      then show ?thesis using lt away by (simp add: thread_for.simps [of H s])
    qed
  qed
qed

lemma thread_next_ok:
  assumes "good v n s" "Fs_pt s = 617"
    and adm: "\<And>img. image_ok (crc32_calc H) img \<Longrightarrow> flash_vars (crc32_calc H) img = v \<Longrightarrow> adm img"
  shows "step v n s (thread_next H s)"
proof -
  let ?s = "s\<lparr>reloc_fd_index := reloc_fd_index s + 1\<rparr>"
  have s: "ok (hw s)" "fs_rel (crc32_calc H) n (content (hw s)) s"
      "flash_vars (crc32_calc H) (content (hw s)) = v" "reloc_target n s" "ridx s < nfd s" "moved s (ridx s)"
      "fd_sector (Fs_fd s ! ridx s) \<noteq> reloc_sector s" "length (reloc_buffer s) = 32"
    using assms(1,2) by (auto simp: fs_ok_def th_inv_def)
  have "ridx s < 65535" using s(5) fs_rel_nfd [OF s(2)] by simp
  then have i: "ridx ?s = Suc (ridx s)" by (simp add: unat_word_ariths)
  have "moved ?s (ridx ?s)" using s(6,7) unfolding i by (auto simp: moved_def less_Suc_eq)
  then have "step v n ?s (thread_for H ?s)"
    using s i adm by (intro thread_for_ok) simp_all
  then show ?thesis by (simp add: thread_next_def)
qed

lemma thread_find_ok:
  assumes s: "ok (hw s)" "fs_rel (crc32_calc H) n (content (hw s)) s"
      "flash_vars (crc32_calc H) (content (hw s)) = v" "length (reloc_buffer s) = 32"
    and adm: "\<And>img. image_ok (crc32_calc H) img \<Longrightarrow> flash_vars (crc32_calc H) img = v \<Longrightarrow> adm img"
  shows "step v n s (thread_find H s)"
proof (cases rule: findRelocSector_ok [OF s(2)])
  case 1
  obtain tm w where r: "restart_timer H s = s\<lparr>Fs_timer := tm, hw := w\<rparr>" "ok w" "content w = content (hw s)"
    using restart_timer_ok [OF s(1)] .
  have eq: "thread_find H s = Some (PT_WAITING, s\<lparr>Fs_timer := tm, hw := w, Fs_pt := 0\<rparr>)"
    using 1 r(1) by (simp add: thread_find_def PT_RESTART_def PT_INIT_def set_pt_def)
  show ?thesis
    by (rule stepI [OF eq, where n' = n]) (use s r in \<open>simp_all add: th_inv_def\<close>)
next
  case (2 k)
  let ?s = "s\<lparr>reloc_sector := word_of_nat k, reloc_fd_index := 0\<rparr>"
  have "k < 256" using 2(3) by simp
  then have "unat (word_of_nat k :: u8) = k" by (simp add: unat_of_nat)
  then have "reloc_target n ?s"
    using 2(3-5) by (auto simp: reloc_target_def word_unat_eq_iff)
  moreover have "moved ?s (ridx ?s)" by (simp add: moved_def)
  ultimately have "step v n ?s (thread_for H ?s)"
    using s adm by (intro thread_for_ok) simp_all
  then show ?thesis using 2(2) by (simp add: thread_find_def)
qed

lemma thread_wait_ok:
  assumes s: "ok (hw s)" "fs_rel (crc32_calc H) n (content (hw s)) s"
      "flash_vars (crc32_calc H) (content (hw s)) = v" "length (reloc_buffer s) = 32"
  shows "step v n s (thread_wait H flag s)"
proof -
  obtain c w where w: "timer_expired H (Fs_timer s) (hw s) = (c, w)" "ok w" "content w = content (hw s)"
    using timer_expired_keeps [OF s(1), of "Fs_timer s"] by (cases "timer_expired H (Fs_timer s) (hw s)") auto
  consider "flag = 1" | "flag \<noteq> 1" "c \<noteq> 0" | "flag \<noteq> 1" "c = 0" by blast
  then show ?thesis
  proof cases
    case 1
    then have "thread_wait H flag s = Some (PT_YIELDED, s\<lparr>Fs_pt := 556\<rparr>)"
      by (simp add: thread_wait_def PT_WAIT_UNTIL_def PT_YIELD_def set_pt_def)
    then show ?thesis by (rule stepI [where n' = n]) (use s in \<open>simp_all add: th_inv_def\<close>)
  next
    case 2
    then have "thread_wait H flag s = Some (PT_YIELDED, s\<lparr>hw := w, Fs_pt := 556\<rparr>)"
      using w(1) by (simp add: thread_wait_def PT_WAIT_UNTIL_def PT_YIELD_def set_pt_def)
    then show ?thesis by (rule stepI [where n' = n]) (use s w in \<open>simp_all add: th_inv_def\<close>)
  next
    case 3
    then have "thread_wait H flag s = Some (PT_WAITING, s\<lparr>Fs_pt := 555, hw := w\<rparr>)"
      using w(1) by (simp add: thread_wait_def PT_WAIT_UNTIL_def set_pt_def)
    then show ?thesis by (rule stepI [where n' = n]) (use s w in \<open>simp_all add: th_inv_def\<close>)
  qed
qed

subsection \<open>Writes and the thread while the active sector has room\<close>

lemma write_after_update:
  assumes upd: "updateSector (fs_thread H) s = Some (r, s1)" "\<not> r < 0"
    and g: "good v n s1" and room: "n (cur s1) < 128"
    and len: "unat block_len \<le> 28" "unat block_len \<le> length block_data"
    and key: "key = Key name (ucast ext)"
    and free: "v key \<noteq> None \<or> card (dom v) < FD_MAX"
    and v': "v' = v(key \<mapsto> stored block_data block_len)"
    and adm: "\<And>img. between (crc32_calc H) v v' img \<Longrightarrow> adm img"
  shows "\<exists>s'. fs_write H name ext block_data block_len s = Some (0, s') \<and>
    good v' (n(cur s1 := Suc (n (cur s1)))) s' \<and> written key s1 s'"
proof -
  have s: "ok (hw s1)" "fs_rel (crc32_calc H) n (content (hw s1)) s1"
      "v = flash_vars (crc32_calc H) (content (hw s1))" "length (reloc_buffer s1) = 32"
      "th_inv (crc32_calc H) n (content (hw s1)) s1"
    using g by (auto simp: fs_ok_def)
  have "flash_vars (crc32_calc H) (content (hw s1)) key \<noteq> None \<or> nfd s1 < FD_MAX"
    using free s(3) card_vars [OF s(2)] by simp
  then obtain s' where w: "fs_write H name ext block_data block_len s = Some (0, s')" "ok (hw s')"
      "fs_rel (crc32_calc H) (n(cur s1 := Suc (n (cur s1)))) (content (hw s')) s'"
      "flash_vars (crc32_calc H) (content (hw s')) = v'" "written key s1 s'"
    using fs_write_with_ok [where upd = "updateSector (fs_thread H)", OF upd s(1,2) room len key _ s(3) v' adm]
    by (auto simp: fs_write_unfold)
  have "length (reloc_buffer s') = 32" using w(5) s(4) by (simp add: written_def)
  moreover have "th_inv (crc32_calc H) (n(cur s1 := Suc (n (cur s1)))) (content (hw s')) s'"
    using w s v' by (intro written_th_inv [OF w(5,3) refl room fs_rel_curr [OF s(2)] _ s(5)]) simp
  ultimately show ?thesis using w by (auto simp: fs_ok_def)
qed

lemma update_room:
  assumes "good v n s" "n (cur s) < 128"
  shows "updateSector (fs_thread H) s = Some (0, s)"
  using assms curr_full_iff [of "crc32_calc H" n "content (hw s)" s]
  by (intro updateSector_not_full) (simp add: fs_ok_def)

text \<open>
  Suspended in its write loop with the block still in place, the thread stores the value the
  variable has.
\<close>

lemma reloc_write:
  assumes g: "good v n s" and pt: "Fs_pt s \<in> {596, 610}"
    and same: "fd_address (Fs_fd s ! ridx s) = fd_address (reloc_fd s)"
  shows "v (fd_key (reloc_fd s)) = Some (drop 4 (reloc_buffer s))"
    and "v(fd_key (reloc_fd s) \<mapsto> stored (drop 4 (reloc_buffer s)) 28) = v"
    and "reloc_target n s" "ridx s < nfd s" "moved s (ridx s)" "fd_key (Fs_fd s ! ridx s) = fd_key (reloc_fd s)"
    and "length (drop 4 (reloc_buffer s)) = 28"
    and "Key (h_name (fd_header (reloc_fd s))) (ucast (ucast (h_ext (fd_header (reloc_fd s))) :: u8)) = fd_key (reloc_fd s)"
proof -
  have i: "th_inv (crc32_calc H) n (content (hw s)) s" "flash_vars (crc32_calc H) (content (hw s)) = v"
      "length (reloc_buffer s) = 32"
    using g by (auto simp: fs_ok_def)
  show "reloc_target n s" "ridx s < nfd s" "moved s (ridx s)" "fd_key (Fs_fd s ! ridx s) = fd_key (reloc_fd s)"
    using i(1) pt by (auto simp: th_inv_def picked_def)
  show "v (fd_key (reloc_fd s)) = Some (drop 4 (reloc_buffer s))"
    using i(1,2) pt same by (auto simp: th_inv_def buffered_def)
  moreover show "length (drop 4 (reloc_buffer s)) = 28" using i(3) by simp
  ultimately show "v(fd_key (reloc_fd s) \<mapsto> stored (drop 4 (reloc_buffer s)) 28) = v"
    by (simp add: stored_def fun_upd_idem)
  have "ucast (ucast (h_ext (fd_header (reloc_fd s))) :: u8) = h_ext (fd_header (reloc_fd s))"
    by (rule bit_word_eqI) (auto simp: bit_simps dest: bit_imp_le_length)
  then show "Key (h_name (fd_header (reloc_fd s))) (ucast (ucast (h_ext (fd_header (reloc_fd s))) :: u8)) = fd_key (reloc_fd s)"
    by (simp add: hdr_key_def)
qed

text \<open>
  One attempt of that loop, after \<open>updateSector\<close> left \<open>s1\<close>: the thread is at 617, or
  where it was, and still at the same descriptor.
\<close>

lemma thread_write_after_update:
  assumes upd: "updateSector (fs_thread H) s = Some (r, s1)" "\<not> r < 0"
    and g: "good v n s" "good v n1 s1" and room: "n1 (cur s1) < 128"
    and pt: "Fs_pt s \<in> {596, 610}" and same: "fd_address (Fs_fd s ! ridx s) = fd_address (reloc_fd s)"
    and at: "reloc_target n1 s1" "ridx s1 < nfd s1" "moved s1 (ridx s1)"
      "fd_key (Fs_fd s1 ! ridx s1) = fd_key (reloc_fd s)"
    and adm: "\<And>img. image_ok (crc32_calc H) img \<Longrightarrow> flash_vars (crc32_calc H) img = v \<Longrightarrow> adm img"
  shows "\<exists>s'. thread_write (fs_write H) s = Some (PT_YIELDED, s'\<lparr>Fs_pt := 617\<rparr>) \<and>
    good v (n1(cur s1 := Suc (n1 (cur s1)))) (s'\<lparr>Fs_pt := 617\<rparr>) \<and> written (fd_key (reloc_fd s)) s1 s'"
proof -
  note rw = reloc_write [OF g(1) pt same]
  have "v (fd_key (reloc_fd s)) \<noteq> None \<or> card (dom v) < FD_MAX" using rw(1) by simp
  then obtain s' where w: "fs_write H (h_name (fd_header (reloc_fd s))) (ucast (h_ext (fd_header (reloc_fd s))))
        (drop 4 (reloc_buffer s)) 28 s = Some (0, s')"
      "good v (n1(cur s1 := Suc (n1 (cur s1)))) s'" "written (fd_key (reloc_fd s)) s1 s'"
    using write_after_update [OF upd g(2) room, of 28 "drop 4 (reloc_buffer s)" "fd_key (reloc_fd s)"
        "h_name (fd_header (reloc_fd s))" "ucast (h_ext (fd_header (reloc_fd s)))" v] rw adm
    by (auto simp: between_def)
  have "th_inv (crc32_calc H) (n1(cur s1 := Suc (n1 (cur s1)))) (content (hw s')) (s'\<lparr>Fs_pt := 617\<rparr>)"
    using w(2) at by (intro written_th_inv_617 [OF w(3) _ refl at]) (simp add: fs_ok_def)
  then have "good v (n1(cur s1 := Suc (n1 (cur s1)))) (s'\<lparr>Fs_pt := 617\<rparr>)"
    using w(2) by (simp add: fs_ok_def)
  moreover have "thread_write (fs_write H) s = Some (PT_YIELDED, s'\<lparr>Fs_pt := 617\<rparr>)"
    using w(1) by (simp add: thread_write_def PT_YIELD_def set_pt_def)
  ultimately show ?thesis using w(3) by blast
qed

text \<open>The steps that write nothing to the active sector.\<close>

lemma thread_other_ok:
  assumes g: "good v n s"
    and other: "Fs_pt s \<in> {596, 610} \<longrightarrow> Fs_pt s = 596 \<and> fd_address (Fs_fd s ! ridx s) \<noteq> fd_address (reloc_fd s)"
    and adm: "\<And>img. image_ok (crc32_calc H) img \<Longrightarrow> flash_vars (crc32_calc H) img = v \<Longrightarrow> adm img"
  shows "step v n s (fs_thread_with H writer flag s)"
proof -
  have s: "ok (hw s)" "fs_rel (crc32_calc H) n (content (hw s)) s"
      "flash_vars (crc32_calc H) (content (hw s)) = v" "length (reloc_buffer s) = 32"
    and t: "th_inv (crc32_calc H) n (content (hw s)) s"
    using g by (auto simp: fs_ok_def)
  consider "Fs_pt s \<in> {0, 555}" | "Fs_pt s = 556" | "Fs_pt s = 576" | "Fs_pt s = 596" | "Fs_pt s = 617" | "Fs_pt s = 622"
    using t other unfolding th_inv_def by auto
  then show ?thesis
  proof cases
    case 1
    then show ?thesis using thread_wait_ok [OF s] by (auto simp: fs_thread_with_def)
  next
    case 2
    then show ?thesis using thread_find_ok [OF s adm] by (simp add: fs_thread_with_def)
  next
    case 3
    then have "reloc_target n s" "ridx s < nfd s" "moved s (ridx s)" "picked s"
      using t by (auto simp: th_inv_def)
    then show ?thesis using thread_read_ok [OF s(1-3)] 3 by (simp add: fs_thread_with_def)
  next
    case 4
    then have eq: "fs_thread_with H writer flag s = Some (PT_YIELDED, s\<lparr>Fs_pt := 617\<rparr>)"
      using other by (simp add: fs_thread_with_def thread_check_def PT_YIELD_def set_pt_def)
    have "th_inv (crc32_calc H) n (content (hw s)) (s\<lparr>Fs_pt := 617\<rparr>)"
      using t 4 other by (auto simp: th_inv_def picked_def)
    then show ?thesis by (intro stepI [OF eq, where n' = n]) (use s in simp_all)
  next
    case 5
    then show ?thesis using thread_next_ok [OF g 5 adm] by (simp add: fs_thread_with_def)
  next
    case 6
    then have "reloc_target n s" "moved s (nfd s)" using t by (auto simp: th_inv_def)
    then have "step v n s (thread_erase H s)" by (rule thread_erase_ok [OF s]) (rule adm)
    then show ?thesis using 6 by (simp add: fs_thread_with_def)
  qed
qed

text \<open>With room, a suspended write succeeds and leaves the thread at 617.\<close>

lemma thread_reloc_room:
  assumes g: "good v n s" and room: "n (cur s) < 128"
    and pt: "Fs_pt s \<in> {596, 610}" and same: "fd_address (Fs_fd s ! ridx s) = fd_address (reloc_fd s)"
    and adm: "\<And>img. image_ok (crc32_calc H) img \<Longrightarrow> flash_vars (crc32_calc H) img = v \<Longrightarrow> adm img"
  shows "\<exists>s'. fs_thread H flag s = Some (PT_YIELDED, s'\<lparr>Fs_pt := 617\<rparr>) \<and>
    good v (n(cur s := Suc (n (cur s)))) (s'\<lparr>Fs_pt := 617\<rparr>) \<and> written (fd_key (reloc_fd s)) s s'"
proof -
  note rw = reloc_write [OF g pt same]
  have "fs_thread H flag s = thread_write (fs_write H) s"
    using pt same by (auto simp: fs_thread_def fs_thread_with_def thread_check_def)
  moreover have "\<exists>s'. thread_write (fs_write H) s = Some (PT_YIELDED, s'\<lparr>Fs_pt := 617\<rparr>) \<and>
      good v (n(cur s := Suc (n (cur s)))) (s'\<lparr>Fs_pt := 617\<rparr>) \<and> written (fd_key (reloc_fd s)) s s'"
    by (rule thread_write_after_update [OF update_room [OF g room] _ g g room pt same rw(3-6)])
      (simp, rule adm)
  ultimately show ?thesis by simp
qed

lemma thread_room_ok:
  assumes g: "good v n s" and room: "n (cur s) < 128"
    and adm: "\<And>img. image_ok (crc32_calc H) img \<Longrightarrow> flash_vars (crc32_calc H) img = v \<Longrightarrow> adm img"
  shows "step v n s (fs_thread H flag s)"
proof (cases "Fs_pt s \<in> {596, 610} \<and> fd_address (Fs_fd s ! ridx s) = fd_address (reloc_fd s)")
  case True
  then obtain s' where "fs_thread H flag s = Some (PT_YIELDED, s'\<lparr>Fs_pt := 617\<rparr>)"
      "good v (n(cur s := Suc (n (cur s)))) (s'\<lparr>Fs_pt := 617\<rparr>)" "written (fd_key (reloc_fd s)) s s'"
    using thread_reloc_room [OF g room _ _ adm] by blast
  then show ?thesis by (auto simp: thread_step_def written_def)
next
  case False
  have "Fs_pt s \<noteq> 610"
  proof
    assume "Fs_pt s = 610"
    then have "\<forall>k < 8. n k = 128" "cur s < 8"
      using g fs_rel_curr [of "crc32_calc H" n "content (hw s)" s] by (auto simp: fs_ok_def th_inv_def)
    then show False using room by simp
  qed
  then show ?thesis
    unfolding fs_thread_def using False by (intro thread_other_ok [OF g _ adm]) auto
qed

subsection \<open>The active sector changes\<close>

lemma ring_at_onto:
  assumes "cur s < 8" "k < 8"
  obtains i where "0 < i" "i \<le> 8" "ring_at s i = k"
proof (cases "k = cur s")
  case True
  then show thesis using assms by (intro that [of 8]) (simp_all add: ring_at_def)
next
  case False
  show thesis
    by (rule that [of "(8 + k - cur s) mod 8"])
      (use assms False in \<open>auto simp: ring_at_def mod_simps mod_if\<close>)
qed

lemma next_sector_ok:
  assumes rel: "fs_rel crc n img s"
  obtains (none) "next_sector_loop s (curr_sector s) = Some None" "\<forall>k < 8. n k = 128"
  | (found) m where "next_sector_loop s (curr_sector s) = Some (Some m)" "unat m < 8" "n (unat m) < 128"
proof -
  have c: "cur s < 8" using fs_rel_curr [OF rel] .
  have lt: "ring_at s i < 8" for i by (simp add: ring_at_def)
  have full: "SECTOR_IS_FULL s (ring_at s i) \<longleftrightarrow> n (ring_at s i) = 128" for i
    by (rule full_iff [OF rel lt])
  have le: "n (ring_at s i) \<le> 128" for i
    using fill_le [OF fs_rel_layout [OF rel] lt] .
  have start: "word_of_nat (ring_at s (8 - 8)) = curr_sector s" using c by (simp add: ring_at_def)
  obtain r where r: "next_sector_loop s (curr_sector s) = Some r" "ring_search s 0 r"
    using next_sector_loop_spec [OF c, of 8, unfolded start] by auto
  show thesis
  proof (cases r)
    case None
    have "n k = 128" if k: "k < 8" for k
      by (rule ring_at_onto [OF c k]) (use None r(2) in \<open>auto simp: ring_search_def full\<close>)
    then show thesis using none r(1) None by blast
  next
    case (Some m)
    then obtain i where i: "m = word_of_nat (ring_at s i)" "n (ring_at s i) \<noteq> 128"
      using r(2) by (auto simp: ring_search_def full)
    have "ring_at s i < 256" using lt [of i] by linarith
    then have "unat m = ring_at s i" by (simp add: i(1) unat_of_nat)
    then show thesis using found [of m] r(1) Some i(2) lt [of i] le [of i] by simp
  qed
qed

text \<open>Another sector becomes the active one.\<close>

lemma next_sector_good:
  assumes g: "good v n s" and full: "n (cur s) = 128" and m: "unat m < 8" "n (unat m) < 128"
  shows "good v n (s\<lparr>curr_sector := m\<rparr>)" "n (unat m) = 0"
proof -
  have s: "fs_rel (crc32_calc H) n (content (hw s)) s" "th_inv (crc32_calc H) n (content (hw s)) s"
    using g by (auto simp: fs_ok_def)
  show "n (unat m) = 0" using m full fs_rel_ring [OF s(1)] by (auto simp: ring_def)
  have "ring n (unat m)" using m(1) full fs_rel_ring [OF s(1)] by (auto simp: ring_def)
  then have "fs_rel (crc32_calc H) n (content (hw s)) (s\<lparr>curr_sector := m\<rparr>)" using s(1) by (simp add: fs_rel_def)
  moreover have "reloc_target n s \<Longrightarrow> reloc_target n (s\<lparr>curr_sector := m\<rparr>)"
    using m(2) by (auto simp: reloc_target_def)
  then have "th_inv (crc32_calc H) n (content (hw s)) (s\<lparr>curr_sector := m\<rparr>)" using s(2) by (auto simp: th_inv_def)
  ultimately show "good v n (s\<lparr>curr_sector := m\<rparr>)" using g by (simp add: fs_ok_def)
qed

text \<open>
  What the thread that copies a block relies on when its own \<open>fs_write\<close> calls \<open>updateSector\<close>: it
  is still at the same variable afterwards.
\<close>

definition same_move :: "(nat \<Rightarrow> nat) \<Rightarrow> 'w Fs \<Rightarrow> 'w Fs \<Rightarrow> bool" where
  "same_move n1 s s1 \<longleftrightarrow> reloc_target n1 s1 \<and> ridx s1 < nfd s1 \<and> moved s1 (ridx s1) \<and>
     fd_key (Fs_fd s1 ! ridx s1) = fd_key (reloc_fd s)"

lemma next_sector_same_move:
  assumes g: "good v n s" "good v n (s\<lparr>curr_sector := m\<rparr>)" and room: "n (unat m) < 128"
    and adm: "\<And>img. image_ok (crc32_calc H) img \<Longrightarrow> flash_vars (crc32_calc H) img = v \<Longrightarrow> adm img"
    and t: "fs_thread H 1 (s\<lparr>curr_sector := m\<rparr>) = Some (r, s1)" "good v n1 s1"
    and pt: "Fs_pt s \<in> {596, 610}" "fd_address (Fs_fd s ! ridx s) = fd_address (reloc_fd s)"
  shows "same_move n1 s s1"
proof -
  let ?s = "s\<lparr>curr_sector := m\<rparr>"
  have "n (cur ?s) < 128" "Fs_pt ?s \<in> {596, 610}" "fd_address (Fs_fd ?s ! ridx ?s) = fd_address (reloc_fd ?s)"
    using room pt by simp_all
  then have "\<exists>s'. fs_thread H 1 ?s = Some (PT_YIELDED, s'\<lparr>Fs_pt := 617\<rparr>) \<and> written (fd_key (reloc_fd ?s)) ?s s'"
    using thread_reloc_room [OF g(2) _ _ _ adm] by blast
  then obtain s' where s': "s1 = s'\<lparr>Fs_pt := 617\<rparr>" "written (fd_key (reloc_fd s)) ?s s'"
    using t(1) by auto
  then have "th_inv (crc32_calc H) n1 (content (hw s1)) s1" "Fs_pt s1 = 617" using t(2) by (auto simp: fs_ok_def)
  then have "reloc_target n1 s1 \<and> ridx s1 < nfd s1 \<and> moved s1 (ridx s1)" by (auto simp: th_inv_def)
  moreover have "fd_key (Fs_fd s1 ! ridx s1) = fd_key (reloc_fd s)"
    using s' reloc_write(4,6) [OF g(1) pt] by (auto simp: written_def)
  ultimately show ?thesis by (simp add: same_move_def)
qed

text \<open>\<open>updateSector\<close> gives up only when every sector is full.\<close>

lemma updateSector_ok:
  assumes g: "good v n s"
    and adm: "\<And>img. image_ok (crc32_calc H) img \<Longrightarrow> flash_vars (crc32_calc H) img = v \<Longrightarrow> adm img"
  obtains (none) "updateSector (fs_thread H) s = Some (-1, s)" "\<forall>k < 8. n k = 128"
  | (room) r n1 s1 where "updateSector (fs_thread H) s = Some (r, s1)" "\<not> r < 0"
      "good v n1 s1" "n1 (cur s1) < 128" "\<exists>k < 8. n k \<noteq> 128"
      "Fs_pt s \<in> {596, 610} \<Longrightarrow> fd_address (Fs_fd s ! ridx s) = fd_address (reloc_fd s) \<Longrightarrow> same_move n1 s s1"
proof (cases "n (cur s) = 128")
  case False
  have rel: "fs_rel (crc32_calc H) n (content (hw s)) s" using g by (simp add: fs_ok_def)
  then have lt: "n (cur s) < 128"
    using False fill_le [OF fs_rel_layout [OF rel] fs_rel_curr [OF rel]] by simp
  show thesis
  proof (rule room [of 0 s n])
    show "\<exists>k < 8. n k \<noteq> 128" using False fs_rel_curr [OF rel] by blast
  qed (use update_room [OF g lt] g lt reloc_write(3-6) [OF g] in \<open>auto simp: same_move_def\<close>)
next
  case True
  have rel: "fs_rel (crc32_calc H) n (content (hw s)) s" using g by (simp add: fs_ok_def)
  have full: "SECTOR_IS_FULL s (cur s)" using full_iff [OF rel fs_rel_curr [OF rel]] True by simp
  show thesis
  proof (cases rule: next_sector_ok [OF rel])
    case 1
    then show thesis using full by (intro none) (simp_all add: updateSector_def)
  next
    case (2 m)
    let ?s = "s\<lparr>curr_sector := m\<rparr>"
    note m = next_sector_good [OF g True 2(2,3)]
    have room': "n (cur ?s) < 128" using 2(3) by simp
    obtain r s1 n1 where t: "fs_thread H 1 ?s = Some (r, s1)" "good v n1 s1" "cur s1 = unat m" "n1 (unat m) \<le> 1"
      using thread_room_ok [OF m(1) room' adm, of 1] m(2) by (auto simp: thread_step_def)
    show thesis
    proof (rule room [of 1 s1 n1])
      show "updateSector (fs_thread H) s = Some (1, s1)" using full 2(1) t(1) by (simp add: updateSector_def)
      show "\<exists>k < 8. n k \<noteq> 128" using 2(2,3) by (intro exI [of _ "unat m"]) simp
      show "n1 (cur s1) < 128" using t(3,4) by simp
      show "same_move n1 s s1"
        if "Fs_pt s \<in> {596, 610}" "fd_address (Fs_fd s ! ridx s) = fd_address (reloc_fd s)"
        by (rule next_sector_same_move [OF g m(1) 2(3) adm t(1,2) that])
    qed (use t(2) in simp_all)
  qed
qed

subsection \<open>The three operations in any state\<close>

lemma fs_write_good:
  assumes g: "good v n s"
    and len: "unat block_len \<le> 28" "unat block_len \<le> length block_data"
    and key: "key = Key name (ucast ext)"
    and free: "v key \<noteq> None \<or> card (dom v) < FD_MAX"
    and v': "v' = v(key \<mapsto> stored block_data block_len)"
    and adm: "\<And>img. between (crc32_calc H) v v' img \<Longrightarrow> adm img"
  obtains (stuck) "\<forall>k < 8. n k = 128" "fs_write H name ext block_data block_len s = Some (-2, s)"
  | (written) s' n' where "\<exists>k < 8. n k \<noteq> 128"
      "fs_write H name ext block_data block_len s = Some (0, s')" "good v' n' s'"
proof -
  have adm': "adm img" if "image_ok (crc32_calc H) img" "flash_vars (crc32_calc H) img = v" for img
    using that adm by (simp add: between_def)
  show thesis
  proof (cases rule: updateSector_ok [OF g adm'])
    case 3
    then show thesis using len stuck by (simp add: fs_write_unfold fs_write_with_def)
  next
    case (4 r n1 s1)
    show thesis
      using write_after_update [OF 4(1-4) len key free v' adm] written 4(5) by blast
  qed auto
qed

lemma fs_thread_good:
  assumes g: "good v n s"
    and adm: "\<And>img. image_ok (crc32_calc H) img \<Longrightarrow> flash_vars (crc32_calc H) img = v \<Longrightarrow> adm img"
  shows "\<exists>r s' n'. fs_thread H flag s = Some (r, s') \<and> good v n' s'"
proof (cases "Fs_pt s \<in> {596, 610} \<and> fd_address (Fs_fd s ! ridx s) = fd_address (reloc_fd s)")
  case False
  have "Fs_pt s \<noteq> 610 \<or> fd_address (Fs_fd s ! ridx s) = fd_address (reloc_fd s)"
    using g by (auto simp: fs_ok_def th_inv_def)
  then have "step v n s (fs_thread H flag s)"
    unfolding fs_thread_def using False by (intro thread_other_ok [OF g _ adm]) auto
  then show ?thesis by (auto simp: thread_step_def)
next
  case True
  then have pt: "Fs_pt s \<in> {596, 610}" and same: "fd_address (Fs_fd s ! ridx s) = fd_address (reloc_fd s)"
    by auto
  have eq: "fs_thread H flag s = thread_write (fs_write H) s"
    using pt same by (auto simp: fs_thread_def fs_thread_with_def thread_check_def)
  show ?thesis
  proof (cases rule: updateSector_ok [OF g adm])
    case 3
    then have "fs_thread H flag s = Some (PT_YIELDED, s\<lparr>Fs_pt := 610\<rparr>)"
      unfolding eq by (simp add: thread_write_def fs_write_unfold fs_write_with_def PT_YIELD_def set_pt_def)
    moreover have "good v n (s\<lparr>Fs_pt := 610\<rparr>)"
      using g pt same 3(2) by (auto simp: fs_ok_def th_inv_def)
    ultimately show ?thesis by blast
  next
    case (4 r n1 s1)
    show ?thesis
      unfolding eq
      using thread_write_after_update [OF 4(1,2) g 4(3,4) pt same _ _ _ _ adm] 4(6) [OF pt same]
      unfolding same_move_def by blast
  qed auto
qed

end

end
