(* ===== verification/FsRead.thy ===== *)
theory FsRead
  imports FsThread
begin

text \<open>
  \<open>fs_read\<close> returns what the flash says: the value of the variable, or -1. Extensions that
  do not fit the header's three bits are never found.
\<close>

lemma ext_small: "unat (e :: u8) < 8 \<Longrightarrow> ucast (ucast e :: 3 word) = e"
proof -
  assume e: "unat e < 8"
  have "unat (take_bit 3 e) = unat e"
    using e by (simp add: unsigned_take_bit_eq take_bit_nat_eq_self del: unsigned_ucast_eq)
  then have "take_bit 3 e = e" by (simp add: word_unat_eq_iff)
  moreover have "ucast (ucast e :: 3 word) = take_bit 3 e"
    by (rule bit_word_eqI) (auto simp: bit_simps dest: bit_imp_le_length)
  ultimately show ?thesis by simp
qed

lemma ucast3_less: "unat (ucast (x :: 3 word) :: u8) < 8"
  using unsigned_less [of x, where ?'a = nat] by (simp add: unsigned_ucast_eq take_bit_nat_eq_self)

lemma ucast3_back: "ucast (ucast (x :: 3 word) :: u8) = x"
  by (rule bit_word_eqI) (auto simp: bit_simps dest: bit_imp_le_length)

lemma ext_large: "8 \<le> unat (e :: u8) \<Longrightarrow> ucast (x :: 3 word) \<noteq> e"
  using ucast3_less [of x] by auto

lemma fd_search_large:
  assumes "8 \<le> unat ext"
  shows "fd_search fds name ext 0 n = n"
proof (rule ccontr)
  assume "fd_search fds name ext 0 n \<noteq> n"
  then have "fd_search fds name ext 0 n < n" using fd_search_spec [of 0 n fds name ext] by simp
  then have "ucast (h_ext (fd_header (fds ! fd_search fds name ext 0 n))) = ext"
    using fd_search_spec [of 0 n fds name ext] by simp
  with ext_large [OF assms] show False by blast
qed

lemma fd_search_small:
  assumes rel: "fs_rel crc n img s" and ext: "unat ext < 8"
    and i: "i = fd_search (Fs_fd s) name ext 0 (nfd s)" and key: "key = Key name (ucast ext)"
  obtains (found) "i < nfd s" "fd_key (Fs_fd s ! i) = key"
      "flash_vars crc img key = Some (data_of (img (fd_slot (Fs_fd s ! i))))"
    | (absent) "i = nfd s" "flash_vars crc img key = None"
proof -
  define h where "h = zero_header\<lparr>h_name := name, h_ext := ucast ext\<rparr>"
  have "i = fd_search (Fs_fd s) (h_name h) (ucast (h_ext h)) 0 (nfd s)" "hdr_key h = key"
    using i ext_small [OF ext] key by (simp_all add: h_def hdr_key_def)
  then show thesis
    using fd_search_cases [of i "Fs_fd s" h "nfd s"] found absent vars_fd [OF rel, of i]
      vars_None_iff [OF rel, of key] by metis
qed

lemma fs_read_large:
  "8 \<le> unat ext \<Longrightarrow> fs_read H name ext buf block_len s = Some (-1, buf, s)"
  by (simp add: fs_read_def fd_search_large)

context flash_device
begin

lemma fs_read_good:
  assumes g: "good v n s" and ext: "unat ext < 8"
    and len: "unat block_len \<le> 28" "unat block_len \<le> length buf"
  shows "case v (Key name (ucast ext)) of
      Some data \<Rightarrow> \<exists>w. fs_read H name ext buf block_len s =
          Some (0, take (unat block_len) data @ drop (unat block_len) buf, s\<lparr>hw := w\<rparr>) \<and>
        good v n (s\<lparr>hw := w\<rparr>) \<and> content w = content (hw s)
    | None \<Rightarrow> fs_read H name ext buf block_len s = Some (-1, buf, s)"
proof -
  have s: "ok (hw s)" "fs_rel (crc32_calc H) n (content (hw s)) s"
      "flash_vars (crc32_calc H) (content (hw s)) = v"
    using g by (auto simp: fs_ok_def)
  define i where "i = fd_search (Fs_fd s) name ext 0 (nfd s)"
  show ?thesis
  proof (cases rule: fd_search_small [OF s(2) ext i_def refl])
    case 1
    let ?m = "fd_slot (Fs_fd s ! i)"
    have m: "?m < 1024" "fd_address (Fs_fd s ! i) = slot_addr ?m"
      using fs_rel_fd [OF s(2) 1(1)] by (auto simp: fd_ok_def)
    obtain w where w: "flash_wait H (hw s) = Some w" "ok w" "content w = content (hw s)"
      using wait_returns [OF s(1)] by blast
    obtain w' where w': "flash_read H (slot_addr ?m) (replicate 32 0) w = (content w ?m, w')" "ok w'"
        "content w' = content w"
      using read_slot [OF w(2) m(1), of "replicate 32 0"] by auto
    have "length (drop 4 (content w ?m)) = 28" using content_length [OF w(2)] by simp
    then have "fs_read H name ext buf block_len s =
        Some (0, take (unat block_len) (data_of (content (hw s) ?m)) @ drop (unat block_len) buf, s\<lparr>hw := w'\<rparr>)"
      using 1(1) w(1) w'(1) m(2) len w(3)
      by (simp add: fs_read_def i_def [symmetric] memcpy_def data_of_def Let_def)
    moreover have "good v n (s\<lparr>hw := w'\<rparr>)" using g w'(2,3) w(3) by (simp add: fs_ok_def)
    ultimately show ?thesis using 1(3) s(3) w'(3) w(3) by auto
  next
    case 2
    then show ?thesis using s(3) by (simp add: fs_read_def i_def [symmetric])
  qed
qed

lemma fs_read_missing:
  assumes g: "good v n s" and ext: "unat ext < 8" and v: "v (Key name (ucast ext)) = None"
  shows "fs_read H name ext buf block_len s = Some (-1, buf, s)"
proof -
  have s: "fs_rel (crc32_calc H) n (content (hw s)) s" "flash_vars (crc32_calc H) (content (hw s)) = v"
    using g by (auto simp: fs_ok_def)
  define i where "i = fd_search (Fs_fd s) name ext 0 (nfd s)"
  show ?thesis
    by (cases rule: fd_search_small [OF s(1) ext i_def refl])
      (use s(2) v in \<open>simp_all add: fs_read_def i_def [symmetric]\<close>)
qed

text \<open>Asked for more than the 28 bytes of a block, it copies from beyond its buffer.\<close>

lemma fs_read_overrun:
  assumes g: "good v n s" and ext: "unat ext < 8" and v: "v (Key name (ucast ext)) \<noteq> None"
    and len: "28 < unat block_len"
  shows "fs_read H name ext buf block_len s = None"
proof -
  have s: "ok (hw s)" "fs_rel (crc32_calc H) n (content (hw s)) s"
      "flash_vars (crc32_calc H) (content (hw s)) = v"
    using g by (auto simp: fs_ok_def)
  define i where "i = fd_search (Fs_fd s) name ext 0 (nfd s)"
  show ?thesis
  proof (cases rule: fd_search_small [OF s(2) ext i_def refl])
    case 1
    let ?m = "fd_slot (Fs_fd s ! i)"
    have m: "?m < 1024" "fd_address (Fs_fd s ! i) = slot_addr ?m"
      using fs_rel_fd [OF s(2) 1(1)] by (auto simp: fd_ok_def)
    obtain w where w: "flash_wait H (hw s) = Some w" "ok w"
      using wait_returns [OF s(1)] by blast
    obtain w' where w': "flash_read H (slot_addr ?m) (replicate 32 0) w = (content w ?m, w')"
      using read_slot [OF w(2) m(1), of "replicate 32 0"] by auto
    have "length (drop 4 (content w ?m)) = 28" using content_length [OF w(2)] by simp
    then show ?thesis
      using 1(1) w(1) w' m(2) len by (simp add: fs_read_def i_def [symmetric] memcpy_def Let_def)
  next
    case 2
    then show ?thesis using s(3) v by simp
  qed
qed

end

end
