(* ===== verification/Recovery.thy ===== *)
theory Recovery
  imports FsThread
begin

text \<open>
  Start-up on any well-formed image: the scan indexes each variable once, drops the older of
  two blocks a power cut left, and ends in the invariant of the running system with the
  variables the image held. \<open>image_ok\<close> is all it needs, so it also recovers the images
  in the middle of a write.
\<close>

section \<open>The scan\<close>

text \<open>The slots below \<open>p\<close> are scanned: their valid blocks and the descriptors correspond.\<close>

definition scanned :: "(bytes \<Rightarrow> u32) \<Rightarrow> (nat \<Rightarrow> nat) \<Rightarrow> nat \<Rightarrow> image \<Rightarrow> 'w Fs \<Rightarrow> bool" where
  "scanned crc n p img s \<longleftrightarrow>
     length (Fs_fd s) = FD_MAX \<and> length (curr_address s) = 8 \<and> length (reloc_buffer s) = 32 \<and>
     layout img n \<and> pairs crc img \<and> card (dom (flash_vars crc img)) \<le> FD_MAX \<and> nfd s \<le> FD_MAX \<and>
     (\<forall>i < nfd s. fd_ok crc img (Fs_fd s ! i) \<and> fd_slot (Fs_fd s ! i) < p) \<and>
     (\<forall>i < nfd s. \<forall>j < nfd s. fd_key (Fs_fd s ! i) = fd_key (Fs_fd s ! j) \<longrightarrow> i = j) \<and>
     (\<forall>m < p. valid crc (img m) \<longrightarrow> (\<exists>i < nfd s. fd_slot (Fs_fd s ! i) = m))"

lemma scannedD:
  assumes "scanned crc n p img s"
  shows "length (Fs_fd s) = FD_MAX" "length (curr_address s) = 8" "length (reloc_buffer s) = 32"
    "layout img n" "pairs crc img" "card (dom (flash_vars crc img)) \<le> FD_MAX" "nfd s \<le> FD_MAX"
    "i < nfd s \<Longrightarrow> fd_ok crc img (Fs_fd s ! i)" "i < nfd s \<Longrightarrow> fd_slot (Fs_fd s ! i) < p"
    "i < nfd s \<Longrightarrow> j < nfd s \<Longrightarrow> fd_key (Fs_fd s ! i) = fd_key (Fs_fd s ! j) \<Longrightarrow> i = j"
    "m < p \<Longrightarrow> valid crc (img m) \<Longrightarrow> \<exists>i < nfd s. fd_slot (Fs_fd s ! i) = m"
  using assms by (simp_all add: scanned_def)

lemma scanned_frame [simp]:
  "scanned crc n p img (s\<lparr>hw := w\<rparr>) = scanned crc n p img s"
  "scanned crc n p img (s\<lparr>curr_sector := k\<rparr>) = scanned crc n p img s"
  "scanned crc n p img (s\<lparr>curr_address := (curr_address s)[j := a]\<rparr>) = scanned crc n p img s"
  "scanned crc n p img (s\<lparr>Fs_pt := l\<rparr>) = scanned crc n p img s"
  "scanned crc n p img (s\<lparr>Fs_timer := t\<rparr>) = scanned crc n p img s"
  by (simp_all add: scanned_def)

lemma scanned_step:
  assumes "scanned crc n p img s" "\<not> valid crc (img p)"
  shows "scanned crc n (Suc p) img s"
proof -
  have "\<exists>i < nfd s. fd_slot (Fs_fd s ! i) = m" if "m < Suc p" "valid crc (img m)" for m
    using that assms scannedD(11) [OF assms(1), of m] by (auto simp: less_Suc_eq)
  then show ?thesis using assms(1) unfolding scanned_def by (simp add: less_SucI)
qed

lemma scanned_skip:
  assumes "scanned crc n p img s" "p \<le> q" "\<And>m. p \<le> m \<Longrightarrow> m < q \<Longrightarrow> \<not> valid crc (img m)"
  shows "scanned crc n q img s"
  using assms(2,3)
proof (induction q rule: dec_induct)
  case base
  show ?case by (rule assms(1))
next
  case (step q)
  then show ?case by (intro scanned_step) auto
qed

lemma scanned_image_ok: "scanned crc n p img s \<Longrightarrow> ring n c \<Longrightarrow> image_ok crc img"
  by (auto simp: scanned_def image_ok_def)

text \<open>A variable the index lacks fits: the image holds at most \<open>FD_MAX\<close> of them.\<close>

lemma scanned_room:
  assumes s: "scanned crc n p img s" and p: "p < 1024" "valid crc (img p)"
    and new: "\<forall>i < nfd s. fd_key (Fs_fd s ! i) \<noteq> key_of (img p)"
  shows "nfd s < FD_MAX"
proof -
  let ?K = "(\<lambda>i. fd_key (Fs_fd s ! i)) ` {..<nfd s}"
  have "inj_on (\<lambda>i. fd_key (Fs_fd s ! i)) {..<nfd s}"
    using scannedD(10) [OF s] by (auto intro!: inj_onI)
  then have "card ?K = nfd s" by (simp add: card_image)
  moreover have "key_of (img p) \<notin> ?K" using new by auto
  ultimately have "card (insert (key_of (img p)) ?K) = Suc (nfd s)" by simp
  moreover have present: "key \<in> dom (flash_vars crc img)" if "m < 1024" "live crc img key m" for key m
    using that flash_vars_None [of crc img key] by auto
  have "fd_key (Fs_fd s ! i) \<in> dom (flash_vars crc img)" if "i < nfd s" for i
    by (rule present [OF _ fd_ok_live [OF scannedD(8) [OF s that]]])
      (use scannedD(8) [OF s that] in \<open>simp add: fd_ok_def\<close>)
  moreover have "key_of (img p) \<in> dom (flash_vars crc img)"
    using p by (intro present [of p]) (simp_all add: live_def)
  ultimately have "insert (key_of (img p)) ?K \<subseteq> dom (flash_vars crc img)" "card (insert (key_of (img p)) ?K) = Suc (nfd s)"
    by auto
  moreover from this(1) have "card (insert (key_of (img p)) ?K) \<le> card (dom (flash_vars crc img))"
    by (rule card_mono [OF finite_dom_vars])
  ultimately show ?thesis using scannedD(6) [OF s] by simp
qed

definition fd_at :: "nat \<Rightarrow> bytes \<Rightarrow> st_fileDescriptor" where
  "fd_at p b = \<lparr>fd_address = slot_addr p, fd_header = get_header b, fd_sector = word_of_nat (p div 128)\<rparr>"

lemma fd_at_ok: "p < 1024 \<Longrightarrow> valid crc (img p) \<Longrightarrow> fd_ok crc img (fd_at p (img p))"
  by (simp add: fd_ok_def fd_at_def)

lemma fd_at_sel [simp]:
  "fd_key (fd_at p b) = key_of b" "p < 1024 \<Longrightarrow> fd_slot (fd_at p b) = p"
  by (simp_all add: fd_at_def key_of_def)

lemma scanned_new:
  assumes s: "scanned crc n p img s" and p: "p < 1024" "valid crc (img p)"
    and new: "\<forall>i < nfd s. fd_key (Fs_fd s ! i) \<noteq> key_of (img p)"
  shows "scanned crc n (Suc p) img
    (s\<lparr>Fs_fd := (Fs_fd s)[nfd s := fd_at p (img p)], curr_fd_index := curr_fd_index s + 1\<rparr>)"
    (is "scanned crc n (Suc p) img ?s")
proof -
  have lt: "nfd s < 300" using scanned_room [OF assms] by simp
  then have nfd: "nfd ?s = Suc (nfd s)" by (simp add: unat_word_ariths)
  have at: "Fs_fd ?s ! i = (if i = nfd s then fd_at p (img p) else Fs_fd s ! i)" for i
    using lt scannedD(1) [OF s] by simp
  have "\<exists>i < nfd ?s. fd_slot (Fs_fd ?s ! i) = m" if "m < Suc p" "valid crc (img m)" for m
  proof (cases "m = p")
    case True
    then show ?thesis unfolding at nfd using p by auto
  next
    case False
    then obtain i where "i < nfd s" "fd_slot (Fs_fd s ! i) = m"
      using scannedD(11) [OF s, of m] \<open>m < Suc p\<close> \<open>valid crc (img m)\<close> by auto
    then show ?thesis unfolding at nfd by (intro exI [of _ i]) simp
  qed
  moreover have "fd_ok crc img (Fs_fd ?s ! i) \<and> fd_slot (Fs_fd ?s ! i) < Suc p" if "i < nfd ?s" for i
    using that scannedD(8,9) [OF s, of i] fd_at_ok [where img = img, OF p] p(1) unfolding at nfd by (auto simp: less_Suc_eq)
  moreover have "i = j"
    if "i < nfd ?s" "j < nfd ?s" "fd_key (Fs_fd ?s ! i) = fd_key (Fs_fd ?s ! j)" for i j
    using that scannedD(10) [OF s, of i j] new unfolding at nfd by (auto simp: less_Suc_eq split: if_splits)
  ultimately show ?thesis
    using scannedD(1-6) [OF s] lt nfd unfolding scanned_def by simp
qed

text \<open>The older of two blocks is dropped; \<open>m\<close> is its slot and \<open>m2\<close> the other's.\<close>

definition dropped :: "nat \<Rightarrow> image \<Rightarrow> image" where
  "dropped m img = img(m := put_header ((get_header (img m))\<lparr>h_size := 0\<rparr>) (img m))"

lemma dropped_ok:
  assumes s: "scanned crc n p img s" and live: "live crc img key m" "live crc img key m2" "m \<noteq> m2"
    and newer: "newer_of (img m2) = 1"
  shows "flash_vars crc (dropped m img) = flash_vars crc img" "pairs crc (dropped m img)"
    "layout (dropped m img) n" "valid crc (dropped m img m') \<longleftrightarrow> m' \<noteq> m \<and> valid crc (img m')"
proof -
  have lay: "layout img n" using scannedD(4) [OF s] .
  show "flash_vars crc (dropped m img) = flash_vars crc img" "pairs crc (dropped m img)"
    unfolding dropped_def
    using invalidate_older [OF scannedD(5) [OF s] live_lt [OF lay live(2)] live newer invalid_size] by auto
  have "m < 1024" "m mod 128 < n (m div 128)"
    using live_lt [OF lay live(1)] valid_filled [OF lay, of crc m] live(1) by (auto simp: live_def)
  then show "layout (dropped m img) n"
    unfolding dropped_def using layout_length [OF lay, of m]
    by (intro layout_update [OF lay]) (auto simp: not_blank_size)
  show "valid crc (dropped m img m') \<longleftrightarrow> m' \<noteq> m \<and> valid crc (img m')"
    by (simp add: dropped_def invalid_size)
qed

lemma scanned_drop_former:
  assumes s: "scanned crc n p img s" and p: "p < 1024" "valid crc (img p)"
    and i: "i < nfd s" "fd_key (Fs_fd s ! i) = key_of (img p)" and newer: "newer_of (img p) = 1"
    and m: "m = fd_slot (Fs_fd s ! i)"
  shows "scanned crc n (Suc p) (dropped m img) (s\<lparr>Fs_fd := (Fs_fd s)[i := fd_at p (img p)]\<rparr>)"
    and "flash_vars crc (dropped m img) = flash_vars crc img"
proof -
  have len: "i < length (Fs_fd s)" using i(1) scannedD(1,7) [OF s] by simp
  have mp: "m < p" "m \<noteq> p" using scannedD(9) [OF s i(1)] m by auto
  have live: "live crc img (key_of (img p)) m" "live crc img (key_of (img p)) p"
    using fd_ok_live [OF scannedD(8) [OF s i(1)]] i(2) m p(2) by (simp_all add: live_def)
  note d = dropped_ok [OF s live mp(2) newer]
  show "flash_vars crc (dropped m img) = flash_vars crc img" by (rule d(1))
  let ?fds = "(Fs_fd s)[i := fd_at p (img p)]"
  have other: "fd_slot (Fs_fd s ! j) \<noteq> m \<and> fd_slot (Fs_fd s ! j) \<noteq> p" if "j < nfd s" "j \<noteq> i" for j
  proof -
    have "fd_key (Fs_fd s ! j) = fd_key (Fs_fd s ! i)" if "fd_slot (Fs_fd s ! j) = m"
      using that scannedD(8) [OF s i(1)] scannedD(8) [OF s \<open>j < nfd s\<close>] m by (auto simp: fd_ok_def)
    then show ?thesis using scannedD(10) [OF s that(1) i(1)] scannedD(9) [OF s that(1)] that(2) by auto
  qed
  have dp: "dropped m img p = img p" using mp by (simp add: dropped_def)
  have dj: "dropped m img (fd_slot (Fs_fd s ! j)) = img (fd_slot (Fs_fd s ! j))" if "j < nfd s" "j \<noteq> i" for j
    using other [OF that] by (simp add: dropped_def)
  have "fd_ok crc (dropped m img) (?fds ! j) \<and> fd_slot (?fds ! j) < Suc p" if "j < nfd s" for j
  proof (cases "j = i")
    case True
    then show ?thesis using len p fd_at_ok [of p crc "dropped m img"] dp by simp
  next
    case False
    then show ?thesis
      using scannedD(8,9) [OF s that] dj [OF that False] by (simp add: fd_ok_def)
  qed
  moreover have "fd_key (?fds ! j) = fd_key (Fs_fd s ! j)" for j
    using len i(2) by (cases "j = i") simp_all
  moreover have "\<exists>j < nfd s. fd_slot (?fds ! j) = m'" if v: "m' < Suc p" "valid crc (dropped m img m')" for m'
  proof (cases "m' = p")
    case True
    then show ?thesis using i(1) len p(1) by (intro exI [of _ i]) simp
  next
    case False
    then obtain j where j: "j < nfd s" "fd_slot (Fs_fd s ! j) = m'"
      using scannedD(11) [OF s, of m'] v d(4) by auto
    moreover have "j \<noteq> i" using j(2) d(4) v(2) m by auto
    ultimately show ?thesis by (intro exI [of _ j]) simp
  qed
  ultimately show "scanned crc n (Suc p) (dropped m img) (s\<lparr>Fs_fd := ?fds\<rparr>)"
    using scannedD(1-3,6,7,10) [OF s] d(1-3) unfolding scanned_def by simp
qed

lemma scanned_drop_new:
  assumes s: "scanned crc n p img s" and p: "p < 1024" "valid crc (img p)"
    and i: "i < nfd s" "fd_key (Fs_fd s ! i) = key_of (img p)"
    and newer: "newer_of (img (fd_slot (Fs_fd s ! i))) = 1"
  shows "scanned crc n (Suc p) (dropped p img) s"
    and "flash_vars crc (dropped p img) = flash_vars crc img"
proof -
  have ne: "p \<noteq> fd_slot (Fs_fd s ! i)" using scannedD(9) [OF s i(1)] by simp
  have live: "live crc img (key_of (img p)) p" "live crc img (key_of (img p)) (fd_slot (Fs_fd s ! i))"
    using fd_ok_live [OF scannedD(8) [OF s i(1)]] i(2) p(2) by (simp_all add: live_def)
  note d = dropped_ok [OF s live ne newer]
  show "flash_vars crc (dropped p img) = flash_vars crc img" by (rule d(1))
  have "fd_ok crc (dropped p img) (Fs_fd s ! j) \<and> fd_slot (Fs_fd s ! j) < Suc p" if "j < nfd s" for j
    using scannedD(8,9) [OF s that] by (simp add: fd_ok_def dropped_def)
  moreover have "\<exists>j < nfd s. fd_slot (Fs_fd s ! j) = m'" if "m' < Suc p" "valid crc (dropped p img m')" for m'
    using scannedD(11) [OF s, of m'] that d(4) by (auto simp: less_Suc_eq)
  ultimately show "scanned crc n (Suc p) (dropped p img) s"
    using scannedD(1-3,6,7,10) [OF s] d(1-3) unfolding scanned_def by simp
qed

section \<open>On any flash device\<close>

lemma checkBlock_blank_iff: "fst (checkBlock crc b) = BLOCK_IS_BLANK \<longleftrightarrow> hdr_blank b"
  by (simp add: checkBlock_def hdr_blank_def Let_def)

text \<open>
  A state of the scan over a device: the variables are still \<open>v\<close>, and if no variable had two
  blocks in the image \<open>old\<close> of the start, nothing was written.
\<close>

definition scan_ok ::
    "('w \<Rightarrow> image) \<Rightarrow> ('w \<Rightarrow> bool) \<Rightarrow> (bytes \<Rightarrow> u32) \<Rightarrow> image \<Rightarrow> (key \<Rightarrow> bytes option) \<Rightarrow>
     (nat \<Rightarrow> nat) \<Rightarrow> nat \<Rightarrow> 'w Fs \<Rightarrow> bool" where
  "scan_ok content ok crc old v n p s \<longleftrightarrow>
     ok (hw s) \<and> scanned crc n p (content (hw s)) s \<and> flash_vars crc (content (hw s)) = v \<and>
     (unique crc old \<longrightarrow> content (hw s) = old)"

lemma scan_ok_found:
  assumes s: "scan_ok content ok crc old v n p s" and i: "i < nfd s"
    and key: "fd_key (Fs_fd s ! i) = key_of (content (hw s) p)" "valid crc (content (hw s) p)"
  shows "\<not> unique crc old"
proof
  assume u: "unique crc old"
  have sc: "scanned crc n p (content (hw s)) s" using s by (simp add: scan_ok_def)
  have "unique crc (content (hw s))" using s u by (simp add: scan_ok_def)
  then have "fd_slot (Fs_fd s ! i) = p"
    using fd_ok_live [OF scannedD(8) [OF sc i]] key by (auto simp: live_def dest: uniqueD)
  then show False using scannedD(9) [OF sc i] by simp
qed

text \<open>
  The outcome of the scan of sector \<open>k\<close>: the result codes 0, 1 and 2 are blank, written and full.
\<close>

definition sector_scanned ::
    "('w \<Rightarrow> image) \<Rightarrow> ('w \<Rightarrow> bool) \<Rightarrow> (bytes \<Rightarrow> u32) \<Rightarrow> image \<Rightarrow> (key \<Rightarrow> bytes option) \<Rightarrow>
     (nat \<Rightarrow> nat) \<Rightarrow> nat \<Rightarrow> 'w Fs \<Rightarrow> u32 \<times> 'w Fs \<Rightarrow> bool" where
  "sector_scanned content ok crc old v n k s = (\<lambda>(r, s').
     r = (if n k = 0 then 0 else if n k < 128 then 1 else 2) \<and>
     scan_ok content ok crc old v n (128 * Suc k) s' \<and>
     curr_address s' = (curr_address s)[k := slot_addr (128 * k + n k)] \<and> curr_sector s' = curr_sector s)"

context flash_device
begin

lemma put_dropped:
  assumes "ok (hw s)" "m < 1024" "h = get_header (content (hw s) m)" "adm (dropped m (content (hw s)))"
  shows "\<exists>w. flash_put H (slot_addr m) (header_bytes (h\<lparr>h_size := 0\<rparr>)) s = Some (s\<lparr>hw := w\<rparr>) \<and> ok w \<and>
    content w = dropped m (content (hw s))"
proof -
  have "program_slot m (header_bytes (h\<lparr>h_size := 0\<rparr>)) (content (hw s)) = dropped m (content (hw s))"
    using content_length [OF assms(1)] assms(3)
    by (simp add: program_slot_def dropped_def program_clear_size(1))
  then show ?thesis using put_slot [OF assms(1,2), of "header_bytes (h\<lparr>h_size := 0\<rparr>)"] assms(4) by simp
qed

text \<open>One valid block: the three ways it meets the index.\<close>

lemma initFd_valid_absent:
  assumes s: "scan_ok content ok (crc32_calc H) old v n p s" and b: "b = content (hw s) p"
    and p: "p < 1024" "valid (crc32_calc H) b"
    and i: "fd_search (Fs_fd s) (h_name (get_header b)) (ucast (h_ext (get_header b))) 0 (nfd s) = nfd s"
    and new: "\<forall>j < nfd s. fd_key (Fs_fd s ! j) \<noteq> key_of b"
  shows "\<exists>s'. initFd_valid H (word_of_nat (p div 128)) (slot_addr p) b s = Some (True, b, s') \<and>
    scan_ok content ok (crc32_calc H) old v n (Suc p) s' \<and>
    curr_address s' = curr_address s \<and> curr_sector s' = curr_sector s"
proof -
  have sc: "scanned (crc32_calc H) n p (content (hw s)) s" using s by (simp add: scan_ok_def)
  note room = scanned_room [OF sc p(1)] and more = scanned_new [OF sc p(1)]
  have "initFd_valid H (word_of_nat (p div 128)) (slot_addr p) b s = Some (True, b,
      s\<lparr>Fs_fd := (Fs_fd s)[nfd s := fd_at p b], curr_fd_index := curr_fd_index s + 1\<rparr>)"
    using i room p(2) new b by (simp add: initFd_valid_def fd_at_def Let_def)
  then show ?thesis using more p(2) new s b by (auto simp: scan_ok_def)
qed

lemma initFd_valid_former:
  assumes s: "scan_ok content ok (crc32_calc H) old v n p s" and b: "b = content (hw s) p"
    and p: "p < 1024" "valid (crc32_calc H) b" and ring: "ring n c"
    and i: "fd_search (Fs_fd s) (h_name (get_header b)) (ucast (h_ext (get_header b))) 0 (nfd s) = i" "i < nfd s"
    and former: "f = Fs_fd s ! i" "fd_key f = key_of b" "h_newer (fd_header f) = 0"
    and newer: "h_newer (get_header b) = 1"
    and adm: "\<And>img. image_ok (crc32_calc H) img \<Longrightarrow> flash_vars (crc32_calc H) img = v \<Longrightarrow> adm img"
  shows "\<exists>s'. initFd_valid H (word_of_nat (p div 128)) (slot_addr p) b s = Some (True, b, s') \<and>
    scan_ok content ok (crc32_calc H) old v n (Suc p) s' \<and>
    curr_address s' = curr_address s \<and> curr_sector s' = curr_sector s"
proof -
  let ?img = "content (hw s)" and ?m = "fd_slot f" and ?h = "fd_header f"
  let ?fds = "(Fs_fd s)[i := f\<lparr>fd_header := ?h\<lparr>h_size := 0\<rparr>\<rparr>]"
  have o: "ok (hw s)" and sc: "scanned (crc32_calc H) n p ?img s" and v: "flash_vars (crc32_calc H) ?img = v"
    using s by (auto simp: scan_ok_def)
  have m: "?m < 1024" "fd_address f = slot_addr ?m" "get_header (?img ?m) = ?h"
    using scannedD(8) [OF sc i(2)] former(1) by (auto simp: fd_ok_def)
  have sd: "scanned (crc32_calc H) n (Suc p) (dropped ?m ?img) (s\<lparr>Fs_fd := (Fs_fd s)[i := fd_at p b]\<rparr>)"
      "flash_vars (crc32_calc H) (dropped ?m ?img) = v"
    using scanned_drop_former [OF sc p(1) _ i(2), of ?m] p(2) former newer v b by (simp_all add: newer_of_def)
  have dup: "\<not> unique (crc32_calc H) old"
    using scan_ok_found [OF s i(2)] former(1,2) p(2) b by simp
  have "adm (dropped ?m ?img)" using adm scanned_image_ok [OF sd(1) ring] sd(2) by simp
  then obtain w where w: "flash_put H (slot_addr ?m) (header_bytes (?h\<lparr>h_size := 0\<rparr>)) (s\<lparr>Fs_fd := ?fds\<rparr>)
      = Some (s\<lparr>Fs_fd := ?fds, hw := w\<rparr>)" "ok w" "content w = dropped ?m ?img"
    using put_dropped [of "s\<lparr>Fs_fd := ?fds\<rparr>" ?m ?h] o m by auto
  have "initFd_valid H (word_of_nat (p div 128)) (slot_addr p) b s =
      Some (True, b, s\<lparr>Fs_fd := (Fs_fd s)[i := fd_at p b], hw := w\<rparr>)"
    using i former newer w(1) m(2) by (simp add: initFd_valid_def initFd_duplicate_def fd_at_def Let_def)
  then show ?thesis using sd w(2,3) dup by (auto simp: scan_ok_def)
qed

lemma initFd_valid_new:
  assumes s: "scan_ok content ok (crc32_calc H) old v n p s" and b: "b = content (hw s) p"
    and p: "p < 1024" "valid (crc32_calc H) b" and ring: "ring n c"
    and i: "fd_search (Fs_fd s) (h_name (get_header b)) (ucast (h_ext (get_header b))) 0 (nfd s) = i" "i < nfd s"
    and former: "f = Fs_fd s ! i" "fd_key f = key_of b" "h_newer (fd_header f) = 1"
    and newer: "h_newer (get_header b) = 0"
    and adm: "\<And>img. image_ok (crc32_calc H) img \<Longrightarrow> flash_vars (crc32_calc H) img = v \<Longrightarrow> adm img"
  shows "\<exists>b' s'. initFd_valid H (word_of_nat (p div 128)) (slot_addr p) b s = Some (True, b', s') \<and>
    length b' = length b \<and> scan_ok content ok (crc32_calc H) old v n (Suc p) s' \<and>
    curr_address s' = curr_address s \<and> curr_sector s' = curr_sector s"
proof -
  let ?img = "content (hw s)" and ?b = "put_header ((get_header b)\<lparr>h_size := 0\<rparr>) b"
  have o: "ok (hw s)" and sc: "scanned (crc32_calc H) n p ?img s" and v: "flash_vars (crc32_calc H) ?img = v"
    using s by (auto simp: scan_ok_def)
  have "newer_of (?img (fd_slot f)) = 1"
    using scannedD(8) [OF sc i(2)] former(1,3) by (simp add: fd_ok_def newer_of_def)
  then have sd: "scanned (crc32_calc H) n (Suc p) (dropped p ?img) s" "flash_vars (crc32_calc H) (dropped p ?img) = v"
    using scanned_drop_new [OF sc p(1) _ i(2)] p(2) former(1,2) v b by simp_all
  have dup: "\<not> unique (crc32_calc H) old"
    using scan_ok_found [OF s i(2)] former(1,2) p(2) b by simp
  have "adm (dropped p ?img)" using adm scanned_image_ok [OF sd(1) ring] sd(2) by simp
  then obtain w where w: "flash_put H (slot_addr p) (header_bytes ((get_header b)\<lparr>h_size := 0\<rparr>)) s
      = Some (s\<lparr>hw := w\<rparr>)" "ok w" "content w = dropped p ?img"
    using put_dropped [OF o p(1), of "get_header b"] b by auto
  have "take 4 ?b = header_bytes ((get_header b)\<lparr>h_size := 0\<rparr>)" by (simp add: put_header_def)
  then have "initFd_valid H (word_of_nat (p div 128)) (slot_addr p) b s = Some (True, ?b, s\<lparr>hw := w\<rparr>)"
    using i former newer w(1) by (simp add: initFd_valid_def initFd_duplicate_def Let_def)
  then show ?thesis using sd w(2,3) dup content_length [OF o, of p] b by (auto simp: scan_ok_def)
qed

lemma initFd_valid_ok:
  assumes s: "scan_ok content ok (crc32_calc H) old v n p s" and ring: "ring n c"
    and p: "p < 1024" "valid (crc32_calc H) b" and b: "b = content (hw s) p"
    and adm: "\<And>img. image_ok (crc32_calc H) img \<Longrightarrow> flash_vars (crc32_calc H) img = v \<Longrightarrow> adm img"
  shows "\<exists>b' s'. initFd_valid H (word_of_nat (p div 128)) (slot_addr p) b s = Some (True, b', s') \<and>
    length b' = length b \<and> scan_ok content ok (crc32_calc H) old v n (Suc p) s' \<and>
    curr_address s' = curr_address s \<and> curr_sector s' = curr_sector s"
proof -
  define i where "i = fd_search (Fs_fd s) (h_name (get_header b)) (ucast (h_ext (get_header b))) 0 (nfd s)"
  note search = i_def [symmetric]
  show ?thesis
    using i_def
  proof (cases rule: fd_search_cases)
    case absent
    then show ?thesis using initFd_valid_absent [OF s b p] search by (auto simp: key_of_def)
  next
    case found
    let ?f = "Fs_fd s ! i"
    have sc: "scanned (crc32_calc H) n p (content (hw s)) s" using s by (simp add: scan_ok_def)
    have f: "fd_ok (crc32_calc H) (content (hw s)) ?f" using scannedD(8) [OF sc found(1)] .
    have key: "fd_key ?f = key_of b" using found(2) by (simp add: key_of_def)
    have "h_newer (fd_header ?f) \<noteq> h_newer (get_header b)"
      using pairsD [OF scannedD(5) [OF sc] fd_ok_live [OF f], of p] key p(2) b f scannedD(9) [OF sc found(1)]
      by (auto simp: live_def newer_of_def fd_ok_def)
    then consider "h_newer (fd_header ?f) = 0" "h_newer (get_header b) = 1"
      | "h_newer (fd_header ?f) = 1" "h_newer (get_header b) = 0"
      using bit_flag by metis
    then show ?thesis
    proof cases
      case 1
      have "\<exists>s'. initFd_valid H (word_of_nat (p div 128)) (slot_addr p) b s = Some (True, b, s') \<and>
          scan_ok content ok (crc32_calc H) old v n (Suc p) s' \<and>
          curr_address s' = curr_address s \<and> curr_sector s' = curr_sector s"
        by (rule initFd_valid_former [OF s b p ring search found(1) refl key 1]) (rule adm)
      then show ?thesis by blast
    next
      case 2
      show ?thesis by (rule initFd_valid_new [OF s b p ring search found(1) refl key 2]) (rule adm)
    qed
  qed
qed

text \<open>The scan of sector \<open>k\<close> on a sector that is full, and on its first blank block.\<close>

lemma initFd_loop_full:
  assumes s: "scan_ok content ok (crc32_calc H) old v n (128 * k + 128) s" and k: "k < 8" and full: "n k = 128"
    and last: "curr_address s ! k = slot_addr (128 * k + 127)"
  shows "\<exists>r. initFd_loop H (word_of_nat k) (slot_addr (128 * k + 128)) b s = Some r \<and>
    sector_scanned content ok (crc32_calc H) old v n k s r"
proof -
  let ?s = "s\<lparr>curr_address := (curr_address s)[k := slot_addr (128 * k + 128)]\<rparr>"
  have "\<not> slot_addr (128 * k + 128) < slot_addr (128 * k) + FILESYSTEM_SECTOR_SIZE"
    using k unfolding slot_addr_sector by simp
  moreover have "curr_address s ! k + 32 = slot_addr (128 * k + 128)"
    using last slot_addr_next [of "128 * k + 127"] by (simp add: add.commute [of 128])
  ultimately have "initFd_loop H (word_of_nat k) (slot_addr (128 * k + 128)) b s = Some (2, ?s)"
    using k by (subst initFd_loop.simps) (simp add: unat_of_nat Sector_base_slot)
  then show ?thesis using s full by (auto simp: sector_scanned_def scan_ok_def add.commute [of 128])
qed

lemma layout_blank_rest:
  assumes "layout img n" "k < 8" "128 * k + n k \<le> q" "q < 128 * Suc k"
  shows "\<not> valid crc (img q)"
proof -
  have q: "q div 128 = k" "q < 1024" using assms(2-4) by (auto simp: div_nat_eqI)
  moreover have "128 * k + q mod 128 = q" unfolding q(1) [symmetric] by simp
  then have "\<not> q mod 128 < n k" using assms(3) by linarith
  ultimately show ?thesis using assms(1) by (auto simp: layout_def)
qed

lemma initFd_loop_blank:
  assumes s: "scan_ok content ok (crc32_calc H) old v n (128 * k + n k) s" and k: "k < 8" and lt: "n k < 128"
    and b: "length b = 32"
  shows "\<exists>r. initFd_loop H (word_of_nat k) (slot_addr (128 * k + n k)) b s = Some r \<and>
    sector_scanned content ok (crc32_calc H) old v n k s r"
proof -
  let ?m = "128 * k + n k"
  let ?s = "s\<lparr>curr_address := (curr_address s)[k := slot_addr ?m]\<rparr>"
  have o: "ok (hw s)" and sc: "scanned (crc32_calc H) n ?m (content (hw s)) s" using s by (auto simp: scan_ok_def)
  note lay = scannedD(4) [OF sc]
  have m: "?m < 1024" "?m div 128 = k" "?m mod 128 = n k" using k lt by auto
  then have blank: "content (hw s) ?m = blank_block" using lay by (auto simp: layout_def)
  obtain w where w: "flash_read H (slot_addr ?m) b (hw s) = (content (hw s) ?m, w)" "ok w" "content w = content (hw s)"
    using read_slot [OF o m(1) b] by blast
  have "slot_addr ?m < slot_addr (128 * k) + FILESYSTEM_SECTOR_SIZE"
    using k lt unfolding slot_addr_sector by (simp add: slot_addr_less)
  moreover have "slot_addr ?m = slot_addr (128 * k) \<longleftrightarrow> n k = 0"
    using k lt by (simp add: slot_addr_inject)
  moreover have "checkBlock (crc32_calc H) blank_block = (-1, blank_block)"
    using hdr_blank_blank by (simp add: checkBlock_def hdr_blank_def)
  ultimately have "initFd_loop H (word_of_nat k) (slot_addr ?m) b s = Some (if n k = 0 then 0 else 1, ?s\<lparr>hw := w\<rparr>)"
    using w(1) k by (subst initFd_loop.simps) (simp add: unat_of_nat Sector_base_slot blank Let_def)
  moreover have "scanned (crc32_calc H) n (128 * Suc k) (content (hw s)) s"
    using lt layout_blank_rest [OF lay k] by (intro scanned_skip [OF sc]) auto
  ultimately show ?thesis using w(2,3) s lt by (auto simp: sector_scanned_def scan_ok_def)
qed

text \<open>A written block: the scan goes on behind it.\<close>

lemma initFd_loop_step:
  assumes s: "scan_ok content ok (crc32_calc H) old v n (128 * k + j) s" and ring: "ring n c"
    and k: "k < 8" and j: "j < n k" and b: "length b = 32"
    and adm: "\<And>img. image_ok (crc32_calc H) img \<Longrightarrow> flash_vars (crc32_calc H) img = v \<Longrightarrow> adm img"
  shows "\<exists>b' s'. initFd_loop H (word_of_nat k) (slot_addr (128 * k + j)) b s =
      initFd_loop H (word_of_nat k) (slot_addr (128 * k + Suc j)) b' s' \<and> length b' = 32 \<and>
    scan_ok content ok (crc32_calc H) old v n (128 * k + Suc j) s' \<and>
    curr_address s' = (curr_address s)[k := slot_addr (128 * k + j)] \<and> curr_sector s' = curr_sector s"
proof -
  let ?m = "128 * k + j"
  let ?b = "content (hw s) ?m" and ?s = "s\<lparr>curr_address := (curr_address s)[k := slot_addr ?m]\<rparr>"
  have o: "ok (hw s)" and sc: "scanned (crc32_calc H) n ?m (content (hw s)) s" using s by (auto simp: scan_ok_def)
  note lay = scannedD(4) [OF sc]
  have m: "?m < 1024" "?m div 128 = k" "?m mod 128 = j" "j < 128" using k j fill_le [OF lay k] by auto
  obtain w where w: "flash_read H (slot_addr ?m) b (hw s) = (?b, w)" "ok w" "content w = content (hw s)"
    using read_slot [OF o m(1) b] by blast
  have here: "slot_addr ?m < slot_addr (128 * k) + FILESYSTEM_SECTOR_SIZE"
      "slot_addr ?m + word_of_nat FS_BLOCK_SIZE = slot_addr (128 * k + Suc j)"
    using k m(4) unfolding slot_addr_sector by (simp_all add: slot_addr_less slot_addr_next)
  define verdict where "verdict = fst (checkBlock (crc32_calc H) ?b)"
  have len: "length ?b = 32" using content_length [OF o] m(1) by simp
  then have chk: "checkBlock (crc32_calc H) ?b = (verdict, ?b)"
    using checkBlock_restores [of ?b "crc32_calc H"] by (simp add: prod_eq_iff verdict_def)
  have s1: "scan_ok content ok (crc32_calc H) old v n ?m (?s\<lparr>hw := w\<rparr>)" using s w(2,3) by (simp add: scan_ok_def)
  note unfold_loop = initFd_loop.simps [of H "word_of_nat k" "slot_addr ?m" b s]
  have uk: "unat (word_of_nat k :: u8) = k" using k by (simp add: unat_of_nat)
  note run = w(1) chk uk Sector_base_slot [OF k]
  show ?thesis
  proof (cases "valid (crc32_calc H) ?b")
    case True
    then have "verdict = 0" by (simp add: valid_def verdict_def)
    moreover have "\<exists>b' s'. initFd_valid H (word_of_nat (?m div 128)) (slot_addr ?m) ?b (?s\<lparr>hw := w\<rparr>) = Some (True, b', s') \<and>
        length b' = length ?b \<and> scan_ok content ok (crc32_calc H) old v n (Suc ?m) s' \<and>
        curr_address s' = curr_address (?s\<lparr>hw := w\<rparr>) \<and> curr_sector s' = curr_sector (?s\<lparr>hw := w\<rparr>)"
      using w(3) by (intro initFd_valid_ok [OF s1 ring m(1) True]) (simp, rule adm)
    ultimately show ?thesis
      using here len unfolding unfold_loop m(2) by (clarsimp simp: run Let_def) (intro exI conjI, rule refl, simp_all)
  next
    case False
    moreover have "\<not> hdr_blank ?b" using lay j m by (auto simp: layout_def)
    ultimately have "verdict \<noteq> 0" "verdict \<noteq> BLOCK_IS_BLANK"
      using checkBlock_blank_iff [of "crc32_calc H" ?b] by (auto simp: valid_def verdict_def)
    then have "initFd_loop H (word_of_nat k) (slot_addr ?m) b s =
        initFd_loop H (word_of_nat k) (slot_addr (128 * k + Suc j)) ?b (?s\<lparr>hw := w\<rparr>)"
      using here unfolding unfold_loop by (simp add: run Let_def)
    then show ?thesis
      using s1 scanned_step [OF sc False] w(3) len
      by (intro exI [of _ ?b] exI [of _ "?s\<lparr>hw := w\<rparr>"]) (simp add: scan_ok_def)
  qed
qed

lemma initFd_loop_ok:
  assumes "scan_ok content ok (crc32_calc H) old v n (128 * k + j) s" and ring: "ring n c"
    and k: "k < 8" and "j \<le> n k" "length b = 32"
    and "j = 0 \<or> curr_address s ! k = slot_addr (128 * k + (j - 1))"
    and adm: "\<And>img. image_ok (crc32_calc H) img \<Longrightarrow> flash_vars (crc32_calc H) img = v \<Longrightarrow> adm img"
  shows "\<exists>r. initFd_loop H (word_of_nat k) (slot_addr (128 * k + j)) b s = Some r \<and>
    sector_scanned content ok (crc32_calc H) old v n k s r"
  using assms(1,4-6)
proof (induction "n k - j" arbitrary: j b s)
  case 0
  then have j: "j = n k" by simp
  have "n k \<le> 128" using 0(2) fill_le [OF scannedD(4) k] by (auto simp: scan_ok_def)
  then consider "n k = 128" | "n k < 128" by linarith
  then show ?case
  proof cases
    case 1
    then show ?thesis using 0 j k initFd_loop_full [where n = n and k = k] by simp
  next
    case 2
    then show ?thesis using 0 j k initFd_loop_blank [where n = n and k = k] by simp
  qed
next
  case (Suc d)
  then have j: "j < n k" by simp
  have len: "length (curr_address s) = 8" using Suc.prems(1) scannedD(2) by (auto simp: scan_ok_def)
  have "\<exists>b' s'. initFd_loop H (word_of_nat k) (slot_addr (128 * k + j)) b s =
      initFd_loop H (word_of_nat k) (slot_addr (128 * k + Suc j)) b' s' \<and> length b' = 32 \<and>
    scan_ok content ok (crc32_calc H) old v n (128 * k + Suc j) s' \<and>
    curr_address s' = (curr_address s)[k := slot_addr (128 * k + j)] \<and> curr_sector s' = curr_sector s"
    by (rule initFd_loop_step [OF Suc.prems(1) ring k j Suc.prems(3)]) (rule adm)
  then obtain b' s' where s': "initFd_loop H (word_of_nat k) (slot_addr (128 * k + j)) b s =
      initFd_loop H (word_of_nat k) (slot_addr (128 * k + Suc j)) b' s'" "length b' = 32"
    "scan_ok content ok (crc32_calc H) old v n (128 * k + Suc j) s'"
    "curr_address s' = (curr_address s)[k := slot_addr (128 * k + j)]" "curr_sector s' = curr_sector s"
    by blast
  have "\<exists>r. initFd_loop H (word_of_nat k) (slot_addr (128 * k + Suc j)) b' s' = Some r \<and>
      sector_scanned content ok (crc32_calc H) old v n k s' r"
    using Suc.hyps(2) j s'(2-4) k len by (intro Suc.hyps(1)) auto
  then show ?case unfolding s'(1) using s'(4,5) by (auto simp: sector_scanned_def)
qed

lemma initFileDescriptors_ok:
  assumes s: "scan_ok content ok (crc32_calc H) old v n (128 * k) s" and ring: "ring n c" and k: "k < 8"
    and adm: "\<And>img. image_ok (crc32_calc H) img \<Longrightarrow> flash_vars (crc32_calc H) img = v \<Longrightarrow> adm img"
  obtains r where "initFileDescriptors H (word_of_nat k) s = Some r"
    "sector_scanned content ok (crc32_calc H) old v n k s r"
proof -
  have "scan_ok content ok (crc32_calc H) old v n (128 * k + 0) s" using s by simp
  then have "\<exists>r. initFd_loop H (word_of_nat k) (slot_addr (128 * k + 0)) (replicate 32 0) s = Some r \<and>
      sector_scanned content ok (crc32_calc H) old v n k s r"
    by (rule initFd_loop_ok [OF _ ring k]) (simp_all, rule adm)
  moreover have "initFileDescriptors H (word_of_nat k) s =
      initFd_loop H (word_of_nat k) (slot_addr (128 * k + 0)) (replicate 32 0) s"
    using k by (simp add: initFileDescriptors_def unat_of_nat Sector_base_slot)
  ultimately show thesis using that by auto
qed

text \<open>
  The loop of \<open>fs_init\<close> before sector \<open>k\<close>: the sectors below have their addresses; the partly
  written one, if it was among them, is the active one; a blank one is remembered.
\<close>

definition sectors_done :: "(nat \<Rightarrow> nat) \<Rightarrow> nat \<Rightarrow> nat \<Rightarrow> u8 \<times> bool \<times> 'w Fs \<Rightarrow> bool" where
  "sectors_done n c k = (\<lambda>(b, a, s).
     (\<forall>j < k. curr_address s ! j = slot_addr (128 * j + n j)) \<and>
     (a \<longleftrightarrow> (\<exists>j < k. 0 < n j \<and> n j < 128)) \<and> (a \<longrightarrow> cur s = c) \<and> unat b < 8 \<and>
     ((\<exists>j < k. n j = 0) \<longrightarrow> n (unat b) = 0))"

lemma sectors_done_step:
  assumes d: "sectors_done n c k (b, a, s)" and ring: "ring n c" and k: "k < 8"
    and s': "sector_scanned content ok crc old v n k s (r, s')" and len: "length (curr_address s) = 8"
  shows "\<exists>b' a' s''. sectors_done n c (Suc k) (b', a', s'') \<and>
    scan_ok content ok crc old v n (128 * Suc k) s'' \<and>
    (\<forall>is. initFileDescriptors H (word_of_nat k) s = Some (r, s') \<longrightarrow>
       fs_init_sectors H (k # is) b a s = fs_init_sectors H is b' a' s'')"
proof -
  have uk: "unat (word_of_nat k :: u8) = k" using k by (simp add: unat_of_nat)
  have addr: "\<forall>j < Suc k. curr_address s' ! j = slot_addr (128 * j + n j)"
    using d s' k len by (auto simp: sectors_done_def sector_scanned_def less_Suc_eq)
  have sc: "scan_ok content ok crc old v n (128 * Suc k) s'" using s' by (simp add: sector_scanned_def)
  consider "n k = 0" | "0 < n k" "n k < 128" | "128 \<le> n k" by linarith
  then show ?thesis
  proof cases
    case 1
    then show ?thesis
      using d s' addr sc uk k
      by (intro exI [of _ "word_of_nat k"] exI [of _ a] exI [of _ s'])
        (auto simp: sectors_done_def sector_scanned_def less_Suc_eq)
  next
    case 2
    have "k = c" using ring 2 k by (auto simp: ring_def)
    moreover have "(\<exists>j < Suc k. n j = 0) \<longleftrightarrow> (\<exists>j < k. n j = 0)" using 2 by (auto simp: less_Suc_eq)
    ultimately show ?thesis
      using d s' addr sc uk 2
      by (intro exI [of _ b] exI [of _ True] exI [of _ "s'\<lparr>curr_sector := word_of_nat k\<rparr>"])
        (auto simp: sectors_done_def sector_scanned_def scan_ok_def)
  next
    case 3
    then show ?thesis
      using d s' addr sc
      by (intro exI [of _ b] exI [of _ a] exI [of _ s'])
        (auto simp: sectors_done_def sector_scanned_def less_Suc_eq)
  qed
qed

lemma fs_init_sectors_ok:
  assumes "scan_ok content ok (crc32_calc H) old v n (128 * k) s" and ring: "ring n c" and "k \<le> 8"
    and "sectors_done n c k (b, a, s)"
    and adm: "\<And>img. image_ok (crc32_calc H) img \<Longrightarrow> flash_vars (crc32_calc H) img = v \<Longrightarrow> adm img"
  shows "\<exists>b' a' s'. fs_init_sectors H [k..<8] b a s = Some (b', a', s') \<and>
    scan_ok content ok (crc32_calc H) old v n 1024 s' \<and> sectors_done n c 8 (b', a', s')"
  using assms(1,3,4)
proof (induction "8 - k" arbitrary: k s a b)
  case 0
  then have "k = 8" by simp
  then show ?case using 0 by (intro exI [of _ b] exI [of _ a] exI [of _ s]) simp
next
  case (Suc d)
  then have k: "k < 8" by simp
  obtain r s' where s': "initFileDescriptors H (word_of_nat k) s = Some (r, s')"
      "sector_scanned content ok (crc32_calc H) old v n k s (r, s')"
    using initFileDescriptors_ok [OF Suc.prems(1) ring k] adm by (metis surj_pair)
  have len: "length (curr_address s) = 8" using Suc.prems(1) scannedD(2) by (auto simp: scan_ok_def)
  obtain b' a' s'' where s'': "sectors_done n c (Suc k) (b', a', s'')"
      "scan_ok content ok (crc32_calc H) old v n (128 * Suc k) s''"
      "fs_init_sectors H (k # [Suc k..<8]) b a s = fs_init_sectors H [Suc k..<8] b' a' s''"
    using sectors_done_step [OF Suc.prems(3) ring k s'(2) len] s'(1) by blast
  have "[k..<8] = k # [Suc k..<8]" using k by (simp add: upt_conv_Cons)
  then show ?case using Suc.hyps(1) [of "Suc k" s'' b' a'] Suc.hyps(2) s'' k by simp
qed

lemma scanned_all_rel:
  assumes s: "scanned crc n 1024 img s" and ring: "ring n (cur s)"
    and addr: "\<forall>j < 8. curr_address s ! j = slot_addr (128 * j + n j)"
  shows "fs_rel crc n img s"
proof -
  have "curr_address s = map (\<lambda>k. slot_addr (128 * k + n k)) [0..<8]"
    using addr scannedD(2) [OF s] by (intro nth_equalityI) auto
  moreover have "\<exists>i < nfd s. fd_slot (Fs_fd s ! i) = m" if "valid crc (img m)" for m
    using valid_lt [OF scannedD(4) [OF s] that] scannedD(11) [OF s _ that] by blast
  ultimately show ?thesis
    using s ring unfolding scanned_def fs_rel_def by simp
qed

lemma fs_init_ok:
  assumes s: "scan_ok content ok (crc32_calc H) old v n 0 s" and ring: "ring n c"
    and adm: "\<And>img. image_ok (crc32_calc H) img \<Longrightarrow> flash_vars (crc32_calc H) img = v \<Longrightarrow> adm img"
  shows "\<exists>s'. fs_init H s = Some s' \<and> fs_ok content ok (crc32_calc H) v n s' \<and>
    (unique (crc32_calc H) old \<longrightarrow> content (hw s') = old) \<and>
    (n (cur s') = 128 \<longrightarrow> (\<forall>k < 8. n k = 128))"
proof -
  obtain b a s1 where s1: "fs_init_sectors H [0..<8] 0 False s = Some (b, a, s1)"
      "scan_ok content ok (crc32_calc H) old v n 1024 s1" "sectors_done n c 8 (b, a, s1)"
    using fs_init_sectors_ok [of old v n 0 s c 0 False] s ring adm by (auto simp: sectors_done_def)
  then have fin: "\<forall>j < 8. curr_address s1 ! j = slot_addr (128 * j + n j)"
      "a \<longleftrightarrow> (\<exists>j < 8. 0 < n j \<and> n j < 128)" "a \<longrightarrow> cur s1 = c" "unat b < 8"
      "(\<exists>j < 8. n j = 0) \<longrightarrow> n (unat b) = 0"
    by (simp_all add: sectors_done_def)
  define s2 where "s2 = (if \<not> a then s1\<lparr>curr_sector := b\<rparr> else s1)"
  have s2: "scan_ok content ok (crc32_calc H) old v n 1024 s2" "curr_address s2 = curr_address s1"
    using s1(2) by (simp_all add: s2_def scan_ok_def)
  have le: "n k \<le> 128" if "k < 8" for k
  proof -
    have "layout (content (hw s1)) n" using s1(2) scannedD(4) by (auto simp: scan_ok_def)
    then show ?thesis using that by (rule fill_le)
  qed
  have cur: "ring n (cur s2) \<and> (n (cur s2) = 128 \<longrightarrow> (\<forall>k < 8. n k = 128))"
  proof (cases a)
    case True
    then have "n c \<noteq> 128" using fin(2) ring by (auto simp: ring_def)
    then show ?thesis using True ring fin(3) by (simp add: s2_def)
  next
    case False
    then have "n k = 0 \<or> n k = 128" if "k < 8" for k using fin(2) that le [OF that] by (metis le_neq_implies_less not_gr0)
    then show ?thesis using False fin(4,5) by (auto simp: s2_def ring_def)
  qed
  then have rel: "fs_rel (crc32_calc H) n (content (hw s2)) s2"
    using s2 fin(1) by (intro scanned_all_rel) (simp_all add: scan_ok_def)
  obtain t w where t: "timer_set H (Fs_timer s2) (5 * CLOCK_SECOND) (hw s2) = (t, w)" "ok w" "content w = content (hw s2)"
    using timer_set_keeps [of "hw s2" "Fs_timer s2" "5 * CLOCK_SECOND"] s2(1)
    by (cases "timer_set H (Fs_timer s2) (5 * CLOCK_SECOND) (hw s2)") (auto simp: scan_ok_def)
  have "fs_init H s = Some (s2\<lparr>Fs_timer := t, hw := w, Fs_pt := 0\<rparr>)"
    using s1(1) t(1) by (simp add: fs_init_def s2_def [symmetric] PT_INIT_def set_pt_def)
  moreover have "unique (crc32_calc H) old \<longrightarrow> content w = old"
    using s2(1) t(3) by (simp add: scan_ok_def)
  moreover have "fs_ok content ok (crc32_calc H) v n (s2\<lparr>Fs_timer := t, hw := w, Fs_pt := 0\<rparr>)"
    using rel t(2,3) s2(1) scannedD(3) by (auto simp: fs_ok_def scan_ok_def th_inv_def)
  ultimately show ?thesis using cur by simp
qed

text \<open>
  A reboot recovers the variables of any well-formed image, and writes nothing where no variable
  has two blocks. The active sector has room if any sector has.
\<close>

lemma boot_fill:
  assumes "ok w" "image_ok (crc32_calc H) (content w)" "v = flash_vars (crc32_calc H) (content w)"
    and n: "layout (content w) n" "ring n c"
    and adm: "\<And>img. image_ok (crc32_calc H) img \<Longrightarrow> flash_vars (crc32_calc H) img = v \<Longrightarrow> adm img"
  shows "\<exists>s. boot H w = Some s \<and> fs_ok content ok (crc32_calc H) v n s \<and>
    (unique (crc32_calc H) (content w) \<longrightarrow> content (hw s) = content w) \<and>
    (n (cur s) = 128 \<longrightarrow> (\<forall>k < 8. n k = 128))"
proof -
  have "scan_ok content ok (crc32_calc H) (content w) v n 0 (Fs_zero w)"
    using assms(1-4) by (simp add: scan_ok_def scanned_def Fs_zero_def image_ok_def)
  then have "\<exists>s'. fs_init H (Fs_zero w) = Some s' \<and> fs_ok content ok (crc32_calc H) v n s' \<and>
      (unique (crc32_calc H) (content w) \<longrightarrow> content (hw s') = content w) \<and>
      (n (cur s') = 128 \<longrightarrow> (\<forall>k < 8. n k = 128))"
    by (rule fs_init_ok [OF _ n(2)]) (rule adm)
  then show ?thesis by (auto simp: boot_def)
qed

lemma boot_ok:
  assumes "ok w" "image_ok (crc32_calc H) (content w)" "v = flash_vars (crc32_calc H) (content w)"
    and adm: "\<And>img. image_ok (crc32_calc H) img \<Longrightarrow> flash_vars (crc32_calc H) img = v \<Longrightarrow> adm img"
  shows "\<exists>s n. boot H w = Some s \<and> fs_ok content ok (crc32_calc H) v n s \<and>
    (unique (crc32_calc H) (content w) \<longrightarrow> content (hw s) = content w)"
proof -
  obtain n c where n: "layout (content w) n" "ring n c" using assms(2) by (auto simp: image_ok_def)
  have "\<exists>s. boot H w = Some s \<and> fs_ok content ok (crc32_calc H) v n s \<and>
      (unique (crc32_calc H) (content w) \<longrightarrow> content (hw s) = content w) \<and>
      (n (cur s) = 128 \<longrightarrow> (\<forall>k < 8. n k = 128))"
    by (rule boot_fill [OF assms(1-3) n]) (rule adm)
  then show ?thesis by blast
qed

end

end
