(* ===== verification/FileSystem.thy ===== *)
theory FileSystem
  imports FsRead Recovery
begin

text \<open>
  The whole system on the mocked board: its calls and its power cuts as a step relation, the
  map of variables it promises to be, and the refinement between the two. \<open>mock_fs crc v s\<close>
  is the relation: state \<open>s\<close> keeps the invariant and its flash holds the variables \<open>v\<close>.
\<close>

section \<open>Abstraction\<close>

definition mock_fs :: "(bytes \<Rightarrow> u32) \<Rightarrow> (key \<Rightarrow> bytes option) \<Rightarrow> FlashMock Fs \<Rightarrow> bool" where
  "mock_fs crc v s \<longleftrightarrow> (\<exists>n. fs_ok mock_content mock_ok crc v n s)"

lemma mock_hal_crc [simp]: "crc32_calc (mock_hal crc) = crc"
  by (simp add: mock_hal_def)

definition all_full :: "'w Fs \<Rightarrow> bool" where
  "all_full s \<longleftrightarrow> (\<forall>k \<in> set [0..<FS_NUM_SECTORS]. SECTOR_IS_FULL s k)"

lemma all_full_iff: "fs_rel crc n img s \<Longrightarrow> all_full s \<longleftrightarrow> (\<forall>k < 8. n k = 128)"
  using full_iff [of crc n img s] by (auto simp: all_full_def)

text \<open>The index has the variable already, or a free descriptor for it.\<close>

definition has_fd :: "'w Fs \<Rightarrow> u16 \<Rightarrow> u8 \<Rightarrow> bool" where
  "has_fd s name ext \<longleftrightarrow> unat (curr_fd_index s) < FD_MAX \<or>
     fd_search (Fs_fd s) name (ucast (ucast ext :: 3 word)) 0 (unat (curr_fd_index s)) < unat (curr_fd_index s)"

lemma has_fd_iff:
  assumes "fs_ok content ok crc v n s"
  shows "has_fd s name ext \<longleftrightarrow> v (Key name (ucast ext)) \<noteq> None \<or> card (dom v) < FD_MAX"
proof -
  have rel: "fs_rel crc n (content (hw s)) s" and v: "flash_vars crc (content (hw s)) = v"
    using assms by (auto simp: fs_ok_def)
  define i where "i = fd_search (Fs_fd s) name (ucast (ucast ext :: 3 word)) 0 (nfd s)"
  have "i < nfd s \<longleftrightarrow> v (Key name (ucast ext)) \<noteq> None"
    by (cases rule: fd_search_small [OF rel ucast3_less i_def refl, unfolded ucast3_back v]) auto
  then show ?thesis
    using card_vars [OF rel] by (auto simp: has_fd_def i_def [symmetric] v)
qed

text \<open>The same file system on a recording device with an empty journal.\<close>

definition journaled :: "'w Fs \<Rightarrow> 'w journal Fs" where
  "journaled s = \<lparr>Fs_timer = Fs_timer s, Fs_fd = Fs_fd s, curr_address = curr_address s,
     curr_sector = curr_sector s, curr_fd_index = curr_fd_index s, reloc_buffer = reloc_buffer s,
     reloc_fd = reloc_fd s, reloc_sector = reloc_sector s, reloc_fd_index = reloc_fd_index s,
     Fs_pt = Fs_pt s, hw = (hw s, [])\<rparr>"

lemma journaled_ok:
  assumes "fs_ok content ok crc v n s" "adm (content (hw s))"
  shows "fs_ok (journal_content content) (journal_ok content ok adm) crc v n (journaled s)"
proof -
  have "fs_rel crc n (content (hw s)) (journaled s) \<longleftrightarrow> fs_rel crc n (content (hw s)) s"
    by (simp add: fs_rel_def journaled_def)
  moreover have "th_inv crc n (content (hw s)) (journaled s) \<longleftrightarrow> th_inv crc n (content (hw s)) s"
    by (simp add: th_inv_def reloc_target_def moved_def picked_def buffered_def journaled_def)
  ultimately show ?thesis
    using assms
    by (simp add: fs_ok_def journal_content_def journal_ok_def journal_states_def)
      (simp add: journaled_def)
qed

section \<open>What is promised\<close>

datatype event =
    Wrote u16 u8 bytes u8 int
  | Fetched u16 u8 bytes u8 int bytes
  | Ran u8 int
  | Rebooted
  | Cut_write u16 u8 bytes u8
  | Cut_thread u8
  | Cut_boot

inductive store_step :: "(key \<Rightarrow> bytes option) \<Rightarrow> event \<Rightarrow> (key \<Rightarrow> bytes option) \<Rightarrow> bool" where
  write_done: "unat l \<le> 28 \<Longrightarrow> store_step v (Wrote name ext d l 0) (v(Key name (ucast ext) \<mapsto> stored d l))"
| write_refused: "unat l \<le> 28 \<Longrightarrow> store_step v (Wrote name ext d l (-2)) v"
| write_long: "28 < unat l \<Longrightarrow> store_step v (Wrote name ext d l (-1)) v"
| read_found: "unat ext < 8 \<Longrightarrow> v (Key name (ucast ext)) = Some x \<Longrightarrow>
    store_step v (Fetched name ext buf l 0 (take (unat l) x @ drop (unat l) buf)) v"
| read_missing: "unat ext < 8 \<Longrightarrow> v (Key name (ucast ext)) = None \<Longrightarrow>
    store_step v (Fetched name ext buf l (-1) buf) v"
| read_alien: "8 \<le> unat ext \<Longrightarrow> store_step v (Fetched name ext buf l (-1) buf) v"
| thread_ran: "store_step v (Ran flag r) v"
| rebooted: "store_step v Rebooted v"
| cut_write_before: "store_step v (Cut_write name ext d l) v"
| cut_write_after: "unat l \<le> 28 \<Longrightarrow>
    store_step v (Cut_write name ext d l) (v(Key name (ucast ext) \<mapsto> stored d l))"
| cut_thread: "store_step v (Cut_thread flag) v"
| cut_boot: "store_step v Cut_boot v"

section \<open>What the program does\<close>

text \<open>
  A call, or a power cut in the middle of one followed by a reboot. The premises on
  \<open>fs_write\<close> and \<open>fs_read\<close> are the client's: buffers as long as it says, a descriptor
  for a new variable, at most 28 bytes read; and it calls \<open>fs_init\<close> once after power-on. What
  happens otherwise is in \<open>Exhaustion\<close>, \<open>FsRead\<close> and \<open>SecondInit\<close>.
\<close>

inductive sys_step :: "(bytes \<Rightarrow> u32) \<Rightarrow> FlashMock Fs \<Rightarrow> event \<Rightarrow> FlashMock Fs \<Rightarrow> bool"
  for crc where
  do_write: "unat l \<le> length d \<Longrightarrow> has_fd s name ext \<Longrightarrow>
    fs_write (mock_hal crc) name ext d l s = Some (r, s') \<Longrightarrow>
    sys_step crc s (Wrote name ext d l r) s'"
| do_read: "unat l \<le> 28 \<Longrightarrow> unat l \<le> length buf \<Longrightarrow>
    fs_read (mock_hal crc) name ext buf l s = Some (r, out, s') \<Longrightarrow>
    sys_step crc s (Fetched name ext buf l r out) s'"
| do_thread: "fs_thread (mock_hal crc) flag s = Some (r, s') \<Longrightarrow> sys_step crc s (Ran flag r) s'"
| do_boot: "boot (mock_hal crc) (hw s) = Some s' \<Longrightarrow> sys_step crc s Rebooted s'"
| cut_write: "unat l \<le> length d \<Longrightarrow> has_fd s name ext \<Longrightarrow>
    fs_write (journal_hal (mock_hal crc)) name ext d l (journaled s) = Some (r, j) \<Longrightarrow>
    w \<in> journal_states (hw j) \<Longrightarrow> boot (mock_hal crc) w = Some s' \<Longrightarrow>
    sys_step crc s (Cut_write name ext d l) s'"
| cut_thread: "fs_thread (journal_hal (mock_hal crc)) flag (journaled s) = Some (r, j) \<Longrightarrow>
    w \<in> journal_states (hw j) \<Longrightarrow> boot (mock_hal crc) w = Some s' \<Longrightarrow>
    sys_step crc s (Cut_thread flag) s'"
| cut_boot: "boot (journal_hal (mock_hal crc)) (hw s, []) = Some j \<Longrightarrow>
    w \<in> journal_states (hw j) \<Longrightarrow> boot (mock_hal crc) w = Some s' \<Longrightarrow>
    sys_step crc s Cut_boot s'"

inductive reachable :: "(bytes \<Rightarrow> u32) \<Rightarrow> FlashMock Fs \<Rightarrow> bool" for crc where
  power_on: "boot (mock_hal crc) FlashMock_new = Some s \<Longrightarrow> reachable crc s"
| step: "reachable crc s \<Longrightarrow> sys_step crc s e s' \<Longrightarrow> reachable crc s'"

section \<open>The operations on the mocked board\<close>

lemma write_mock:
  assumes s: "mock_fs crc v s" and len: "unat l \<le> 28" "unat l \<le> length d" and fd: "has_fd s name ext"
  shows "\<exists>r s'. fs_write (mock_hal crc) name ext d l s = Some (r, s') \<and>
    (if all_full s then r = -2 \<and> s' = s
     else r = 0 \<and> mock_fs crc (v(Key name (ucast ext) \<mapsto> stored d l)) s')"
proof -
  obtain n where g: "fs_ok mock_content mock_ok (crc32_calc (mock_hal crc)) v n s"
    using s by (auto simp: mock_fs_def)
  then have full: "all_full s \<longleftrightarrow> (\<forall>k < 8. n k = 128)"
    using all_full_iff [of crc n "mock_content (hw s)" s] by (simp add: fs_ok_def)
  have free: "v (Key name (ucast ext)) \<noteq> None \<or> card (dom v) < FD_MAX"
    using has_fd_iff [OF g] fd by blast
  show ?thesis
    by (rule mock.fs_write_good [OF g len refl free refl TrueI])
      (use full in \<open>auto simp: mock_fs_def\<close>)
qed

lemma write_mock_full:
  assumes s: "mock_fs crc v s" and len: "unat l \<le> 28" and full: "all_full s"
  shows "fs_write (mock_hal crc) name ext d l s = Some (-2, s)"
proof -
  obtain n where g: "fs_ok mock_content mock_ok (crc32_calc (mock_hal crc)) v n s"
    using s by (auto simp: mock_fs_def)
  then have full: "\<forall>k < 8. n k = 128"
    using full all_full_iff [of crc n "mock_content (hw s)" s] by (simp add: fs_ok_def)
  show ?thesis
    by (rule mock.updateSector_ok [OF g TrueI])
      (use full len in \<open>auto simp: fs_write_unfold fs_write_with_def\<close>)
qed

lemma read_mock:
  assumes s: "mock_fs crc v s" and ext: "unat ext < 8" and len: "unat l \<le> 28" "unat l \<le> length buf"
  shows "case v (Key name (ucast ext)) of
      Some x \<Rightarrow> \<exists>s'. fs_read (mock_hal crc) name ext buf l s =
        Some (0, take (unat l) x @ drop (unat l) buf, s') \<and> mock_fs crc v s'
    | None \<Rightarrow> fs_read (mock_hal crc) name ext buf l s = Some (-1, buf, s)"
proof -
  obtain n where g: "fs_ok mock_content mock_ok (crc32_calc (mock_hal crc)) v n s"
    using s by (auto simp: mock_fs_def)
  show ?thesis
    using mock.fs_read_good [OF g ext len, of name]
    by (auto simp: mock_fs_def split: option.splits)
qed

lemma thread_mock:
  assumes "mock_fs crc v s"
  shows "\<exists>r s'. fs_thread (mock_hal crc) flag s = Some (r, s') \<and> mock_fs crc v s'"
proof -
  obtain n where g: "fs_ok mock_content mock_ok (crc32_calc (mock_hal crc)) v n s"
    using assms by (auto simp: mock_fs_def)
  show ?thesis using mock.fs_thread_good [OF g TrueI, of flag] by (auto simp: mock_fs_def)
qed

lemma boot_mock:
  assumes "mock_ok w" "image_ok crc (mock_content w)"
  shows "\<exists>s. boot (mock_hal crc) w = Some s \<and> mock_fs crc (flash_vars crc (mock_content w)) s"
  using mock.boot_ok [of w crc "flash_vars crc (mock_content w)"] assms by (auto simp: mock_fs_def)

lemma mock_fs_image:
  "mock_fs crc v s \<Longrightarrow> mock_ok (hw s) \<and> image_ok crc (mock_content (hw s)) \<and>
     flash_vars crc (mock_content (hw s)) = v"
  by (auto simp: mock_fs_def fs_ok_def dest: fs_rel_image_ok)

text \<open>Every state the journal holds recovers.\<close>

lemma journal_boot:
  assumes "journal_ok mock_content mock_ok (between crc v v') j" "w \<in> journal_states j"
  shows "\<exists>s. boot (mock_hal crc) w = Some s \<and> (mock_fs crc v s \<or> mock_fs crc v' s)"
proof -
  have "mock_ok w" "between crc v v' (mock_content w)"
    using assms by (auto simp: journal_ok_def)
  then show ?thesis using boot_mock [of w crc] by (auto simp: between_def)
qed

lemma cut_write_mock:
  assumes s: "mock_fs crc v s" and len: "unat l \<le> 28" "unat l \<le> length d" and fd: "has_fd s name ext"
  shows "\<exists>r j. fs_write (journal_hal (mock_hal crc)) name ext d l (journaled s) = Some (r, j) \<and>
    journal_ok mock_content mock_ok (between crc v (v(Key name (ucast ext) \<mapsto> stored d l))) (hw j)"
proof -
  let ?v = "v(Key name (ucast ext) \<mapsto> stored d l)"
  obtain n where g: "fs_ok mock_content mock_ok crc v n s" using s by (auto simp: mock_fs_def)
  have free: "v (Key name (ucast ext)) \<noteq> None \<or> card (dom v) < FD_MAX"
    using has_fd_iff [OF g] fd by blast
  have "between crc v ?v (mock_content (hw s))"
    using mock_fs_image [OF s] by (simp add: between_def)
  with g have "fs_ok (journal_content mock_content) (journal_ok mock_content mock_ok (between crc v ?v)) crc v n (journaled s)"
    by (rule journaled_ok)
  then
  have gj: "fs_ok (journal_content mock_content) (journal_ok mock_content mock_ok (between crc v ?v))
      (crc32_calc (journal_hal (mock_hal crc))) v n (journaled s)" by simp
  show ?thesis
    by (rule mock.journal.fs_write_good [OF gj len refl free refl])
      (use gj in \<open>auto simp: fs_ok_def\<close>)
qed

lemma cut_thread_mock:
  assumes s: "mock_fs crc v s"
  shows "\<exists>r j. fs_thread (journal_hal (mock_hal crc)) flag (journaled s) = Some (r, j) \<and>
    journal_ok mock_content mock_ok (between crc v v) (hw j)"
proof -
  obtain n where g: "fs_ok mock_content mock_ok crc v n s" using s by (auto simp: mock_fs_def)
  have "between crc v v (mock_content (hw s))" using mock_fs_image [OF s] by (simp add: between_def)
  with g have "fs_ok (journal_content mock_content) (journal_ok mock_content mock_ok (between crc v v)) crc v n (journaled s)"
    by (rule journaled_ok)
  then
  have gj: "fs_ok (journal_content mock_content) (journal_ok mock_content mock_ok (between crc v v))
      (crc32_calc (journal_hal (mock_hal crc))) v n (journaled s)" by simp
  show ?thesis using mock.journal.fs_thread_good [OF gj, of flag] by (auto simp: fs_ok_def between_def)
qed

lemma cut_boot_mock:
  assumes w: "mock_ok w" "image_ok crc (mock_content w)" and v: "v = flash_vars crc (mock_content w)"
  shows "\<exists>j. boot (journal_hal (mock_hal crc)) (w, []) = Some j \<and>
    journal_ok mock_content mock_ok (between crc v v) (hw j)"
  using mock.journal.boot_ok [of "between crc v v" "(w, [])" crc v] w v
  by (auto simp: fs_ok_def between_def journal_ok_def journal_states_def journal_content_def)

section \<open>Refinement\<close>

inductive_simps store_step_simps:
  "store_step v (Wrote name ext d l r) v'"
  "store_step v (Fetched name ext buf l r out) v'"
  "store_step v (Ran flag r) v'"
  "store_step v Rebooted v'"
  "store_step v (Cut_write name ext d l) v'"
  "store_step v (Cut_thread flag) v'"
  "store_step v Cut_boot v'"

lemma write_long_call: "28 < unat l \<Longrightarrow> fs_write H name ext d l s = Some (-1, s)"
  by (simp add: fs_write_unfold fs_write_with_def)

lemma journaled_hw [simp]: "hw (journaled s) = (hw s, [])"
  by (simp add: journaled_def)

lemma cut_long:
  assumes s: "mock_fs crc v s" and boot: "boot (mock_hal crc) (hw s) = Some s'"
  shows "mock_fs crc v s'"
  using boot_mock [of "hw s" crc] mock_fs_image [OF s] boot by auto

lemma refines_write:
  assumes s: "mock_fs crc v s" and d: "unat l \<le> length d" "has_fd s name ext"
    and call: "fs_write (mock_hal crc) name ext d l s = Some (r, s')"
  shows "\<exists>v'. store_step v (Wrote name ext d l r) v' \<and> mock_fs crc v' s'"
proof (cases "unat l \<le> 28")
  case True
  then show ?thesis
    using write_mock [OF s True d] call s by (cases "all_full s") (auto simp: store_step_simps)
next
  case False
  then show ?thesis using call s write_long_call [of l "mock_hal crc" name ext d s] by (auto simp: store_step_simps)
qed

lemma refines_read:
  assumes s: "mock_fs crc v s" and l: "unat l \<le> 28" "unat l \<le> length buf"
    and call: "fs_read (mock_hal crc) name ext buf l s = Some (r, out, s')"
  shows "\<exists>v'. store_step v (Fetched name ext buf l r out) v' \<and> mock_fs crc v' s'"
proof (cases "unat ext < 8")
  case True
  then show ?thesis
    using read_mock [OF s True l, of name] call s
    by (cases "v (Key name (ucast ext))") (auto simp: store_step_simps)
next
  case False
  then show ?thesis
    using call s fs_read_large [of ext "mock_hal crc" name buf l s] by (auto simp: store_step_simps)
qed

lemma refines_cut_write:
  assumes s: "mock_fs crc v s" and d: "unat l \<le> length d" "has_fd s name ext"
    and call: "fs_write (journal_hal (mock_hal crc)) name ext d l (journaled s) = Some (r, j)"
    and cut: "w \<in> journal_states (hw j)" "boot (mock_hal crc) w = Some s'"
  shows "\<exists>v'. store_step v (Cut_write name ext d l) v' \<and> mock_fs crc v' s'"
proof (cases "unat l \<le> 28")
  case True
  then have "journal_ok mock_content mock_ok (between crc v (v(Key name (ucast ext) \<mapsto> stored d l))) (hw j)"
    using cut_write_mock [OF s True d] call by auto
  from journal_boot [OF this cut(1)] show ?thesis using True cut(2) by (auto simp: store_step_simps)
next
  case False
  then have "j = journaled s" using call write_long_call [of l "journal_hal (mock_hal crc)" name ext d] by simp
  then show ?thesis using cut cut_long [OF s] by (auto simp: store_step_simps journal_states_def)
qed

lemma refines_step:
  assumes s: "mock_fs crc v s" and step: "sys_step crc s e s'"
  shows "\<exists>v'. store_step v e v' \<and> mock_fs crc v' s'"
  using step
proof cases
  case (do_write l d name ext r)
  then show ?thesis using refines_write [OF s] by blast
next
  case (do_read l buf name ext r out)
  then show ?thesis using refines_read [OF s] by blast
next
  case (do_thread flag r)
  then show ?thesis using thread_mock [OF s, of flag] by (auto simp: store_step_simps)
next
  case do_boot
  then show ?thesis using cut_long [OF s] by (auto simp: store_step_simps)
next
  case (cut_write l d name ext r j w)
  then show ?thesis using refines_cut_write [OF s] by blast
next
  case (cut_thread flag r j w)
  then have "journal_ok mock_content mock_ok (between crc v v) (hw j)"
    using cut_thread_mock [OF s, of flag] by auto
  from journal_boot [OF this cut_thread(3)] show ?thesis using cut_thread(1,4) by (auto simp: store_step_simps)
next
  case (cut_boot j w)
  then have "journal_ok mock_content mock_ok (between crc v v) (hw j)"
    using cut_boot_mock [of "hw s" crc v] mock_fs_image [OF s] by auto
  from journal_boot [OF this cut_boot(3)] show ?thesis using cut_boot(1,4) by (auto simp: store_step_simps)
qed

section \<open>A blank board\<close>

lemma blank_content: "mock_content FlashMock_new m = blank_block"
  by (simp add: mock_content_def FlashMock_new_def mock_sector_def)

lemma blank_image:
  shows "mock_ok FlashMock_new" "image_ok crc (mock_content FlashMock_new)"
    "flash_vars crc (mock_content FlashMock_new) = Map.empty"
proof -
  show "mock_ok FlashMock_new" by (simp add: mock_ok_def FlashMock_new_def chunks_ok_def)
  have none: "\<not> live crc (mock_content FlashMock_new) key m" for key m
    by (simp add: live_def blank_content)
  show v: "flash_vars crc (mock_content FlashMock_new) = Map.empty"
    by (intro ext) (simp add: flash_vars_None none)
  have "layout (mock_content FlashMock_new) (\<lambda>_. 0)" "ring (\<lambda>_. 0) 0"
    by (simp_all add: layout_def blank_content ring_def)
  then show "image_ok crc (mock_content FlashMock_new)"
    by (auto simp: image_ok_def v pairs_def none)
qed

definition fresh :: "FlashMock Fs" where
  "fresh = the (boot (mock_hal crc32_calc_stub) FlashMock_new)"

lemma fresh_boot: "boot (mock_hal crc32_calc_stub) FlashMock_new = Some fresh"
  and fresh_ok: "mock_fs crc32_calc_stub Map.empty fresh"
  using boot_mock [OF blank_image(1,2), of crc32_calc_stub] blank_image(3) [of crc32_calc_stub]
  by (auto simp: fresh_def)

lemma reachable_ok: "reachable crc s \<Longrightarrow> \<exists>v. mock_fs crc v s"
proof (induction rule: reachable.induct)
  case (power_on s)
  then show ?case using boot_mock [OF blank_image(1,2), of crc] by auto
next
  case (step s e s')
  then show ?case using refines_step by blast
qed

end
