(* ===== verification/Boards.thy ===== *)
theory Boards
  imports FileSystem
begin

text \<open>
  Concrete boards for the examples: the first \<open>N\<close> slots hold the blocks \<open>f 0, f 1, \<dots>\<close>, the
  others are blank. A block \<open>many_block m\<close> is the current block of variable number \<open>m\<close>; a
  \<open>dead_block\<close> is programmed with zeros.
\<close>

definition board :: "(nat \<Rightarrow> bytes) \<Rightarrow> nat \<Rightarrow> FlashMock" where
  "board f N = FlashMock_new\<lparr>flash := map (\<lambda>k. map (\<lambda>m. \<lparr>c_address = slot_addr m, c_buffer = f m\<rparr>)
     (filter (\<lambda>m. m < N) [128 * k ..< 128 * k + 128])) [0..<8]\<rparr>"

definition many_block :: "nat \<Rightarrow> bytes" where
  "many_block m = updateBlockHash crc32_calc_stub
     (header_bytes (zero_header\<lparr>h_name := word_of_nat m\<rparr>) @ replicate 28 0) 32 FS_SIZE32 FS_BLOCK_CURRENT"

definition dead_block :: bytes where
  "dead_block = replicate 32 0"

lemma many_block_facts:
  "length (many_block m) = 32" "valid crc32_calc_stub (many_block m)"
  "key_of (many_block m) = Key (word_of_nat m) 0" "newer_of (many_block m) = 0"
proof -
  have len: "length (header_bytes (zero_header\<lparr>h_name := word_of_nat m\<rparr>) @ replicate 28 0) = 32" by simp
  show "length (many_block m) = 32" "valid crc32_calc_stub (many_block m)"
    using updateBlockHash_valid [OF len] by (simp_all add: many_block_def)
  show "newer_of (many_block m) = 0" by (simp add: many_block_def hdr_simps)
  have "key_of (header_bytes (zero_header\<lparr>h_name := word_of_nat m\<rparr>) @ replicate 28 0) = Key (word_of_nat m) 0"
    by (simp only: key_of_def get_header_bytes) (simp add: hdr_key_def zero_header_def)
  then show "key_of (many_block m) = Key (word_of_nat m) 0"
    unfolding many_block_def updateBlockHash_key .
qed

lemma dead_block_facts:
  "length dead_block = 32" "\<not> valid crc dead_block" "\<not> hdr_blank dead_block"
proof -
  have h: "h_size (get_header dead_block) = 0"
    by (simp add: dead_block_def get_header_def numeral_eq_Suc)
  show "length dead_block = 32" by (simp add: dead_block_def)
  show "\<not> valid crc dead_block" "\<not> hdr_blank dead_block"
    using h hdr_blank_size [of dead_block] by (auto simp: valid_iff)
qed

lemma find_slot_chunk:
  assumes "m \<le> 1024" "\<forall>j \<in> set ms. j \<le> 1024"
  shows "find (\<lambda>c. c_address c = slot_addr m) (map (\<lambda>m. \<lparr>c_address = slot_addr m, c_buffer = f m\<rparr>) ms)
    = (if m \<in> set ms then Some \<lparr>c_address = slot_addr m, c_buffer = f m\<rparr> else None)"
  using assms by (induction ms) (auto simp: slot_addr_inject)

lemma board_content:
  assumes "\<And>m. length (f m) = 32" "N \<le> 1024"
  shows "mock_content (board f N) m = (if m < N then f m else blank_block)"
proof (cases "m < 1024")
  case True
  let ?ms = "filter (\<lambda>m. m < N) [128 * (m div 128) ..< 128 * (m div 128) + 128]"
  have "m \<in> set ?ms \<longleftrightarrow> m < N"
    using mult_div_mod_eq [of 128 m] mod_less_divisor [of 128 m] by auto
  moreover have "m div 128 < 8" using True by auto
  moreover have "\<forall>j \<in> set ?ms. j \<le> 1024" using assms(2) by auto
  ultimately show ?thesis
    using True find_slot_chunk [of m ?ms f] assms(1) [of m]
    by (simp add: mock_content_def board_def mock_sector_def)
next
  case False
  then show ?thesis using assms(2) by (simp add: mock_content_def)
qed

lemma board_ok:
  assumes "\<And>m. length (f m) = 32" "N \<le> 1024"
  shows "mock_ok (board f N)"
proof -
  have "chunks_ok k (map (\<lambda>m. \<lparr>c_address = slot_addr m, c_buffer = f m\<rparr>)
      (filter (\<lambda>m. m < N) [128 * k ..< 128 * k + 128]))" if "k < 8" for k
  proof -
    have "inj_on slot_addr (set (filter (\<lambda>m. m < N) [128 * k ..< 128 * k + 128]))"
      using assms(2) by (auto intro!: inj_onI simp: slot_addr_inject)
    then show ?thesis
      using that by (auto simp: chunks_ok_def comp_def distinct_map assms(1)
          intro!: exI [of _ "_ :: nat"] div_nat_eqI)
  qed
  then show ?thesis by (simp add: mock_ok_def board_def FlashMock_new_def)
qed

text \<open>The sectors are filled one after the other.\<close>

definition fill_of :: "nat \<Rightarrow> nat \<Rightarrow> nat" where
  "fill_of N k = min 128 (N - 128 * k)"

lemma board_layout:
  assumes f: "\<And>m. length (f m) = 32" "\<And>m. \<not> hdr_blank (f m)" and N: "N \<le> 1024"
  shows "layout (mock_content (board f N)) (fill_of N)"
proof -
  have "m mod 128 < fill_of N (m div 128) \<longleftrightarrow> m < N" for m :: nat
  proof -
    define q r where "q = m div 128" and "r = m mod 128"
    have "m = 128 * q + r" "r < 128" by (simp_all add: q_def r_def)
    then show ?thesis unfolding q_def [symmetric] r_def [symmetric] by (auto simp: fill_of_def)
  qed
  moreover have "fill_of N k \<le> 128" for k by (simp add: fill_of_def)
  moreover have "fill_of N k = 0" if "8 \<le> k" for k using that N by (simp add: fill_of_def)
  ultimately show ?thesis
    using N by (auto simp: layout_def board_content [OF f(1) N] f)
qed

lemma name_inj:
  assumes "m < 65536" "m' < 65536" "(word_of_nat m :: u16) = word_of_nat m'"
  shows "m = m'"
proof -
  have unat: "unat (word_of_nat j :: u16) = j" if "j < 65536" for j
    using that by (simp add: unat_of_nat)
  show ?thesis using unat [OF assms(1)] unat [OF assms(2)] assms(3) by metis
qed

section \<open>A board with a variable in every sector\<close>

definition busy_block :: "nat \<Rightarrow> bytes" where
  "busy_block m = (if m mod 128 = 0 then many_block m else dead_block)"

definition busy_board :: "nat \<Rightarrow> FlashMock" where
  "busy_board N = board busy_block N"

lemma busy_block_facts: "length (busy_block m) = 32" "\<not> hdr_blank (busy_block m)"
  "valid crc32_calc_stub (busy_block m) \<longleftrightarrow> m mod 128 = 0"
  using many_block_facts(1,2) [of m] dead_block_facts valid_not_blank by (auto simp: busy_block_def)


lemma busy_content:
  "N \<le> 1024 \<Longrightarrow> mock_content (busy_board N) m = (if m < N then busy_block m else blank_block)"
  unfolding busy_board_def by (rule board_content [OF busy_block_facts(1)])

lemma busy_live:
  assumes "N \<le> 1024"
  shows "live crc32_calc_stub (mock_content (busy_board N)) key m \<longleftrightarrow>
    m < N \<and> m mod 128 = 0 \<and> key = Key (word_of_nat m) 0"
  using many_block_facts(3) [of m] busy_block_facts(3) [of m]
  by (auto simp: live_def busy_content [OF assms] busy_block_def)

definition busy_vars :: "nat \<Rightarrow> key \<Rightarrow> bytes option" where
  "busy_vars N = flash_vars crc32_calc_stub (mock_content (busy_board N))"

lemma busy_image:
  assumes N: "896 < N" "N \<le> 1024"
  shows "image_ok crc32_calc_stub (mock_content (busy_board N))"
    "layout (mock_content (busy_board N)) (fill_of N)" "ring (fill_of N) 7"
proof -
  have "dom (busy_vars N) \<subseteq> (\<lambda>k. Key (word_of_nat (128 * k)) 0) ` {..<8}"
  proof
    fix key assume "key \<in> dom (busy_vars N)"
    then obtain m where m: "m < 1024" "live crc32_calc_stub (mock_content (busy_board N)) key m"
      by (auto simp: busy_vars_def domIff flash_vars_None)
    then have "m mod 128 = 0" "key = Key (word_of_nat m) 0" using busy_live [OF N(2)] by auto
    moreover from this(1) have "m = 128 * (m div 128)" using mult_div_mod_eq [of 128 m] by simp
    ultimately show "key \<in> (\<lambda>k. Key (word_of_nat (128 * k)) 0) ` {..<8}"
      using m(1) by (intro image_eqI [of _ _ "m div 128"]) auto
  qed
  then have "card (dom (busy_vars N)) \<le> 8"
    using card_mono [of "(\<lambda>k. Key (word_of_nat (128 * k)) 0) ` {..<8}" "dom (busy_vars N)"]
      card_image_le [of "{..<8::nat}" "\<lambda>k. Key (word_of_nat (128 * k)) 0"] by simp
  moreover have "pairs crc32_calc_stub (mock_content (busy_board N))"
    using name_inj N(2) by (intro pairsI) (auto simp: busy_live [OF N(2)])
  moreover show "layout (mock_content (busy_board N)) (fill_of N)"
    unfolding busy_board_def by (rule board_layout) (use busy_block_facts N in auto)
  moreover show "ring (fill_of N) 7" using N by (auto simp: ring_def fill_of_def)
  ultimately show "image_ok crc32_calc_stub (mock_content (busy_board N))"
    by (auto simp: image_ok_def busy_vars_def)
qed

lemma busy_boot:
  assumes N: "896 < N" "N \<le> 1024"
  obtains s where "boot (mock_hal crc32_calc_stub) (busy_board N) = Some s"
    "fs_ok mock_content mock_ok crc32_calc_stub (busy_vars N) (fill_of N) s"
proof -
  have "mock_ok (busy_board N)"
    unfolding busy_board_def by (rule board_ok) (use busy_block_facts N in auto)
  then show thesis
    using mock.boot_fill [of "busy_board N" crc32_calc_stub "busy_vars N" "fill_of N" 7] busy_image [OF N] that
    by (auto simp: busy_vars_def)
qed


text \<open>
  The running system on the board whose first \<open>q\<close> sectors are full and the others blank, with
  one variable in each full sector and \<open>c\<close> as the active sector.
\<close>

definition busy_fd :: "nat \<Rightarrow> st_fileDescriptor" where
  "busy_fd i = \<lparr>fd_address = slot_addr (128 * i), fd_header = get_header (many_block (128 * i)),
     fd_sector = word_of_nat i\<rparr>"

definition full_state :: "nat \<Rightarrow> u8 \<Rightarrow> FlashMock Fs" where
  "full_state q c = (Fs_zero (busy_board (128 * q)))\<lparr>
     Fs_fd := map busy_fd [0..<q] @ replicate (FD_MAX - q) zero_fd,
     curr_address := map (\<lambda>k. slot_addr (128 * k + (if k < q then 128 else 0))) [0..<8],
     curr_sector := c, curr_fd_index := word_of_nat q\<rparr>"

lemma full_state_sel [simp]:
  "hw (full_state q c) = busy_board (128 * q)" "Fs_pt (full_state q c) = 0" "curr_sector (full_state q c) = c"
  "q \<le> 8 \<Longrightarrow> nfd (full_state q c) = q" "q \<le> 8 \<Longrightarrow> length (Fs_fd (full_state q c)) = FD_MAX"
  "length (reloc_buffer (full_state q c)) = 32"
  "curr_address (full_state q c) = map (\<lambda>k. slot_addr (128 * k + (if k < q then 128 else 0))) [0..<8]"
  "i < q \<Longrightarrow> Fs_fd (full_state q c) ! i = busy_fd i"
  by (simp_all add: full_state_def Fs_zero_def nth_append unat_of_nat)

lemma busy_fd_key: "fd_key (busy_fd i) = Key (word_of_nat (128 * i)) 0"
  using many_block_facts(3) [of "128 * i"] by (simp add: busy_fd_def key_of_def)

lemma fill_of_full: "fill_of (128 * q) k = (if k < q then 128 else 0)"
  by (auto simp: fill_of_def)

lemma full_state_rel:
  assumes q: "q \<le> 8" and c: "unat c < 8"
  shows "fs_rel crc32_calc_stub (fill_of (128 * q)) (mock_content (busy_board (128 * q))) (full_state q c)"
proof -
  let ?img = "mock_content (busy_board (128 * q))"
  have N: "128 * q \<le> 1024" using q by simp
  have fd: "fd_ok crc32_calc_stub ?img (busy_fd i)" if "i < q" for i
    using that q many_block_facts(2) [of "128 * i"]
    by (simp add: fd_ok_def busy_fd_def busy_content [OF N] busy_block_def)
  have inj: "i = j" if "i < q" "j < q" "fd_key (busy_fd i) = fd_key (busy_fd j)" for i j
    using name_inj [of "128 * i" "128 * j"] that q by (simp add: busy_fd_key)
  have owner: "\<exists>i < q. fd_slot (Fs_fd (full_state q c) ! i) = m" if "valid crc32_calc_stub (?img m)" for m
  proof -
    have m: "m < 128 * q" "m mod 128 = 0"
      using that busy_block_facts(3) [of m] not_valid_blank by (auto simp: busy_content [OF N] split: if_splits)
    then have "m = 128 * (m div 128)" "m div 128 < q" "m \<le> 1024" using mult_div_mod_eq [of 128 m] q by auto
    then show ?thesis by (intro exI [of _ "m div 128"]) (simp add: busy_fd_def [of "m div 128"])
  qed
  have "layout ?img (fill_of (128 * q))"
    unfolding busy_board_def by (rule board_layout) (use busy_block_facts N in auto)
  moreover have "ring (fill_of (128 * q)) (unat c)" using c by (simp add: ring_def fill_of_full)
  ultimately show ?thesis
    using fd inj owner q unfolding fs_rel_def by (auto simp: fill_of_full simp del: upt_rec_numeral)
qed

lemma full_state_mock_ok: "q \<le> 8 \<Longrightarrow> mock_ok (busy_board (128 * q))"
  unfolding busy_board_def by (rule board_ok) (use busy_block_facts in auto)

text \<open>All sectors full, as start-up would leave it.\<close>

definition busy_state :: "FlashMock Fs" where
  "busy_state = full_state 8 7"

lemma busy_state_sel [simp]:
  "hw busy_state = busy_board 1024" "nfd busy_state = 8" "i < 8 \<Longrightarrow> Fs_fd busy_state ! i = busy_fd i"
  by (simp_all add: busy_state_def)

lemma busy_state_ok: "fs_ok mock_content mock_ok crc32_calc_stub (busy_vars 1024) (fill_of 1024) busy_state"
  using full_state_rel [of 8 7] full_state_mock_ok [of 8]
  by (simp add: fs_ok_def busy_vars_def th_inv_def busy_state_def)

end
