(* ===== verification/Relocation.thy ===== *)
theory Relocation
  imports Boards
begin

text \<open>
  The relocation thread as a whole. On a board whose flash is ready when asked, and with room in
  the active sector for the variables of the sector it chose, the thread called over and over
  needs two calls per variable and ends by erasing the sector. With all sectors full it cannot
  make room any more.
\<close>

section \<open>What is left to move\<close>

definition left_from :: "'w Fs \<Rightarrow> nat \<Rightarrow> nat set" where
  "left_from s i = {j. i \<le> j \<and> j < nfd s \<and> fd_sector (Fs_fd s ! j) = reloc_sector s}"

abbreviation left :: "'w Fs \<Rightarrow> nat" where
  "left s \<equiv> card (left_from s (ridx s))"

lemma left_from_frame [simp]:
  "left_from (s\<lparr>hw := w\<rparr>) i = left_from s i" "left_from (s\<lparr>Fs_pt := l\<rparr>) i = left_from s i"
  "left_from (s\<lparr>reloc_fd_index := j\<rparr>) i = left_from s i" "left_from (s\<lparr>reloc_fd := d\<rparr>) i = left_from s i"
  "left_from (s\<lparr>reloc_buffer := b\<rparr>) i = left_from s i"
  by (simp_all add: left_from_def)

lemma finite_left [simp]: "finite (left_from s i)"
  by (rule finite_subset [of _ "{..<nfd s}"]) (auto simp: left_from_def)

lemma left_from_skip:
  assumes "fd_sector (Fs_fd s ! i) \<noteq> reloc_sector s"
  shows "left_from s (Suc i) = left_from s i"
  using assms by (auto simp: left_from_def Suc_le_eq le_less)

lemma left_from_here:
  assumes "i < nfd s" "fd_sector (Fs_fd s ! i) = reloc_sector s"
  shows "left_from s i = insert i (left_from s (Suc i))" "i \<notin> left_from s (Suc i)"
  using assms by (auto simp: left_from_def Suc_le_eq le_less)

lemma ridx_Suc:
  assumes "ridx s < nfd s" "fs_rel crc n img s"
  shows "unat (reloc_fd_index s + 1) = Suc (ridx s)"
proof -
  have "ridx s < 65535" using assms(1) fs_rel_nfd [OF assms(2)] by simp
  then show ?thesis by (simp add: unat_word_ariths)
qed

text \<open>The states in which the thread has read a block that is still in place.\<close>

definition carrying :: "'w Fs \<Rightarrow> bool" where
  "carrying s \<longleftrightarrow> Fs_pt s = 596 \<and> ridx s < nfd s \<and>
     fd_address (Fs_fd s ! ridx s) = fd_address (reloc_fd s) \<and>
     fd_sector (Fs_fd s ! ridx s) = reloc_sector s"

text \<open>What the \<open>for\<close> loop comes to: the next block to move, or the erased sector.\<close>

definition same_index :: "'w Fs \<Rightarrow> 'w Fs \<Rightarrow> bool" where
  "same_index s t \<longleftrightarrow> Fs_fd t = Fs_fd s \<and> curr_fd_index t = curr_fd_index s \<and>
     curr_sector t = curr_sector s \<and> reloc_sector t = reloc_sector s"

definition for_result :: "'w Fs \<Rightarrow> (int \<times> 'w Fs) option \<Rightarrow> bool" where
  "for_result s X \<longleftrightarrow> (\<exists>r t. X = Some (r, t) \<and> same_index s t \<and>
     (if left s = 0
      then r = PT_ENDED \<and> Fs_pt t = 0 \<and>
        curr_address t = (curr_address s)[unat (reloc_sector s) := Sector_base ! unat (reloc_sector s)]
      else r = PT_YIELDED \<and> carrying t \<and> left t = left s \<and> curr_address t = curr_address s))"

lemma for_result_from:
  assumes "for_result s' X" "Fs_fd s' = Fs_fd s" "curr_fd_index s' = curr_fd_index s"
    "curr_sector s' = curr_sector s" "reloc_sector s' = reloc_sector s"
    "curr_address s' = curr_address s" "left s' = left s"
  shows "for_result s X"
  using assms by (simp only: for_result_def same_index_def)

lemma findRelocSector_pt:
  "findRelocSector (s\<lparr>Fs_pt := l\<rparr>) = (fst (findRelocSector s), snd (findRelocSector s)\<lparr>Fs_pt := l\<rparr>)"
proof -
  have "reloc_scan (s\<lparr>Fs_pt := l\<rparr>) ks b m = reloc_scan s ks b m" for ks b m
    by (induction s ks b m rule: reloc_scan.induct) (simp_all add: SECTOR_IS_BLANK_def SECTOR_IS_FULL_def)
  moreover have "reloc_histogram (s\<lparr>Fs_pt := l\<rparr>) is m = reloc_histogram s is m" for "is" m
    by (induction s "is" m rule: reloc_histogram.induct) (simp_all add: Let_def)
  moreover have "reloc_winner (s\<lparr>Fs_pt := l\<rparr>) m ks c r = reloc_winner s m ks c r" for m ks c r
    by (induction s m ks c r rule: reloc_winner.induct) (simp_all add: Let_def)
  ultimately show ?thesis
    by (simp add: findRelocSector_def Let_def split: option.split)
qed

text \<open>The loop changes the fill of no sector, but for the one it erases at its end.\<close>

lemma for_result_fill:
  assumes res: "for_result s (Some (r, t))" and s: "fs_rel crc n img s" "reloc_target n s"
    and t: "fs_rel crc n' img' t"
  shows "\<forall>k < 8. n' k = (if left s = 0 \<and> k = unat (reloc_sector s) then 0 else n k)"
    and "n' (cur t) = n (cur s)" "curr_sector t = curr_sector s" "reloc_sector t = reloc_sector s"
    and "if left s = 0 then r = PT_ENDED \<and> Fs_pt t = 0 \<and> SECTOR_IS_BLANK t (unat (reloc_sector s))
         else r = PT_YIELDED \<and> carrying t \<and> left t = left s"
proof -
  let ?k = "unat (reloc_sector s)"
  have k: "?k < 8" "?k \<noteq> cur s" using s(2) by (auto simp: reloc_target_def word_unat_eq_iff)
  have c: "cur s < 8" using fs_rel_curr [OF s(1)] .
  have len: "length (curr_address s) = 8" using s(1) by (simp add: fs_rel_def)
  show same: "curr_sector t = curr_sector s" "reloc_sector t = reloc_sector s"
    using res by (simp_all add: for_result_def same_index_def)
  have fill: "n' j = (if left s = 0 \<and> j = ?k then 0 else n j)" if j: "j < 8" for j
  proof -
    have "curr_address t ! j = (if left s = 0 \<and> j = ?k then Sector_base ! j else curr_address s ! j)"
      using res j len by (auto simp: for_result_def nth_list_update split: if_splits)
    then have "slot_addr (128 * j + n' j) = slot_addr (128 * j + (if left s = 0 \<and> j = ?k then 0 else n j))"
      using curr_address_nth [OF s(1) j] curr_address_nth [OF t j] j by (simp add: Sector_base_slot)
    then show ?thesis
      using j fill_le [OF fs_rel_layout [OF s(1)] j] fill_le [OF fs_rel_layout [OF t] j]
      by (simp add: slot_addr_inject split: if_splits)
  qed
  then show "\<forall>j < 8. n' j = (if left s = 0 \<and> j = ?k then 0 else n j)" by blast
  show "n' (cur t) = n (cur s)" using fill [OF c] k(2) same(1) by simp
  show "if left s = 0 then r = PT_ENDED \<and> Fs_pt t = 0 \<and> SECTOR_IS_BLANK t ?k
        else r = PT_YIELDED \<and> carrying t \<and> left t = left s"
    using res k(1) len by (auto simp: for_result_def SECTOR_IS_BLANK_def split: if_splits)
qed

primrec thread_calls :: "'w hal \<Rightarrow> u8 \<Rightarrow> nat \<Rightarrow> 'w Fs \<Rightarrow> (int list \<times> 'w Fs) option" where
  "thread_calls H flag 0 s = Some ([], s)"
| "thread_calls H flag (Suc m) s = do {
     (r, s) \<leftarrow> fs_thread H flag s;
     (rs, s) \<leftarrow> thread_calls H flag m s;
     Some (r # rs, s)
   }"

text \<open>A call that moves no block and does not end.\<close>

definition stays :: "'w Fs \<Rightarrow> (int \<times> 'w Fs) option \<Rightarrow> bool" where
  "stays s X \<longleftrightarrow> (\<exists>r t. X = Some (r, t) \<and> r \<noteq> PT_ENDED \<and> Fs_fd t = Fs_fd s \<and>
     curr_fd_index t = curr_fd_index s \<and> curr_sector t = curr_sector s \<and> curr_address t = curr_address s)"

definition busy :: "'w Fs \<Rightarrow> bool" where
  "busy s \<longleftrightarrow> (\<forall>k < 8. k \<noteq> cur s \<longrightarrow> (\<exists>i < nfd s. unat (fd_sector (Fs_fd s ! i)) = k))"

locale ready_device = flash_device H content ok adm
  for H :: "'w hal" and content :: "'w \<Rightarrow> image" and ok :: "'w \<Rightarrow> bool" and adm :: "image \<Rightarrow> bool" +
  assumes ready: "ok w \<Longrightarrow> fst (flash_ready H w) = 1"
begin

lemma now_ready:
  assumes "ok (hw s)"
  obtains w where "flash_not_ready H s = Some (False, s\<lparr>hw := w\<rparr>)" "ok w"
  using ready [OF assms] ready_keeps [OF assms]
  by (cases "flash_ready H (hw s)") (auto simp: flash_not_ready_def)

lemma thread_erase_result:
  assumes "ok (hw s)" "left s = 0"
  shows "for_result s (thread_erase H s)"
proof -
  obtain w where w: "flash_not_ready H (set_pt 622 s) = Some (False, (set_pt 622 s)\<lparr>hw := w\<rparr>)"
    using now_ready [of "set_pt 622 s"] assms(1) by (auto simp: set_pt_def)
  then show ?thesis
    using assms(2)
    by (cases "timer_restart H (Fs_timer s) (flash_erase H (Sector_base ! unat (reloc_sector s)) w)")
      (simp add: for_result_def thread_erase_def PT_WAIT_WHILE_def pt_defs set_pt_def restart_timer_def
        same_index_def Let_def)
qed

lemma thread_read_result:
  assumes "ok (hw s)" "ridx s < nfd s" "reloc_fd s = Fs_fd s ! ridx s"
    and "fd_sector (Fs_fd s ! ridx s) = reloc_sector s"
  shows "for_result s (thread_read H s)"
proof -
  obtain w where w: "flash_not_ready H (set_pt 576 s) = Some (False, (set_pt 576 s)\<lparr>hw := w\<rparr>)"
    using now_ready [of "set_pt 576 s"] assms(1) by (auto simp: set_pt_def)
  have "left s \<noteq> 0" using left_from_here [OF assms(2,4)] by simp
  with w show ?thesis
    using assms
    by (cases "flash_read H (fd_address (Fs_fd s ! ridx s)) (reloc_buffer s) w")
      (simp add: for_result_def thread_read_def PT_WAIT_WHILE_def pt_defs set_pt_def same_index_def
        carrying_def left_from_def)
qed

lemma thread_for_result:
  assumes "ok (hw s)" "fs_rel crc n img s" "ridx s \<le> nfd s"
  shows "for_result s (thread_for H s)"
  using assms
proof (induction "nfd s - ridx s" arbitrary: s rule: less_induct)
  case less
  show ?case
  proof (cases "ridx s < nfd s")
    case False
    then have "left_from s (ridx s) = {}" by (auto simp: left_from_def)
    then show ?thesis
      using False thread_erase_result [OF less(2)]
      by (simp add: thread_for.simps [of H s] word_less_nat_alt)
  next
    case True
    then have lt: "reloc_fd_index s < curr_fd_index s" by (simp add: word_less_nat_alt)
    show ?thesis
    proof (cases "fd_sector (Fs_fd s ! ridx s) = reloc_sector s")
      case here: True
      let ?s = "s\<lparr>reloc_fd := Fs_fd s ! ridx s\<rparr>"
      have "for_result ?s (thread_read H ?s)"
        using less(2) True here by (intro thread_read_result) simp_all
      then have "for_result s (thread_read H ?s)" by (rule for_result_from) simp_all
      with lt here show ?thesis by (simp add: thread_for.simps [of H s])
    next
      case away: False
      let ?s = "s\<lparr>reloc_fd_index := reloc_fd_index s + 1\<rparr>"
      note i = ridx_Suc [OF True less(3)]
      have "for_result ?s (thread_for H ?s)"
        using less(2,3) True i by (intro less(1)) simp_all
      then have "for_result s (thread_for H ?s)"
        by (rule for_result_from) (simp_all add: i left_from_skip [OF away])
      with lt away show ?thesis by (simp add: thread_for.simps [of H s])
    qed
  qed
qed

text \<open>The thread called \<open>m\<close> times, with the codes it returns.\<close>

abbreviation calls :: "u8 \<Rightarrow> nat \<Rightarrow> 'w Fs \<Rightarrow> (int list \<times> 'w Fs) option" where
  "calls \<equiv> thread_calls H"

lemma carry_step:
  assumes g: "good v n s" and c: "carrying s" and room: "n (cur s) < 128"
    and adm: "\<And>img. image_ok (crc32_calc H) img \<Longrightarrow> flash_vars (crc32_calc H) img = v \<Longrightarrow> adm img"
  obtains t where "fs_thread H flag s = Some (PT_YIELDED, t)"
    "good v (n(cur s := Suc (n (cur s)))) t" "Fs_pt t = 617" "curr_sector t = curr_sector s"
    "reloc_sector t = reloc_sector s" "left_from t (Suc (ridx t)) = left_from s (Suc (ridx s))"
proof -
  have pt: "Fs_pt s \<in> {596, 610}" and same: "fd_address (Fs_fd s ! ridx s) = fd_address (reloc_fd s)"
    and i: "ridx s < nfd s" using c by (auto simp: carrying_def)
  have rel: "fs_rel (crc32_calc H) n (content (hw s)) s" using g by (simp add: fs_ok_def)
  have away: "curr_sector s \<noteq> reloc_sector s"
    using reloc_write(3) [OF g pt same] by (auto simp: reloc_target_def)
  have key: "fd_key (Fs_fd s ! ridx s) = fd_key (reloc_fd s)" by (rule reloc_write(6) [OF g pt same])
  obtain s' where s': "fs_thread H flag s = Some (PT_YIELDED, s'\<lparr>Fs_pt := 617\<rparr>)"
      "good v (n(cur s := Suc (n (cur s)))) (s'\<lparr>Fs_pt := 617\<rparr>)" "written (fd_key (reloc_fd s)) s s'"
    using thread_reloc_room [OF g room pt same adm] by blast
  have w: "reloc_sector s' = reloc_sector s" "curr_sector s' = curr_sector s" "ridx s' = ridx s" "nfd s \<le> nfd s'"
    using s'(3) by (simp_all add: written_def)
  have moved: "j < nfd s' \<and> fd_sector (Fs_fd s' ! j) = reloc_sector s \<longleftrightarrow>
      j < nfd s \<and> fd_sector (Fs_fd s ! j) = reloc_sector s" if j: "ridx s < j" for j
  proof -
    have other: "fd_key (Fs_fd s ! j) \<noteq> fd_key (reloc_fd s)" if "j < nfd s"
      using fs_rel_key_inj [OF rel that i] j key by auto
    have "j < nfd s' \<longrightarrow>
        j < nfd s \<and> fd_sector (Fs_fd s' ! j) = fd_sector (Fs_fd s ! j) \<or>
        fd_key (Fs_fd s' ! j) = fd_key (reloc_fd s) \<and> fd_sector (Fs_fd s' ! j) = curr_sector s"
      and "j < nfd s \<longrightarrow> fd_key (Fs_fd s' ! j) = fd_key (Fs_fd s ! j)"
      using s'(3) by (auto simp: written_def)
    then show ?thesis using other away w(4) by auto
  qed
  have "left_from s' (Suc (ridx s')) = left_from s (Suc (ridx s))"
    using moved by (auto simp: left_from_def w(1,3) Suc_le_eq)
  then show thesis using that [OF s'(1,2)] w by simp
qed

lemma next_step:
  assumes g: "good v n s" and pt: "Fs_pt s = 617"
    and adm: "\<And>img. image_ok (crc32_calc H) img \<Longrightarrow> flash_vars (crc32_calc H) img = v \<Longrightarrow> adm img"
  obtains r t n' where "fs_thread H flag s = Some (r, t)" "good v n' t" "n' (cur t) = n (cur s)"
    "curr_sector t = curr_sector s" "reloc_sector t = reloc_sector s"
    "if left_from s (Suc (ridx s)) = {}
     then r = PT_ENDED \<and> Fs_pt t = 0 \<and> SECTOR_IS_BLANK t (unat (reloc_sector s))
     else r = PT_YIELDED \<and> carrying t \<and> left t = card (left_from s (Suc (ridx s)))"
    "\<forall>k < 8. n' k = (if left_from s (Suc (ridx s)) = {} \<and> k = unat (reloc_sector s) then 0 else n k)"
proof -
  let ?s = "s\<lparr>reloc_fd_index := reloc_fd_index s + 1\<rparr>"
  have s: "ok (hw s)" "fs_rel (crc32_calc H) n (content (hw s)) s" "reloc_target n s" "ridx s < nfd s"
    using g pt by (auto simp: fs_ok_def th_inv_def)
  note i = ridx_Suc [OF s(4,2)]
  have eq: "fs_thread H flag s = thread_for H ?s"
    using pt by (simp add: fs_thread_def fs_thread_with_def thread_next_def)
  have res: "for_result ?s (thread_for H ?s)"
    using s i by (intro thread_for_result) simp_all
  have "step v n s (thread_next H s)" by (rule thread_next_ok [OF g pt adm])
  then obtain r t n' where t: "thread_for H ?s = Some (r, t)" "good v n' t" "curr_sector t = curr_sector s"
    by (auto simp: thread_step_def thread_next_def)
  have relS: "fs_rel (crc32_calc H) n (content (hw s)) ?s" and target: "reloc_target n ?s"
    using s by simp_all
  have rel': "fs_rel (crc32_calc H) n' (content (hw t)) t" using t(2) by (simp add: fs_ok_def)
  note fr = for_result_fill [OF res [unfolded t(1)] relS target rel']
  show thesis
  proof (rule that [of r t n'])
    show "if left_from s (Suc (ridx s)) = {} then r = PT_ENDED \<and> Fs_pt t = 0 \<and> SECTOR_IS_BLANK t (unat (reloc_sector s))
      else r = PT_YIELDED \<and> carrying t \<and> left t = card (left_from s (Suc (ridx s)))"
      using fr(5) by (simp add: i cong: if_cong)
    show "\<forall>k < 8. n' k = (if left_from s (Suc (ridx s)) = {} \<and> k = unat (reloc_sector s) then 0 else n k)"
      using fr(1) by (simp add: i cong: if_cong)
  qed (use t eq fr(2-4) in simp_all)
qed

lemma calls_from_carrying:
  assumes adm: "\<And>img. image_ok (crc32_calc H) img \<Longrightarrow> flash_vars (crc32_calc H) img = v \<Longrightarrow> adm img"
  shows "left s = Suc d \<Longrightarrow> good v n s \<Longrightarrow> carrying s \<Longrightarrow> n (cur s) + Suc d \<le> 128 \<Longrightarrow>
    \<exists>t n'. calls flag (2 * d + 2) s = Some (replicate (2 * d + 1) PT_YIELDED @ [PT_ENDED], t) \<and>
      good v n' t \<and> SECTOR_IS_BLANK t (unat (reloc_sector s))"
proof (induction d arbitrary: s n)
  case (0 s n)
  then have here: "left_from s (Suc (ridx s)) = {}" and room: "n (cur s) < 128"
    using left_from_here [of "ridx s" s] by (auto simp: carrying_def)
  obtain u where u: "fs_thread H flag s = Some (PT_YIELDED, u)" "good v (n(cur s := Suc (n (cur s)))) u"
      "Fs_pt u = 617" "reloc_sector u = reloc_sector s" "left_from u (Suc (ridx u)) = left_from s (Suc (ridx s))"
    by (rule carry_step [OF 0(2,3) room adm])
  obtain r t n' where "fs_thread H flag u = Some (r, t)" "good v n' t"
      "r = PT_ENDED \<and> SECTOR_IS_BLANK t (unat (reloc_sector u))"
    by (rule next_step [OF u(2,3) adm, where flag = flag]) (use here u(5) in auto)
  then show ?case using u(1,4) by (auto simp: numeral_2_eq_2)
next
  case (Suc d s n)
  have d: "card (left_from s (Suc (ridx s))) = Suc d" and room: "n (cur s) < 128"
    using Suc.prems left_from_here [of "ridx s" s] by (auto simp: carrying_def)
  obtain u where u: "fs_thread H flag s = Some (PT_YIELDED, u)" "good v (n(cur s := Suc (n (cur s)))) u"
      "Fs_pt u = 617" "curr_sector u = curr_sector s" "reloc_sector u = reloc_sector s"
      "left_from u (Suc (ridx u)) = left_from s (Suc (ridx s))"
    by (rule carry_step [OF Suc.prems(2,3) room adm])
  have more: "left_from u (Suc (ridx u)) \<noteq> {}" "card (left_from u (Suc (ridx u))) = Suc d"
    using u(6) d by (auto simp: card_eq_0_iff)
  obtain r t n1 where t: "fs_thread H flag u = Some (r, t)" "good v n1 t"
      "n1 (cur t) = (n(cur s := Suc (n (cur s)))) (cur u)" "reloc_sector t = reloc_sector u"
      "if left_from u (Suc (ridx u)) = {} then r = PT_ENDED \<and> Fs_pt t = 0 \<and> SECTOR_IS_BLANK t (unat (reloc_sector u))
       else r = PT_YIELDED \<and> carrying t \<and> left t = card (left_from u (Suc (ridx u)))"
    by (rule next_step [OF u(2,3) adm, where flag = flag])
  have c: "r = PT_YIELDED" "carrying t" "left t = Suc d" using t(5) more by simp_all
  define m where "m = 2 * d + 2"
  obtain x n' where x: "calls flag m t = Some (replicate (2 * d + 1) PT_YIELDED @ [PT_ENDED], x)"
      "good v n' x" "SECTOR_IS_BLANK x (unat (reloc_sector t))"
    using Suc.IH [OF c(3) t(2) c(2)] t(3) u(4) Suc.prems(4) by (auto simp: m_def)
  have "calls flag (Suc (Suc m)) s
      = Some (PT_YIELDED # PT_YIELDED # replicate (2 * d + 1) PT_YIELDED @ [PT_ENDED], x)"
    by (simp add: t(1) c(1) u(1) x(1))
  moreover have "Suc (Suc m) = 2 * Suc d + 2" by (simp add: m_def)
  ultimately show ?case using x(2,3) t(4) u(5) by auto
qed

text \<open>The first two calls: the wait is over at once, then a sector is chosen.\<close>

lemma find_step:
  assumes g: "good v n s" and pt: "Fs_pt s = 556"
    and adm: "\<And>img. image_ok (crc32_calc H) img \<Longrightarrow> flash_vars (crc32_calc H) img = v \<Longrightarrow> adm img"
    and found: "findRelocSector s = (0, s0)" and k: "k = unat (reloc_sector s0)"
  obtains r t n' where "fs_thread H flag s = Some (r, t)" "good v n' t" "n' (cur t) = n (cur s)"
    "if fds_of s k = 0 then r = PT_ENDED \<and> Fs_pt t = 0 \<and> SECTOR_IS_BLANK t k
     else r = PT_YIELDED \<and> carrying t \<and> left t = fds_of s k \<and> unat (reloc_sector t) = k"
    "curr_sector t = curr_sector s" "\<forall>j < 8. n' j = (if fds_of s k = 0 \<and> j = k then 0 else n j)"
proof -
  have rel: "fs_rel (crc32_calc H) n (content (hw s)) s" and ok: "ok (hw s)"
    using g by (auto simp: fs_ok_def)
  obtain k' where k': "s0 = s\<lparr>reloc_sector := word_of_nat k'\<rparr>" "k' < 8" "k' \<noteq> cur s" "n k' = 128"
    by (cases rule: findRelocSector_ok [OF rel]) (use found in auto)
  have "k' < 256" using k'(2) by simp
  then have kk: "k = k'" unfolding k k'(1) by (simp add: unat_of_nat)
  then have n: "n k = 128" "k < 8" "k \<noteq> cur s" "unat (word_of_nat k :: u8) = k"
    using k' by (simp_all add: unat_of_nat)
  let ?s = "s\<lparr>reloc_sector := word_of_nat k, reloc_fd_index := 0\<rparr>"
  have left: "left ?s = fds_of s k"
    using n(4) by (auto simp: left_from_def fds_of_card word_unat_eq_iff intro!: arg_cong [of _ _ card])
  have call: "fs_thread H flag s = thread_for H ?s"
    using pt found by (simp add: fs_thread_def fs_thread_with_def thread_find_def k'(1) kk)
  obtain r t n' where t: "thread_for H ?s = Some (r, t)" "good v n' t"
    using fs_thread_good [OF g adm, of flag] call by auto
  have relS: "fs_rel (crc32_calc H) n (content (hw s)) ?s" using rel by simp
  have rel': "fs_rel (crc32_calc H) n' (content (hw t)) t" using t(2) by (simp add: fs_ok_def)
  have target: "reloc_target n ?s" using n by (auto simp: reloc_target_def word_unat_eq_iff)
  have res: "for_result ?s (thread_for H ?s)" using ok rel by (intro thread_for_result) simp_all
  note fr = for_result_fill [OF res [unfolded t(1)] relS target rel', unfolded left]
  show thesis
    by (rule that [OF call [unfolded t(1)] t(2)]) (use fr n(4) in \<open>simp_all split: if_splits\<close>)
qed

lemma calls_from_start:
  assumes g: "good v n s" and pt: "Fs_pt s \<in> {0, 555}"
    and adm: "\<And>img. image_ok (crc32_calc H) img \<Longrightarrow> flash_vars (crc32_calc H) img = v \<Longrightarrow> adm img"
    and found: "findRelocSector s = (0, s0)" and k: "k = unat (reloc_sector s0)"
    and room: "n (cur s) + fds_of s k \<le> 128"
  shows "\<exists>t n'. calls 1 (2 * fds_of s k + 2) s = Some (replicate (2 * fds_of s k + 1) PT_YIELDED @ [PT_ENDED], t) \<and>
    good v n' t \<and> SECTOR_IS_BLANK t k"
proof -
  let ?u = "s\<lparr>Fs_pt := 556\<rparr>"
  have first: "fs_thread H 1 s = Some (PT_YIELDED, ?u)"
    using pt by (auto simp: fs_thread_def fs_thread_with_def thread_wait_def PT_WAIT_UNTIL_def PT_YIELD_def set_pt_def)
  have gu: "good v n ?u" using g by (auto simp: fs_ok_def th_inv_def)
  have foundu: "findRelocSector ?u = (0, s0\<lparr>Fs_pt := 556\<rparr>)" using found by (simp add: findRelocSector_pt)
  have ku: "k = unat (reloc_sector (s0\<lparr>Fs_pt := 556\<rparr>))" and fds: "fds_of ?u k = fds_of s k"
    using k by (simp_all add: fds_of_card)
  obtain r t n1 where t: "fs_thread H 1 ?u = Some (r, t)" "good v n1 t" "n1 (cur t) = n (cur s)"
      "if fds_of s k = 0 then r = PT_ENDED \<and> Fs_pt t = 0 \<and> SECTOR_IS_BLANK t k
       else r = PT_YIELDED \<and> carrying t \<and> left t = fds_of s k \<and> unat (reloc_sector t) = k"
    by (rule find_step [OF gu _ adm foundu ku, where flag = 1]) (simp_all add: fds)
  show ?thesis
  proof (cases "fds_of s k")
    case 0
    then show ?thesis using t first by (auto simp: numeral_2_eq_2)
  next
    case (Suc d)
    then have c: "left t = Suc d" "carrying t" "r = PT_YIELDED" "unat (reloc_sector t) = k" using t(4) by simp_all
    define m where "m = 2 * d + 2"
    obtain x n' where x: "calls 1 m t = Some (replicate (2 * d + 1) PT_YIELDED @ [PT_ENDED], x)"
        "good v n' x" "SECTOR_IS_BLANK x k"
      using calls_from_carrying [OF adm c(1) t(2) c(2), of 1] t(3) room Suc c(4) by (auto simp: m_def)
    have "calls 1 (Suc (Suc m)) s
        = Some (PT_YIELDED # PT_YIELDED # replicate (2 * d + 1) PT_YIELDED @ [PT_ENDED], x)"
      by (simp add: first t(1) c(3) x(1))
    moreover have "Suc (Suc m) = 2 * fds_of s k + 2" by (simp add: m_def Suc)
    ultimately show ?thesis using x(2,3) Suc by auto
  qed
qed

subsection \<open>All sectors full\<close>

lemma for_result_stays: "for_result s X \<Longrightarrow> left s \<noteq> 0 \<Longrightarrow> stays s X"
  by (auto simp: for_result_def same_index_def stays_def)

lemma stays_wait: "stays s (thread_wait H flag s)"
  by (cases "timer_expired H (Fs_timer s) (hw s)")
    (auto simp: stays_def thread_wait_def PT_WAIT_UNTIL_def PT_YIELD_def set_pt_def)

lemma stays_read:
  assumes "ok (hw s)"
  shows "stays s (thread_read H s)"
proof -
  obtain w where w: "flash_not_ready H (set_pt 576 s) = Some (False, (set_pt 576 s)\<lparr>hw := w\<rparr>)"
    using now_ready [of "set_pt 576 s"] assms by (auto simp: set_pt_def)
  then show ?thesis
    by (cases "flash_read H (fd_address (reloc_fd s)) (reloc_buffer s) w")
      (simp add: stays_def thread_read_def PT_WAIT_WHILE_def pt_defs set_pt_def)
qed

lemma busy_left:
  assumes "busy s" "reloc_target n s" "moved s i"
  shows "left_from s i \<noteq> {}"
proof -
  have "unat (reloc_sector s) < 8" "unat (reloc_sector s) \<noteq> cur s"
    using assms(2) by (auto simp: reloc_target_def word_unat_eq_iff)
  then obtain j where "j < nfd s" "fd_sector (Fs_fd s ! j) = reloc_sector s"
    using assms(1) by (auto simp: busy_def word_unat_eq_iff)
  moreover from this have "i \<le> j" using assms(3) by (force simp: moved_def not_less [symmetric])
  ultimately show ?thesis by (auto simp: left_from_def)
qed

lemma jam_find:
  assumes ok: "ok (hw s)" and rel: "fs_rel crc n img s" and full: "\<forall>k < 8. n k = 128" and busy: "busy s"
  shows "stays s (thread_find H s)"
proof -
  have none: "{k. k < 8 \<and> k \<noteq> cur s \<and> n k = 0} = {}" using full by auto
  obtain k where k: "findRelocSector s = (0, s\<lparr>reloc_sector := word_of_nat k\<rparr>)" "k < 8" "k \<noteq> cur s"
    by (cases rule: findRelocSector_ok [OF rel]) (auto simp: none)
  let ?s = "s\<lparr>reloc_sector := word_of_nat k, reloc_fd_index := 0\<rparr>"
  obtain j where "j < nfd s" "unat (fd_sector (Fs_fd s ! j)) = k" using busy k by (auto simp: busy_def)
  then have "j \<in> left_from ?s (ridx ?s)"
    using k(2) by (simp add: left_from_def word_unat_eq_iff unat_of_nat)
  then have "left ?s \<noteq> 0" by auto
  moreover have "for_result ?s (thread_for H ?s)" using ok rel by (intro thread_for_result) simp_all
  ultimately have "stays ?s (thread_for H ?s)" by (rule for_result_stays [rotated])
  then show ?thesis using k(1) by (simp add: thread_find_def stays_def)
qed

text \<open>A thread that holds a block cannot store it, and stays where it is.\<close>

lemma jam_store:
  assumes g: "good v n s" and full: "\<forall>k < 8. n k = 128"
    and pt: "Fs_pt s \<in> {596, 610}" "fd_address (Fs_fd s ! ridx s) = fd_address (reloc_fd s)"
    and adm: "\<And>img. image_ok (crc32_calc H) img \<Longrightarrow> flash_vars (crc32_calc H) img = v \<Longrightarrow> adm img"
  shows "stays s (fs_thread H flag s)"
proof -
  have "updateSector (fs_thread H) s = Some (-1, s)"
  proof (cases rule: updateSector_ok [OF g adm])
    case 4
    then show ?thesis using full by blast
  qed
  then have "stays s (thread_write (fs_write H) s)"
    by (simp add: thread_write_def stays_def set_pt_def PT_YIELD_def fs_write_unfold fs_write_with_def)
  moreover have "fs_thread H flag s = thread_write (fs_write H) s"
    using pt by (auto simp: fs_thread_def fs_thread_with_def thread_check_def)
  ultimately show ?thesis by simp
qed

text \<open>A sector with a descriptor cannot be emptied, since the thread's writes fail.\<close>

lemma jam_step:
  assumes g: "good v n s" and full: "\<forall>k < 8. n k = 128" and busy: "busy s"
    and adm: "\<And>img. image_ok (crc32_calc H) img \<Longrightarrow> flash_vars (crc32_calc H) img = v \<Longrightarrow> adm img"
  shows "stays s (fs_thread H flag s)"
proof -
  have ok: "ok (hw s)" and rel: "fs_rel (crc32_calc H) n (content (hw s)) s"
    and th: "th_inv (crc32_calc H) n (content (hw s)) s"
    using g by (auto simp: fs_ok_def)
  consider (wait) "Fs_pt s \<in> {0, 555}" | (find) "Fs_pt s = 556" | (read) "Fs_pt s = 576"
    | (store) "Fs_pt s \<in> {596, 610}" "fd_address (Fs_fd s ! ridx s) = fd_address (reloc_fd s)"
    | (skip) "Fs_pt s = 596" "fd_address (Fs_fd s ! ridx s) \<noteq> fd_address (reloc_fd s)"
    | (more) "Fs_pt s = 617" "reloc_target n s" "moved s (ridx s)" "ridx s < nfd s"
        "fd_sector (Fs_fd s ! ridx s) \<noteq> reloc_sector s"
    | (erase) "reloc_target n s" "moved s (nfd s)"
    using th by (auto simp: th_inv_def)
  then show ?thesis
  proof cases
    case wait
    then show ?thesis using stays_wait by (auto simp: fs_thread_def fs_thread_with_def)
  next
    case find
    then show ?thesis using jam_find [OF ok rel full busy] by (simp add: fs_thread_def fs_thread_with_def)
  next
    case read
    then show ?thesis using stays_read [OF ok] by (simp add: fs_thread_def fs_thread_with_def)
  next
    case store
    show ?thesis by (rule jam_store [OF g full store adm])
  next
    case skip
    then show ?thesis
      by (simp add: fs_thread_def fs_thread_with_def thread_check_def stays_def set_pt_def PT_YIELD_def)
  next
    case more
    let ?s = "s\<lparr>reloc_fd_index := reloc_fd_index s + 1\<rparr>"
    note i = ridx_Suc [OF more(4) rel]
    have "left ?s \<noteq> 0"
      using busy_left [OF busy more(2), of "Suc (ridx s)"] more(3,5) by (auto simp: i moved_def less_Suc_eq)
    moreover have "for_result ?s (thread_for H ?s)"
      using ok rel more(4) by (intro thread_for_result) (simp_all add: i)
    ultimately have "stays ?s (thread_for H ?s)" by (rule for_result_stays [rotated])
    then show ?thesis
      using more(1) by (simp add: fs_thread_def fs_thread_with_def thread_next_def stays_def)
  next
    case erase
    then show ?thesis using busy_left [OF busy erase] by (auto simp: left_from_def)
  qed
qed

end

section \<open>On the mocked board\<close>

interpretation ready_mock: ready_device "mock_hal crc" mock_content mock_ok "\<lambda>_. True"
  for crc
  by unfold_locales (simp add: mock_hal_def)

lemma fill_room:
  assumes rel: "fs_rel crc n img s"
    and room: "unat (curr_address s ! cur s) + 32 * c \<le> unat (Sector_base ! cur s) + 4096"
  shows "n (cur s) + c \<le> 128"
proof -
  have k: "cur s < 8" using fs_rel_curr [OF rel] .
  have "n (cur s) \<le> 128" using fill_le [OF fs_rel_layout [OF rel] k] .
  then have "unat (curr_address s ! cur s) = 0xF4000 + 32 * (128 * cur s + n (cur s))"
    using curr_address_nth [OF rel k] k by (simp add: unat_slot_addr)
  moreover have "unat (Sector_base ! cur s) = 0xF4000 + 32 * (128 * cur s)"
    using k by (simp add: Sector_base_slot unat_slot_addr)
  ultimately show ?thesis using room by simp
qed

text \<open>
  C24. Relocation ends. When the thread is at its start, \<open>findRelocSector\<close> chooses sector \<open>k\<close>
  with \<open>c\<close> variables in it, and the active sector has room for \<open>c\<close> blocks, then \<open>2 c + 2\<close>
  calls of \<open>fs_thread (1)\<close> with nothing in between yield all but the last time and then end:
  the sector is blank, every variable is kept, and so is the invariant.
\<close>

theorem relocation_completes:
  assumes "mock_fs crc v s" and "Fs_pt s \<in> {0, 555}"
    and "findRelocSector s = (0, s0)" and "k = unat (reloc_sector s0)"
    and "c = card {i. i < nfd s \<and> unat (fd_sector (Fs_fd s ! i)) = k}"
    and "unat (curr_address s ! cur s) + 32 * c \<le> unat (Sector_base ! cur s) + 4096"
  shows "\<exists>t. thread_calls (mock_hal crc) 1 (2 * c + 2) s
      = Some (replicate (2 * c + 1) PT_YIELDED @ [PT_ENDED], t) \<and>
    mock_fs crc v t \<and> SECTOR_IS_BLANK t k"
proof -
  obtain n where g: "fs_ok mock_content mock_ok (crc32_calc (mock_hal crc)) v n s"
    using assms(1) by (auto simp: mock_fs_def)
  have c: "c = fds_of s k" using assms(5) by (simp add: fds_of_card)
  have "n (cur s) + fds_of s k \<le> 128"
    using fill_room [of crc n "mock_content (hw s)" s c] g assms(6) by (simp add: fs_ok_def c)
  from ready_mock.calls_from_start [OF g assms(2) TrueI assms(3,4) this]
  show ?thesis by (auto simp: c mock_fs_def)
qed

lemma boot_pt: "boot H w = Some s \<Longrightarrow> Fs_pt s = 0"
  by (auto simp: boot_def fs_init_def bind_Some_iff Let_def PT_INIT_def set_pt_def split_beta)

text \<open>Seven sectors are full with one variable each; the eighth has one block.\<close>

theorem relocation_completes_witness:
  "\<exists>s t k. boot (mock_hal crc32_calc_stub) (busy_board 897) = Some s \<and>
     mock_fs crc32_calc_stub (busy_vars 897) t \<and> SECTOR_IS_FULL s k \<and> SECTOR_IS_BLANK t k"
proof -
  obtain s where s: "boot (mock_hal crc32_calc_stub) (busy_board 897) = Some s"
      "fs_ok mock_content mock_ok crc32_calc_stub (busy_vars 897) (fill_of 897) s"
    by (rule busy_boot [of 897]) simp_all
  then have rel: "fs_rel crc32_calc_stub (fill_of 897) (mock_content (hw s)) s" by (simp add: fs_ok_def)
  have cur: "cur s = 7"
    using fs_rel_ring [OF rel] by (intro ccontr [of "cur s = 7"]) (auto simp: ring_def fill_of_def dest!: spec [of _ 7])
  have "{k. k < 8 \<and> k \<noteq> cur s \<and> fill_of 897 k = 0} = {}" by (auto simp: cur fill_of_def)
  then have few: "card {k. k < 8 \<and> k \<noteq> cur s \<and> fill_of 897 k = 0} < 2" by (simp only:) simp
  obtain k where k: "findRelocSector s = (0, s\<lparr>reloc_sector := word_of_nat k\<rparr>)" "k < 8" "fill_of 897 k = 128"
      "\<And>k'. k' < 8 \<Longrightarrow> k' \<noteq> cur s \<Longrightarrow> fill_of 897 k' = 128 \<Longrightarrow> fds_of s k \<le> fds_of s k'"
    by (cases rule: findRelocSector_ok [OF rel]) (use few in auto)
  obtain k' where "k' < 8" "k' \<noteq> cur s" "fill_of 897 k' = 128" "fds_of s k' < 128"
    using sparse_sector [OF rel few] by blast
  then have "fds_of s k < 128" using k(4) by fastforce
  moreover have "curr_address s ! cur s = slot_addr 897"
    using curr_address_nth [OF rel, of 7] by (simp add: cur fill_of_def)
  ultimately have room: "unat (curr_address s ! cur s) + 32 * fds_of s k \<le> unat (Sector_base ! cur s) + 4096"
    by (simp add: cur Sector_base_slot unat_slot_addr)
  have kk: "k = unat (reloc_sector (s\<lparr>reloc_sector := word_of_nat k\<rparr>))"
    using k(2) by (simp add: unat_of_nat)
  obtain t where "mock_fs crc32_calc_stub (busy_vars 897) t" "SECTOR_IS_BLANK t k"
    using relocation_completes [OF _ _ k(1) kk fds_of_card room, of crc32_calc_stub "busy_vars 897"]
      s boot_pt [OF s(1)] by (auto simp: mock_fs_def)
  then show ?thesis
    using s(1) k(2,3) full_iff [OF rel k(2)] by blast
qed


section \<open>No way out\<close>

lemma stays_frame:
  assumes "Fs_fd t = Fs_fd s" "curr_fd_index t = curr_fd_index s" "curr_sector t = curr_sector s"
    "curr_address t = curr_address s"
  shows "busy t = busy s" "all_full t = all_full s"
  using assms by (simp_all add: busy_def all_full_def SECTOR_IS_FULL_def)

lemma jam_calls:
  "mock_fs crc v s \<Longrightarrow> all_full s \<Longrightarrow> busy s \<Longrightarrow>
   \<exists>rs t. thread_calls (mock_hal crc) flag m s = Some (rs, t) \<and> PT_ENDED \<notin> set rs \<and>
     mock_fs crc v t \<and> all_full t"
proof (induction m arbitrary: s)
  case (Suc m)
  then obtain n where g: "fs_ok mock_content mock_ok (crc32_calc (mock_hal crc)) v n s"
    by (auto simp: mock_fs_def)
  then have "\<forall>k < 8. n k = 128"
    using all_full_iff [of crc n "mock_content (hw s)" s] Suc.prems(2) by (simp add: fs_ok_def)
  then obtain r t where t: "fs_thread (mock_hal crc) flag s = Some (r, t)" "r \<noteq> PT_ENDED"
      "Fs_fd t = Fs_fd s" "curr_fd_index t = curr_fd_index s" "curr_sector t = curr_sector s"
      "curr_address t = curr_address s"
    using ready_mock.jam_step [OF g _ Suc.prems(3) TrueI, of flag] by (auto simp: stays_def)
  moreover have "mock_fs crc v t" using thread_mock [OF Suc.prems(1), of flag] t(1) by auto
  ultimately obtain rs u where "thread_calls (mock_hal crc) flag m t = Some (rs, u)"
      "PT_ENDED \<notin> set rs" "mock_fs crc v u" "all_full u"
    using Suc.IH [of t] stays_frame [OF t(3-6)] Suc.prems by auto
  with t(1,2) show ?case by auto
qed auto

lemma jam_mock:
  assumes "mock_fs crc v s" "all_full s" "busy s" "unat l \<le> 28"
  shows "\<exists>rs t. thread_calls (mock_hal crc) flag m s = Some (rs, t) \<and> PT_ENDED \<notin> set rs \<and>
    mock_fs crc v t \<and> fs_write (mock_hal crc) name ext d l t = Some (-2, t)"
proof -
  obtain rs t where t: "thread_calls (mock_hal crc) flag m s = Some (rs, t)" "PT_ENDED \<notin> set rs"
      "mock_fs crc v t" "all_full t"
    using jam_calls [OF assms(1-3)] by blast
  obtain n where g: "fs_ok mock_content mock_ok (crc32_calc (mock_hal crc)) v n t"
    using t(3) by (auto simp: mock_fs_def)
  then have full: "\<forall>k < 8. n k = 128"
    using all_full_iff [of crc n "mock_content (hw t)" t] t(4) by (simp add: fs_ok_def)
  have "updateSector (fs_thread (mock_hal crc)) t = Some (-1, t)"
  proof (cases rule: mock.updateSector_ok [OF g TrueI])
    case 2
    then show ?thesis using full by blast
  qed
  then have "fs_write (mock_hal crc) name ext d l t = Some (-2, t)"
    using assms(4) by (simp add: fs_write_unfold fs_write_with_def)
  with t show ?thesis by blast
qed

text \<open>
  C25. The store can jam. Once all eight sectors are full and each but the active one still holds
  a variable, the relocation thread never ends again however often it is called, since it has
  nowhere to copy a variable to, and every write is refused with \<open>-2\<close>.
\<close>

theorem full_store_jams:
  assumes "mock_fs crc v s" "all_full s"
    and "\<forall>k < 8. k \<noteq> cur s \<longrightarrow> (\<exists>i < nfd s. unat (fd_sector (Fs_fd s ! i)) = k)"
    and "unat l \<le> 28"
  shows "\<exists>rs t. thread_calls (mock_hal crc) flag m s = Some (rs, t) \<and> PT_ENDED \<notin> set rs \<and>
    mock_fs crc v t \<and> fs_write (mock_hal crc) name ext d l t = Some (-2, t)"
  using jam_mock [OF assms(1,2) _ assms(4)] assms(3) by (simp add: busy_def)

lemma busy_state_full: "all_full busy_state"
proof -
  have rel: "fs_rel crc32_calc_stub (fill_of 1024) (mock_content (hw busy_state)) busy_state"
    using busy_state_ok by (simp add: fs_ok_def)
  show ?thesis unfolding all_full_iff [OF rel] by (auto simp: fill_of_def)
qed

text \<open>Eight full sectors with a variable each.\<close>

theorem full_store_jams_witness:
  "\<exists>rs t. thread_calls (mock_hal crc32_calc_stub) 1 1000 busy_state = Some (rs, t) \<and> PT_ENDED \<notin> set rs \<and>
     fs_write (mock_hal crc32_calc_stub) 0x1234 0 [1] 1 t = Some (-2, t)"
proof -
  have "\<exists>i < nfd busy_state. unat (fd_sector (Fs_fd busy_state ! i)) = k" if "k < 8" for k
    using that by (intro exI [of _ k]) (simp add: busy_fd_def unat_of_nat)
  then show ?thesis
    using full_store_jams [of crc32_calc_stub "busy_vars 1024" busy_state 1 1 1000 "0x1234" 0 "[1]"]
      busy_state_ok busy_state_full by (auto simp: mock_fs_def)
qed

end
