(* ===== verification/Running.thy ===== *)
theory Running
  imports Relocation
begin

text \<open>
  The running system: the shape of its states, which keeps every array access of the code in
  bounds, and the reboot of a system that is not in the middle of a write, which rebuilds the
  index and leaves the flash alone.
\<close>

section \<open>The shape of a state\<close>

text \<open>
  The arrays have their declared lengths and the indices kept in \<open>Fs\<close> stay within them; the
  next address of a sector and the address of a descriptor are block boundaries of the sector,
  the latter below the former; and \<open>Fs.pt\<close> is one of the lines of \<open>fs_thread\<close> that can be
  resumed.
\<close>

definition in_sector :: "nat \<Rightarrow> nat \<Rightarrow> u32 \<Rightarrow> bool" where
  "in_sector k m a \<longleftrightarrow> (\<exists>j \<in> set [0..<m]. a = Sector_base ! k + word_of_nat (FS_BLOCK_SIZE * j))"

definition fd_shape :: "'w Fs \<Rightarrow> st_fileDescriptor \<Rightarrow> bool" where
  "fd_shape s d \<longleftrightarrow> unat (fd_sector d) < FS_NUM_SECTORS \<and>
     in_sector (unat (fd_sector d)) FDS_PER_SECTOR (fd_address d) \<and>
     fd_address d < curr_address s ! unat (fd_sector d)"

definition state_shape :: "'w Fs \<Rightarrow> bool" where
  "state_shape s \<longleftrightarrow>
     length (Fs_fd s) = FD_MAX \<and> length (curr_address s) = FS_NUM_SECTORS \<and>
     length (reloc_buffer s) = FS_BLOCK_SIZE \<and>
     unat (curr_sector s) < FS_NUM_SECTORS \<and> unat (curr_fd_index s) \<le> FD_MAX \<and>
     (\<forall>k \<in> set [0..<FS_NUM_SECTORS]. in_sector k (FDS_PER_SECTOR + 1) (curr_address s ! k)) \<and>
     (\<forall>i \<in> set [0..<unat (curr_fd_index s)]. fd_shape s (Fs_fd s ! i)) \<and>
     Fs_pt s \<in> {0, 555, 556, 576, 596, 610, 617, 622} \<and>
     (Fs_pt s \<in> {576, 596, 610, 617} \<longrightarrow> unat (reloc_fd_index s) < unat (curr_fd_index s)) \<and>
     (Fs_pt s \<in> {576, 596, 610, 617, 622} \<longrightarrow>
        unat (reloc_sector s) < FS_NUM_SECTORS \<and> reloc_sector s \<noteq> curr_sector s)"

lemma slot_addr_offset: "k < 8 \<Longrightarrow> slot_addr (128 * k + j) = Sector_base ! k + word_of_nat (32 * j)"
  by (simp add: Sector_base_slot slot_addr_def algebra_simps)

lemma in_sector_slot: "k < 8 \<Longrightarrow> j < m \<Longrightarrow> in_sector k m (slot_addr (128 * k + j))"
  by (auto simp: in_sector_def slot_addr_offset)

lemma fd_shape_ok:
  assumes rel: "fs_rel crc n img s" and i: "i < nfd s"
  shows "fd_shape s (Fs_fd s ! i)"
proof -
  define m where "m = fd_slot (Fs_fd s ! i)"
  have ok: "fd_ok crc img (Fs_fd s ! i)" using fs_rel_fd [OF rel i] .
  have m: "m < 1024" "fd_address (Fs_fd s ! i) = slot_addr m" "unat (fd_sector (Fs_fd s ! i)) = m div 128"
      "m div 128 < 8" "m mod 128 < n (m div 128)"
    using ok fd_sector_slot [OF rel i] valid_filled [OF fs_rel_layout [OF rel], of crc m]
    by (auto simp: fd_ok_def m_def)
  have "in_sector (m div 128) 128 (slot_addr (128 * (m div 128) + m mod 128))"
    using m(4) by (intro in_sector_slot) simp_all
  moreover have "m < 128 * (m div 128) + n (m div 128)" using m(5) mult_div_mod_eq [of 128 m] by linarith
  then have "slot_addr m < slot_addr (128 * (m div 128) + n (m div 128))"
    using m(1,4) fill_le [OF fs_rel_layout [OF rel] m(4)] by (simp add: slot_addr_less)
  ultimately show ?thesis
    using m(2-4) curr_address_nth [OF rel m(4)] by (simp add: fd_shape_def)
qed

lemma state_shape_ok:
  assumes "fs_ok content ok crc v n s"
  shows "state_shape s"
proof -
  have rel: "fs_rel crc n (content (hw s)) s" and th: "th_inv crc n (content (hw s)) s"
    and buf: "length (reloc_buffer s) = 32"
    using assms by (simp_all add: fs_ok_def)
  have "in_sector k 129 (curr_address s ! k)" if "k < 8" for k
    using that fill_le [OF fs_rel_layout [OF rel] that] curr_address_nth [OF rel that]
    by (simp add: in_sector_slot)
  moreover have "Fs_pt s \<in> {0, 555, 556, 576, 596, 610, 617, 622}"
    and "Fs_pt s \<in> {576, 596, 610, 617} \<Longrightarrow> ridx s < nfd s"
    and "Fs_pt s \<in> {576, 596, 610, 617, 622} \<Longrightarrow> unat (reloc_sector s) < 8 \<and> reloc_sector s \<noteq> curr_sector s"
    using th by (auto simp: th_inv_def reloc_target_def)
  ultimately show ?thesis
    unfolding state_shape_def
    using fs_relD [OF rel] fd_shape_ok [OF rel] buf by (simp add: del: upt_rec_numeral)
qed

text \<open>
  C9. In every reachable state the arrays of \<open>Fs\<close> have their declared lengths and every index
  the code uses on them is within bounds: the active sector, the number of descriptors, the
  sector of each descriptor, and, at the lines where the relocation thread uses them, its sector
  and its position. Addresses lie on block boundaries of their sectors, a descriptor's below the
  next free one, and the stored continuation is a line the thread can be resumed at.
\<close>

theorem reachable_state_shape:
  assumes "reachable crc s"
  shows "state_shape s"
  using reachable_ok [OF assms] by (auto simp: mock_fs_def dest: state_shape_ok)

theorem reachable_state_shape_witness: "reachable crc32_calc_stub fresh \<and> state_shape fresh"
  using reachable_state_shape [OF power_on [OF fresh_boot]] power_on [OF fresh_boot] by simp

section \<open>A reboot between two calls\<close>

lemma fd_ok_eq: "fd_ok crc img d \<Longrightarrow> fd_ok crc img d' \<Longrightarrow> fd_slot d = fd_slot d' \<Longrightarrow> d = d'"
  by (simp add: fd_ok_def)

text \<open>The index holds the descriptors the image determines.\<close>

lemma index_of_image:
  assumes "fs_rel crc n img s"
  shows "set (take (nfd s) (Fs_fd s)) = {d. fd_ok crc img d}"
proof -
  have "set (take (nfd s) (Fs_fd s)) = (!) (Fs_fd s) ` {..<nfd s}"
    using fs_rel_length [OF assms] fs_rel_nfd [OF assms] by (subst set_conv_nth) force
  moreover have "\<exists>i < nfd s. Fs_fd s ! i = d" if d: "fd_ok crc img d" for d
  proof -
    have "valid crc (img (fd_slot d))" using d by (simp add: fd_ok_def)
    then obtain i where "i < nfd s" "fd_slot (Fs_fd s ! i) = fd_slot d"
      using fs_rel_owner [OF assms] by blast
    then show ?thesis using fd_ok_eq [OF fs_rel_fd [OF assms] d] by blast
  qed
  ultimately show ?thesis using fs_rel_fd [OF assms] by (auto simp: image_iff Bex_def) metis
qed

lemma index_le: "fs_rel crc n img s \<Longrightarrow> nfd s \<le> length (Fs_fd s)"
  by (simp add: fs_rel_def)

lemma reboot_mock:
  assumes g: "fs_ok mock_content mock_ok crc v n s"
  obtains s' where "boot (mock_hal crc) (hw s) = Some s'" "fs_ok mock_content mock_ok crc v n s'"
    "mock_content (hw s') = mock_content (hw s)" "n (cur s') = 128 \<longrightarrow> (\<forall>k < 8. n k = 128)"
proof -
  have rel: "fs_rel crc n (mock_content (hw s)) s" and "mock_ok (hw s)" "flash_vars crc (mock_content (hw s)) = v"
    using g by (simp_all add: fs_ok_def)
  moreover have "image_ok crc (mock_content (hw s))" by (rule fs_rel_image_ok [OF rel])
  ultimately obtain s' where "boot (mock_hal crc) (hw s) = Some s'" "fs_ok mock_content mock_ok crc v n s'"
      "mock_content (hw s') = mock_content (hw s)" "n (cur s') = 128 \<longrightarrow> (\<forall>k < 8. n k = 128)"
    using mock.boot_fill [of "hw s" crc v n "cur s"] fs_relD [OF rel] fs_rel_unique [OF rel] by auto
  then show thesis by (rule that)
qed

lemma reboot_index:
  assumes "mock_fs crc v s"
  shows "\<exists>s'. boot (mock_hal crc) (hw s) = Some s' \<and> mock_fs crc v s' \<and>
    mock_content (hw s') = mock_content (hw s) \<and> curr_address s' = curr_address s \<and>
    curr_fd_index s' = curr_fd_index s \<and>
    set (take (nfd s') (Fs_fd s')) = set (take (nfd s) (Fs_fd s))"
proof -
  obtain n where g: "fs_ok mock_content mock_ok crc v n s" using assms by (auto simp: mock_fs_def)
  obtain s' where s': "boot (mock_hal crc) (hw s) = Some s'" "fs_ok mock_content mock_ok crc v n s'"
      "mock_content (hw s') = mock_content (hw s)"
    by (rule reboot_mock [OF g])
  have rel: "fs_rel crc n (mock_content (hw s)) s" "fs_rel crc n (mock_content (hw s)) s'"
    using g s'(2,3) by (simp_all add: fs_ok_def)
  have "nfd s' = nfd s" using card_vars [OF rel(1)] card_vars [OF rel(2)] by simp
  then show ?thesis
    using s' index_of_image [OF rel(1)] index_of_image [OF rel(2)] fs_rel_address [OF rel(1)] fs_rel_address [OF rel(2)]
    by (auto simp: mock_fs_def word_unat_eq_iff)
qed

text \<open>
  C12. A reboot between two calls loses nothing and writes nothing: start-up returns, the flash
  reads as before, and what it puts into \<open>Fs\<close> is what was there: the same descriptors, up to
  their order, and the same next address for every sector.
\<close>

theorem reboot_rebuilds_index:
  assumes "mock_fs crc v s"
  shows "\<exists>s'. boot (mock_hal crc) (hw s) = Some s' \<and> mock_fs crc v s' \<and>
    mock_content (hw s') = mock_content (hw s) \<and> curr_address s' = curr_address s \<and>
    curr_fd_index s' = curr_fd_index s \<and>
    set (take (nfd s') (Fs_fd s')) = set (take (nfd s) (Fs_fd s))"
  using reboot_index [OF assms] .

theorem reboot_rebuilds_index_witness:
  "\<exists>s'. boot (mock_hal crc32_calc_stub) (busy_board 1024) = Some s' \<and>
     mock_content (hw s') = mock_content (busy_board 1024) \<and>
     set (take 8 (Fs_fd s')) = busy_fd ` set [0..<8]"
proof -
  have "take 8 (Fs_fd busy_state) = map busy_fd [0..<8]" by (simp add: busy_state_def full_state_def del: upt_rec_numeral)
  moreover have "mock_fs crc32_calc_stub (busy_vars 1024) busy_state" using busy_state_ok by (auto simp: mock_fs_def)
  from reboot_rebuilds_index [OF this] obtain s' where
    "boot (mock_hal crc32_calc_stub) (busy_board 1024) = Some s'"
    "mock_content (hw s') = mock_content (busy_board 1024)" "curr_fd_index s' = curr_fd_index busy_state"
    "set (take (nfd s') (Fs_fd s')) = set (take 8 (Fs_fd busy_state))"
    by (auto simp del: upt_rec_numeral)
  ultimately show ?thesis by (simp del: upt_rec_numeral)
qed

section \<open>A jam survives a reboot\<close>

text \<open>
  C26. Switching the device off and on does not help a jammed store. When all eight sectors are
  full and each holds a variable, then also after a reboot the relocation thread never ends,
  however often it is called, and every write is refused with \<open>-2\<close>; the variables are still
  there.
\<close>

theorem jam_survives_reboot:
  assumes "mock_fs crc v s" "all_full s"
    and "\<forall>k < 8. \<exists>i < nfd s. unat (fd_sector (Fs_fd s ! i)) = k"
    and "unat l \<le> 28"
  shows "\<exists>s' rs t. boot (mock_hal crc) (hw s) = Some s' \<and>
    thread_calls (mock_hal crc) flag m s' = Some (rs, t) \<and> PT_ENDED \<notin> set rs \<and>
    mock_fs crc v t \<and> fs_write (mock_hal crc) name ext d l t = Some (-2, t)"
proof -
  obtain s' where s': "boot (mock_hal crc) (hw s) = Some s'" "mock_fs crc v s'" "curr_address s' = curr_address s"
      "curr_fd_index s' = curr_fd_index s" "set (take (nfd s') (Fs_fd s')) = set (take (nfd s) (Fs_fd s))"
    using reboot_index [OF assms(1)] by blast
  have "all_full s'" using assms(2) s'(3) by (simp add: all_full_def SECTOR_IS_FULL_def)
  moreover have "\<exists>i < nfd s'. unat (fd_sector (Fs_fd s' ! i)) = k" if "k < 8" for k
  proof -
    have len: "nfd s \<le> length (Fs_fd s)" "nfd s' \<le> length (Fs_fd s')"
      using assms(1) s'(2) index_le by (auto simp: mock_fs_def fs_ok_def)
    obtain i where "i < nfd s" "unat (fd_sector (Fs_fd s ! i)) = k" using assms(3) \<open>k < 8\<close> by blast
    then have "\<exists>d \<in> set (take (nfd s) (Fs_fd s)). unat (fd_sector d) = k"
      using len(1) by (intro bexI [of _ "Fs_fd s ! i"]) (auto simp: in_set_conv_nth intro!: exI [of _ i])
    then show ?thesis using len(2) unfolding s'(5) [symmetric] by (fastforce simp: in_set_conv_nth)
  qed
  then have "busy s'" by (simp add: busy_def)
  ultimately show ?thesis using jam_mock [OF s'(2) _ _ assms(4)] s'(1) by blast
qed

theorem jam_survives_reboot_witness:
  "\<exists>s' rs t. boot (mock_hal crc32_calc_stub) (busy_board 1024) = Some s' \<and>
     thread_calls (mock_hal crc32_calc_stub) 1 1000 s' = Some (rs, t) \<and> PT_ENDED \<notin> set rs \<and>
     fs_write (mock_hal crc32_calc_stub) 0x1234 0 [1] 1 t = Some (-2, t)"
proof -
  have "\<exists>i < nfd busy_state. unat (fd_sector (Fs_fd busy_state ! i)) = k" if "k < 8" for k
    using that by (intro exI [of _ k]) (simp add: busy_fd_def unat_of_nat)
  then show ?thesis
    using jam_survives_reboot [of crc32_calc_stub "busy_vars 1024" busy_state 1 1 1000 "0x1234" 0 "[1]"]
      busy_state_ok busy_state_full by (auto simp: mock_fs_def)
qed

end
