(* ===== verification/Endurance.thy ===== *)
theory Endurance
  imports Running
begin

text \<open>
  How long the store can be used. On a board whose flash is ready when asked, the relocation
  keeps ahead of the writes if the thread is called twice after each: the bound of
  \<open>making_room\<close> grows by two with every write and every reboot, and drops by one with every
  call of the thread, which therefore has a second sector blank before the active one is full.
\<close>

section \<open>Rest, and room in the making\<close>

text \<open>The blank sectors beside the active one.\<close>

definition blanks :: "(nat \<Rightarrow> nat) \<Rightarrow> 'w Fs \<Rightarrow> nat set" where
  "blanks n s = {k. k < 8 \<and> k \<noteq> cur s \<and> n k = 0}"

text \<open>The variables still to be looked at behind the one the thread is at.\<close>

abbreviation todo :: "'w Fs \<Rightarrow> nat" where
  "todo s \<equiv> card (left_from s (Suc (ridx s)))"

text \<open>
  The thread at rest: at its start, with two blank sectors. The thread on its way to a second
  blank sector, with a bound that counts twice the blocks written to the active sector, four times
  the variables to be moved (two calls and one block for each), and the calls until the sector to
  be erased is chosen, for which any full sector is a bound.
\<close>

definition at_rest :: "(nat \<Rightarrow> nat) \<Rightarrow> 'w Fs \<Rightarrow> bool" where
  "at_rest n s \<longleftrightarrow> Fs_pt s \<in> {0, 555, 556} \<and> 2 \<le> card (blanks n s)"

definition choosing :: "nat \<Rightarrow> (nat \<Rightarrow> nat) \<Rightarrow> 'w Fs \<Rightarrow> bool" where
  "choosing p n s \<longleftrightarrow> (\<exists>k < 8. k \<noteq> cur s \<and> n k = 128 \<and> 2 * n (cur s) + 4 * fds_of s k \<le> p)"

definition making_room :: "nat \<Rightarrow> (nat \<Rightarrow> nat) \<Rightarrow> 'w Fs \<Rightarrow> bool" where
  "making_room p n s \<longleftrightarrow> 1 \<le> card (blanks n s) \<and>
     (Fs_pt s \<in> {0, 555} \<and> 2 \<le> p \<and> choosing (p - 2) n s \<or>
      Fs_pt s = 556 \<and> 1 \<le> p \<and> choosing (p - 1) n s \<or>
      Fs_pt s = 596 \<and> 2 * n (cur s) + 4 * todo s + 4 \<le> p \<or>
      Fs_pt s = 617 \<and> 2 * n (cur s) + 4 * todo s + 1 \<le> p)"

definition under_way :: "nat \<Rightarrow> (nat \<Rightarrow> nat) \<Rightarrow> 'w Fs \<Rightarrow> bool" where
  "under_way p n s \<longleftrightarrow> at_rest n s \<or> making_room p n s"

lemma choosing_mono: "choosing p n s \<Longrightarrow> p \<le> q \<Longrightarrow> choosing q n s"
  unfolding choosing_def by (meson order_trans)

lemma choosing_cong:
  assumes "cur t = cur s" "n' (cur s) = n (cur s)" "\<And>k. k \<noteq> cur s \<Longrightarrow> n' k = n k" "\<And>k. fds_of t k = fds_of s k"
  shows "choosing p n' t = choosing p n s"
  using assms by (auto simp: choosing_def)

lemma fds_of_frame [simp]:
  "fds_of (s\<lparr>Fs_pt := l\<rparr>) k = fds_of s k" "fds_of (s\<lparr>curr_sector := m\<rparr>) k = fds_of s k"
  by (simp_all add: fds_of_card)

lemma choosing_frame [simp]: "choosing p n (s\<lparr>Fs_pt := l\<rparr>) = choosing p n s"
  by (rule choosing_cong) simp_all

lemma choosing_light:
  assumes "fs_rel crc n img s" "card (blanks n s) < 2"
  shows "choosing (2 * n (cur s) + 200) n s"
  using light_sector [OF assms(1)] assms(2) by (fastforce simp: blanks_def choosing_def)

lemma making_room_mono:
  assumes "making_room p n s" "p \<le> q"
  shows "making_room q n s"
proof -
  have "choosing (p - i) n s \<Longrightarrow> choosing (q - i) n s" for i
    using assms(2) by (elim choosing_mono) (rule diff_le_mono)
  then show ?thesis using assms by (auto simp: making_room_def)
qed

lemma under_way_mono: "under_way p n s \<Longrightarrow> p \<le> q \<Longrightarrow> under_way q n s"
  using making_room_mono by (auto simp: under_way_def)

lemma finite_blanks [simp]: "finite (blanks n s)"
  by (simp add: blanks_def)

lemma blanks_cong:
  assumes "\<And>k. k < 8 \<Longrightarrow> k \<noteq> cur s \<Longrightarrow> n' k = 0 \<longleftrightarrow> n k = 0" "cur t = cur s"
  shows "blanks n' t = blanks n s"
  using assms by (auto simp: blanks_def)

lemma blanks_upd: "cur t = cur s \<Longrightarrow> blanks (n(cur s := x)) t = blanks n s"
  by (rule blanks_cong) simp_all

lemma blanks_erased:
  assumes "\<forall>k < 8. n' k = (if k = r then 0 else n k)" "cur t = cur s" "r < 8" "r \<noteq> cur s" "n r = 128"
  shows "card (blanks n' t) = Suc (card (blanks n s))"
proof -
  have "blanks n' t = insert r (blanks n s)" using assms by (auto simp: blanks_def)
  moreover have "r \<notin> blanks n s" using assms(5) by (simp add: blanks_def)
  ultimately show ?thesis by simp
qed

lemma making_room_fill: "making_room p n s \<Longrightarrow> p \<le> 258 \<Longrightarrow> Fs_pt s = 596 \<Longrightarrow> n (cur s) < 128"
  by (simp add: making_room_def)

lemma making_room_fill': "making_room p n s \<Longrightarrow> p \<le> 256 \<Longrightarrow> n (cur s) < 128"
  by (auto simp: making_room_def choosing_def)

lemma target_facts:
  "reloc_target n s \<Longrightarrow> unat (reloc_sector s) < 8 \<and> unat (reloc_sector s) \<noteq> cur s \<and> n (unat (reloc_sector s)) = 128"
  by (auto simp: reloc_target_def word_unat_eq_iff)

lemma carrying_todo: "carrying s \<Longrightarrow> left s = Suc (todo s)"
  using left_from_here [of "ridx s" s] by (simp add: carrying_def)

text \<open>What a call keeps of the active sector.\<close>

definition same_sector :: "(nat \<Rightarrow> nat) \<Rightarrow> 'w Fs \<Rightarrow> (nat \<Rightarrow> nat) \<Rightarrow> 'w Fs \<Rightarrow> bool" where
  "same_sector n s n' t \<longleftrightarrow> curr_sector t = curr_sector s \<and> n' (cur s) \<le> Suc (n (cur s))"

context ready_device
begin

lemma first_call:
  assumes g: "good v n s" and pt: "Fs_pt s \<in> {0, 555}" and u: "under_way (Suc p) n s"
  shows "\<exists>t. fs_thread H 1 s = Some (PT_YIELDED, t) \<and> good v n t \<and> under_way p n t \<and> same_sector n s n t"
proof -
  let ?t = "s\<lparr>Fs_pt := 556\<rparr>"
  have "fs_thread H 1 s = Some (PT_YIELDED, ?t)"
    using pt by (auto simp: fs_thread_def fs_thread_with_def thread_wait_def PT_WAIT_UNTIL_def PT_YIELD_def set_pt_def)
  moreover have "good v n ?t" using g by (auto simp: fs_ok_def th_inv_def)
  moreover have "blanks n ?t = blanks n s" by (rule blanks_cong) simp_all
  then have "under_way p n ?t"
    using u pt by (auto simp: under_way_def at_rest_def making_room_def)
  ultimately show ?thesis by (auto simp: same_sector_def)
qed

lemma enough_call:
  assumes g: "good v n s" and pt: "Fs_pt s = 556" and enough: "2 \<le> card (blanks n s)"
  shows "\<exists>t. fs_thread H 1 s = Some (PT_WAITING, t) \<and> good v n t \<and> at_rest n t \<and> same_sector n s n t"
proof -
  have s: "ok (hw s)" "fs_rel (crc32_calc H) n (content (hw s)) s" using g by (simp_all add: fs_ok_def)
  have none: "findRelocSector s = (-1, s)"
    by (cases rule: findRelocSector_ok [OF s(2)]) (use enough in \<open>simp_all add: blanks_def\<close>)
  obtain tm w where r: "restart_timer H s = s\<lparr>Fs_timer := tm, hw := w\<rparr>" "ok w" "content w = content (hw s)"
    by (rule restart_timer_ok [OF s(1)])
  let ?t = "s\<lparr>Fs_timer := tm, hw := w, Fs_pt := 0\<rparr>"
  have "fs_thread H 1 s = Some (PT_WAITING, ?t)"
    using pt none r(1)
    by (simp add: fs_thread_def fs_thread_with_def thread_find_def PT_RESTART_def PT_INIT_def set_pt_def)
  moreover have "good v n ?t" using g r(2,3) by (simp add: fs_ok_def th_inv_def)
  moreover have "blanks n ?t = blanks n s" by (rule blanks_cong) simp_all
  then have "at_rest n ?t" using enough by (simp add: at_rest_def)
  ultimately show ?thesis by (auto simp: same_sector_def)
qed

text \<open>The result of a call after which the thread carries on, or has erased its sector.\<close>

lemma erased_at_rest:
  assumes "Fs_pt t = 0" "\<forall>k < 8. n' k = (if k = r then 0 else n k)" "cur t = cur s" "r < 8" "r \<noteq> cur s"
    "n r = 128" "1 \<le> card (blanks n s)"
  shows "at_rest n' t"
  using blanks_erased [OF assms(2-6)] assms(1,7) by (simp add: at_rest_def)

lemma carrying_making_room:
  assumes "carrying t" "left t = m" "\<forall>k < 8. n' k = n k" "cur t = cur s" "cur s < 8" "1 \<le> card (blanks n s)"
    and "2 * n (cur s) + 4 * m \<le> p"
  shows "making_room p n' t"
proof -
  have "blanks n' t = blanks n s" using assms(3,4) by (intro blanks_cong) simp_all
  moreover have "m = Suc (todo t)" using carrying_todo [OF assms(1)] assms(2) by simp
  ultimately show ?thesis
    using assms by (simp add: making_room_def carrying_def)
qed

lemma find_call:
  assumes g: "good v n s" and pt: "Fs_pt s = 556" and few: "card (blanks n s) < 2"
    and u: "making_room (Suc p) n s"
    and adm: "\<And>img. image_ok (crc32_calc H) img \<Longrightarrow> flash_vars (crc32_calc H) img = v \<Longrightarrow> adm img"
  shows "\<exists>r t n'. fs_thread H 1 s = Some (r, t) \<and> good v n' t \<and> under_way p n' t \<and> same_sector n s n' t"
proof -
  have rel: "fs_rel (crc32_calc H) n (content (hw s)) s" using g by (simp add: fs_ok_def)
  note few' = few [unfolded blanks_def]
  obtain k where k: "findRelocSector s = (0, s\<lparr>reloc_sector := word_of_nat k\<rparr>)" "k < 8" "k \<noteq> cur s" "n k = 128"
      "\<And>k'. k' < 8 \<Longrightarrow> k' \<noteq> cur s \<Longrightarrow> n k' = 128 \<Longrightarrow> fds_of s k \<le> fds_of s k'"
    by (cases rule: findRelocSector_ok [OF rel]) (use few' in auto)
  obtain k' where "k' < 8" "k' \<noteq> cur s" "n k' = 128" "2 * n (cur s) + 4 * fds_of s k' \<le> p"
    using u pt by (auto simp: making_room_def choosing_def)
  with k(5) [of k'] have p: "2 * n (cur s) + 4 * fds_of s k \<le> p" by simp
  have kk: "k = unat (reloc_sector (s\<lparr>reloc_sector := word_of_nat k\<rparr>))" using k(2) by (simp add: unat_of_nat)
  obtain r t n' where t: "fs_thread H 1 s = Some (r, t)" "good v n' t" "n' (cur t) = n (cur s)"
      "if fds_of s k = 0 then r = PT_ENDED \<and> Fs_pt t = 0 \<and> SECTOR_IS_BLANK t k
       else r = PT_YIELDED \<and> carrying t \<and> left t = fds_of s k \<and> unat (reloc_sector t) = k"
      "curr_sector t = curr_sector s" "\<forall>j < 8. n' j = (if fds_of s k = 0 \<and> j = k then 0 else n j)"
    by (rule find_step [OF g pt adm k(1) kk, where flag = 1])
  have c: "cur t = cur s" "cur s < 8" and one: "1 \<le> card (blanks n s)"
    using t(5) fs_rel_curr [OF rel] u by (simp_all add: making_room_def)
  have "under_way p n' t"
  proof (cases "fds_of s k = 0")
    case True
    then show ?thesis using erased_at_rest [OF _ _ c(1) k(2-4) one] t(4,6) by (simp add: under_way_def)
  next
    case False
    then show ?thesis
      using carrying_making_room [OF _ _ _ c one p, of n'] t(4,6) by (simp add: under_way_def)
  qed
  then show ?thesis using t c by (auto simp: same_sector_def)
qed

lemma making_room_617:
  assumes "Fs_pt s = 596" "Fs_pt t = 617" "todo t = todo s" "n' (cur t) \<le> Suc (n (cur s))"
    and "making_room (Suc p) n s" "blanks n' t = blanks n s"
  shows "making_room p n' t"
  using assms by (simp add: making_room_def)

lemma copy_call:
  assumes g: "good v n s" and pt: "Fs_pt s = 596" and u: "making_room (Suc p) n s" "p \<le> 257"
    and adm: "\<And>img. image_ok (crc32_calc H) img \<Longrightarrow> flash_vars (crc32_calc H) img = v \<Longrightarrow> adm img"
  shows "\<exists>r t n'. fs_thread H 1 s = Some (r, t) \<and> good v n' t \<and> making_room p n' t \<and> same_sector n s n' t"
proof (cases "fd_address (Fs_fd s ! ridx s) = fd_address (reloc_fd s)")
  case True
  have s: "fs_rel (crc32_calc H) n (content (hw s)) s" "ridx s < nfd s" "picked s"
    using g pt by (auto simp: fs_ok_def th_inv_def)
  have c: "carrying s" using True pt s(2) picked_address [OF s True] by (simp add: carrying_def)
  have room: "n (cur s) < 128" using making_room_fill [OF u(1) _ pt] u(2) by simp
  obtain t where t: "fs_thread H 1 s = Some (PT_YIELDED, t)" "good v (n(cur s := Suc (n (cur s)))) t"
      "Fs_pt t = 617" "curr_sector t = curr_sector s"
      "left_from t (Suc (ridx t)) = left_from s (Suc (ridx s))"
    by (rule carry_step [OF g c room adm, where flag = 1])
  have "making_room p (n(cur s := Suc (n (cur s)))) t"
    by (rule making_room_617 [OF pt t(3) _ _ u(1)]) (use t(4,5) in \<open>simp_all add: blanks_upd\<close>)
  then show ?thesis using t by (auto simp: same_sector_def)
next
  case False
  let ?t = "s\<lparr>Fs_pt := 617\<rparr>"
  have "fs_thread H 1 s = Some (PT_YIELDED, ?t)"
    using pt False by (simp add: fs_thread_def fs_thread_with_def thread_check_def PT_YIELD_def set_pt_def)
  moreover have "good v n ?t" using g pt False by (auto simp: fs_ok_def th_inv_def picked_def)
  moreover have "making_room p n ?t"
    by (rule making_room_617 [OF pt _ _ _ u(1)]) (simp_all add: blanks_def)
  ultimately show ?thesis by (auto simp: same_sector_def)
qed

lemma next_call:
  assumes g: "good v n s" and pt: "Fs_pt s = 617" and u: "making_room (Suc p) n s"
    and adm: "\<And>img. image_ok (crc32_calc H) img \<Longrightarrow> flash_vars (crc32_calc H) img = v \<Longrightarrow> adm img"
  shows "\<exists>r t n'. fs_thread H 1 s = Some (r, t) \<and> good v n' t \<and> under_way p n' t \<and> same_sector n s n' t"
proof -
  let ?L = "left_from s (Suc (ridx s))" and ?k = "unat (reloc_sector s)"
  have s: "fs_rel (crc32_calc H) n (content (hw s)) s" "reloc_target n s"
    using g pt by (auto simp: fs_ok_def th_inv_def)
  have k: "?k < 8" "?k \<noteq> cur s" "n ?k = 128" using target_facts [OF s(2)] by simp_all
  obtain r t n' where t: "fs_thread H 1 s = Some (r, t)" "good v n' t" "n' (cur t) = n (cur s)"
      "curr_sector t = curr_sector s" "reloc_sector t = reloc_sector s"
      "if ?L = {} then r = PT_ENDED \<and> Fs_pt t = 0 \<and> SECTOR_IS_BLANK t ?k
       else r = PT_YIELDED \<and> carrying t \<and> left t = card ?L"
      "\<forall>j < 8. n' j = (if ?L = {} \<and> j = ?k then 0 else n j)"
    by (rule next_step [OF g pt adm, where flag = 1])
  have c: "cur t = cur s" "cur s < 8" and one: "1 \<le> card (blanks n s)" and p: "2 * n (cur s) + 4 * card ?L \<le> p"
    using t(4) fs_rel_curr [OF s(1)] u pt by (simp_all add: making_room_def)
  have "under_way p n' t"
  proof (cases "?L = {}")
    case True
    then show ?thesis using erased_at_rest [OF _ _ c(1) k one] t(6,7) by (simp add: under_way_def)
  next
    case False
    then show ?thesis
      using carrying_making_room [OF _ _ _ c one p, of n'] t(6,7) by (simp add: under_way_def)
  qed
  then show ?thesis using t c by (auto simp: same_sector_def)
qed

lemma under_way_call:
  assumes g: "good v n s" and u: "under_way (Suc p) n s" "p \<le> 257"
    and adm: "\<And>img. image_ok (crc32_calc H) img \<Longrightarrow> flash_vars (crc32_calc H) img = v \<Longrightarrow> adm img"
  shows "\<exists>r t n'. fs_thread H 1 s = Some (r, t) \<and> good v n' t \<and> under_way p n' t \<and> same_sector n s n' t"
proof -
  consider (first) "Fs_pt s \<in> {0, 555}" | (enough) "Fs_pt s = 556" "2 \<le> card (blanks n s)"
    | (find) "Fs_pt s = 556" "card (blanks n s) < 2" "making_room (Suc p) n s"
    | (copy) "Fs_pt s = 596" "making_room (Suc p) n s" | (step) "Fs_pt s = 617" "making_room (Suc p) n s"
    using u(1) by (force simp: under_way_def at_rest_def making_room_def)
  then show ?thesis
  proof cases
    case first
    then show ?thesis using first_call [OF g _ u(1)] by blast
  next
    case enough
    then show ?thesis using enough_call [OF g] by (auto simp: under_way_def)
  next
    case find
    show ?thesis by (rule find_call [OF g find adm])
  next
    case copy
    have "\<exists>r t n'. fs_thread H 1 s = Some (r, t) \<and> good v n' t \<and> making_room p n' t \<and> same_sector n s n' t"
      by (rule copy_call [OF g copy u(2) adm])
    then show ?thesis by (auto simp: under_way_def)
  next
    case step
    show ?thesis by (rule next_call [OF g step adm])
  qed
qed

lemma under_way_calls:
  assumes adm: "\<And>img. image_ok (crc32_calc H) img \<Longrightarrow> flash_vars (crc32_calc H) img = v \<Longrightarrow> adm img"
  shows "good v n s \<Longrightarrow> under_way p n s \<Longrightarrow> p \<le> 258 \<Longrightarrow>
    \<exists>rs t n'. thread_calls H 1 m s = Some (rs, t) \<and> good v n' t \<and> under_way (p - m) n' t"
proof (induction m arbitrary: s n p)
  case 0
  then show ?case by auto
next
  case (Suc m)
  have "under_way (Suc (p - 1)) n s" using Suc.prems(2) by (rule under_way_mono) simp
  moreover have "p - 1 \<le> 257" using Suc.prems(3) by simp
  ultimately have "\<exists>r t n'. fs_thread H 1 s = Some (r, t) \<and> good v n' t \<and> under_way (p - 1) n' t \<and> same_sector n s n' t"
    by (rule under_way_call [OF Suc.prems(1)]) (rule adm)
  then obtain r t n' where t: "fs_thread H 1 s = Some (r, t)" "good v n' t" "under_way (p - 1) n' t" by blast
  have "p - 1 \<le> 258" using Suc.prems(3) by linarith
  then obtain rs u n2 where "thread_calls H 1 m t = Some (rs, u)" "good v n2 u" "under_way (p - 1 - m) n2 u"
    using Suc.IH [OF t(2,3)] by blast
  then show ?case using t(1) by auto
qed

text \<open>A write puts one block into the active sector and takes nothing from the thread.\<close>

lemma written_todo:
  assumes w: "written key s t" and away: "reloc_sector s \<noteq> curr_sector s"
  shows "todo t \<le> todo s"
proof (rule card_mono)
  show "left_from t (Suc (ridx t)) \<subseteq> left_from s (Suc (ridx s))"
    using w away unfolding left_from_def written_def by fastforce
qed simp

lemma written_fds:
  assumes "written key s t" "k \<noteq> cur s"
  shows "fds_of t k \<le> fds_of s k"
  unfolding fds_of_card
proof (rule card_mono)
  show "{i. i < nfd t \<and> unat (fd_sector (Fs_fd t ! i)) = k} \<subseteq> {i. i < nfd s \<and> unat (fd_sector (Fs_fd s ! i)) = k}"
    using assms unfolding written_def by fastforce
qed simp

lemma written_choosing:
  assumes w: "written key s t" and c: "choosing p n s"
  shows "choosing (p + 2) (n(cur s := Suc (n (cur s)))) t"
proof -
  obtain k where k: "k < 8" "k \<noteq> cur s" "n k = 128" "2 * n (cur s) + 4 * fds_of s k \<le> p"
    using c by (auto simp: choosing_def)
  moreover have "cur t = cur s" using w by (simp add: written_def)
  ultimately show ?thesis using written_fds [OF w k(2)] by (auto simp: choosing_def intro!: exI [of _ k])
qed

lemma written_under_way:
  assumes w: "written key s t" and g: "good v n s" and u: "under_way p n s"
  shows "under_way (p + 2) (n(cur s := Suc (n (cur s)))) t"
proof -
  let ?n = "n(cur s := Suc (n (cur s)))"
  have eq: "cur t = cur s" "Fs_pt t = Fs_pt s" using w by (simp_all add: written_def)
  then have b: "blanks ?n t = blanks n s" by (simp add: blanks_upd)
  have todo: "todo t \<le> todo s" if "Fs_pt s \<in> {596, 617}"
  proof (rule written_todo [OF w])
    have "reloc_target n s" using g that by (auto simp: fs_ok_def th_inv_def)
    then show "reloc_sector s \<noteq> curr_sector s" by (simp add: reloc_target_def)
  qed
  have "making_room (p + 2) ?n t" if m: "making_room p n s"
  proof -
    consider (start) i where "Fs_pt s \<in> {0, 555} \<and> i = 2 \<or> Fs_pt s = 556 \<and> i = 1" "i \<le> p" "choosing (p - i) n s"
      | (away) "Fs_pt s \<in> {596, 617}"
      using m by (auto simp: making_room_def)
    then show ?thesis
    proof cases
      case start
      then have i: "p + 2 - i = p - i + 2" by simp
      have "choosing (p + 2 - i) ?n t" unfolding i by (rule written_choosing [OF w start(3)])
      then show ?thesis using m eq b start(1,2) by (auto simp: making_room_def)
    next
      case away
      then show ?thesis using m todo eq b by (auto simp: making_room_def)
    qed
  qed
  then show ?thesis using u eq b by (auto simp: under_way_def at_rest_def)
qed

text \<open>The active sector is full: the next one is blank, and the thread is started.\<close>

lemma at_rest_crossing:
  assumes g: "good v n s" and rest: "at_rest n s" and full: "n (cur s) = 128"
    and adm: "\<And>img. image_ok (crc32_calc H) img \<Longrightarrow> flash_vars (crc32_calc H) img = v \<Longrightarrow> adm img"
  shows "\<exists>n1 s1. updateSector (fs_thread H) s = Some (1, s1) \<and> good v n1 s1 \<and> n1 (cur s1) < 128 \<and>
    under_way 201 n1 s1"
proof -
  have rel: "fs_rel (crc32_calc H) n (content (hw s)) s" using g by (simp add: fs_ok_def)
  have "blanks n s \<noteq> {}" using rest by (auto simp: at_rest_def)
  then have "\<not> (\<forall>k < 8. n k = 128)" by (auto simp: blanks_def)
  then obtain m where m: "next_sector_loop s (curr_sector s) = Some (Some m)" "unat m < 8" "n (unat m) < 128"
    by (cases rule: next_sector_ok [OF rel]) auto
  let ?s = "s\<lparr>curr_sector := m\<rparr>"
  note ng = next_sector_good [OF g full m(2,3)]
  have "blanks n s = insert (unat m) (blanks n ?s)" "unat m \<notin> blanks n ?s"
    using full ng(2) m(2) by (auto simp: blanks_def)
  then have card: "card (blanks n s) = Suc (card (blanks n ?s))" by simp
  have "under_way (Suc 201) n ?s"
  proof (cases "2 \<le> card (blanks n ?s)")
    case True
    then show ?thesis using rest by (simp add: under_way_def at_rest_def)
  next
    case False
    have "fs_rel (crc32_calc H) n (content (hw ?s)) ?s" using ng(1) by (simp add: fs_ok_def)
    then have "choosing 200 n ?s" using choosing_light [of "crc32_calc H" n "content (hw ?s)" ?s] False ng(2) by simp
    then show ?thesis
      using rest card by (auto simp: under_way_def at_rest_def making_room_def intro: choosing_mono)
  qed
  then have "\<exists>r t n'. fs_thread H 1 ?s = Some (r, t) \<and> good v n' t \<and> under_way 201 n' t \<and> same_sector n ?s n' t"
    by (rule under_way_call [OF ng(1)]) (simp, rule adm)
  then obtain r t n' where t: "fs_thread H 1 ?s = Some (r, t)" "good v n' t" "under_way 201 n' t"
      "same_sector n ?s n' t" by blast
  have "SECTOR_IS_FULL s (cur s)" using full_iff [OF rel fs_rel_curr [OF rel]] full by simp
  then have "updateSector (fs_thread H) s = Some (1, t)" using m(1) t(1) by (simp add: updateSector_def)
  moreover have "n' (cur t) < 128" using t(4) ng(2) by (simp add: same_sector_def)
  ultimately show ?thesis using t(2,3) by blast
qed

lemma under_way_update:
  assumes g: "good v n s" and u: "under_way p n s" "201 \<le> p" "p \<le> 256"
    and adm: "\<And>img. image_ok (crc32_calc H) img \<Longrightarrow> flash_vars (crc32_calc H) img = v \<Longrightarrow> adm img"
  shows "\<exists>r n1 s1. updateSector (fs_thread H) s = Some (r, s1) \<and> \<not> r < 0 \<and> good v n1 s1 \<and>
    n1 (cur s1) < 128 \<and> under_way p n1 s1"
proof (cases "n (cur s) < 128")
  case True
  then show ?thesis using update_room [OF g] g u(1) by auto
next
  case False
  have rel: "fs_rel (crc32_calc H) n (content (hw s)) s" using g by (simp add: fs_ok_def)
  have full: "n (cur s) = 128" using False fill_le [OF fs_rel_layout [OF rel] fs_rel_curr [OF rel]] by simp
  have "at_rest n s" using u False making_room_fill' by (auto simp: under_way_def)
  then have "\<exists>n1 s1. updateSector (fs_thread H) s = Some (1, s1) \<and> good v n1 s1 \<and> n1 (cur s1) < 128 \<and>
      under_way 201 n1 s1"
    by (rule at_rest_crossing [OF g _ full]) (rule adm)
  then show ?thesis using under_way_mono [OF _ u(2)] by fastforce
qed

lemma under_way_write:
  assumes g: "good v n s" and u: "under_way p n s" "201 \<le> p" "p \<le> 256"
    and len: "unat l \<le> 28" "unat l \<le> length d"
    and key: "key = Key name (ucast ext)" and free: "v key \<noteq> None \<or> card (dom v) < FD_MAX"
    and v': "v' = v(key \<mapsto> stored d l)"
    and adm: "\<And>img. between (crc32_calc H) v v' img \<Longrightarrow> adm img"
  shows "\<exists>t n'. fs_write H name ext d l s = Some (0, t) \<and> good v' n' t \<and> under_way (p + 2) n' t"
proof -
  have "\<exists>r n1 s1. updateSector (fs_thread H) s = Some (r, s1) \<and> \<not> r < 0 \<and> good v n1 s1 \<and>
      n1 (cur s1) < 128 \<and> under_way p n1 s1"
    by (rule under_way_update [OF g u]) (rule adm, simp add: between_def)
  then obtain r n1 s1 where s1: "updateSector (fs_thread H) s = Some (r, s1)" "\<not> r < 0" "good v n1 s1"
      "n1 (cur s1) < 128" "under_way p n1 s1" by blast
  have "\<exists>t. fs_write H name ext d l s = Some (0, t) \<and>
      good v' (n1(cur s1 := Suc (n1 (cur s1)))) t \<and> written key s1 t"
    by (rule write_after_update [OF s1(1-4) len key free v' adm])
  then show ?thesis using written_under_way [OF _ s1(3,5)] by blast
qed

end

section \<open>A reboot\<close>

text \<open>How many variables lie in a sector is a matter of the image.\<close>

lemma fds_of_image:
  assumes "fs_rel crc n img s"
  shows "fds_of s k = card {m. m div 128 = k \<and> valid crc (img m)}"
proof -
  let ?I = "{i. i < nfd s \<and> unat (fd_sector (Fs_fd s ! i)) = k}"
  have "inj_on (\<lambda>i. fd_slot (Fs_fd s ! i)) ?I"
    using fs_rel_slot_inj [OF assms] by (auto intro!: inj_onI)
  moreover have "(\<lambda>i. fd_slot (Fs_fd s ! i)) ` ?I = {m. m div 128 = k \<and> valid crc (img m)}"
  proof (intro set_eqI iffI)
    fix m assume "m \<in> (\<lambda>i. fd_slot (Fs_fd s ! i)) ` ?I"
    then obtain i where i: "i < nfd s" "unat (fd_sector (Fs_fd s ! i)) = k" "m = fd_slot (Fs_fd s ! i)" by blast
    have "valid crc (img m)" using fs_rel_fd [OF assms i(1)] unfolding fd_ok_def i(3) by blast
    moreover have "m div 128 = k" using fd_sector_slot(1) [OF assms i(1)] unfolding i(2,3) by (rule sym)
    ultimately show "m \<in> {m. m div 128 = k \<and> valid crc (img m)}" by blast
  next
    fix m assume m: "m \<in> {m. m div 128 = k \<and> valid crc (img m)}"
    then have "valid crc (img m)" by simp
    from fs_rel_owner [OF assms this] obtain i where i: "i < nfd s" "fd_slot (Fs_fd s ! i) = m" by blast
    have "unat (fd_sector (Fs_fd s ! i)) = k" unfolding fd_sector_slot(1) [OF assms i(1)] i(2) using m by simp
    then have "i \<in> ?I" using i(1) by simp
    then show "m \<in> (\<lambda>i. fd_slot (Fs_fd s ! i)) ` ?I" using i(2) by blast
  qed
  ultimately show ?thesis using card_image [of "\<lambda>i. fd_slot (Fs_fd s ! i)" ?I] by (simp only: fds_of_card)
qed

text \<open>A thread started again chooses a sector with no more variables than it had left to move.\<close>

lemma fds_of_reloc:
  assumes "moved s (ridx s)"
  shows "fds_of s (unat (reloc_sector s)) \<le> Suc (todo s)"
    and "fd_sector (Fs_fd s ! ridx s) \<noteq> reloc_sector s \<Longrightarrow> fds_of s (unat (reloc_sector s)) \<le> todo s"
proof -
  let ?I = "{i. i < nfd s \<and> unat (fd_sector (Fs_fd s ! i)) = unat (reloc_sector s)}"
  have sub: "i \<in> insert (ridx s) (left_from s (Suc (ridx s)))" if "i \<in> ?I" for i
  proof -
    have "\<not> i < ridx s" using that assms by (auto simp: moved_def word_unat_eq_iff)
    then show ?thesis using that by (auto simp: left_from_def word_unat_eq_iff)
  qed
  then have "card ?I \<le> card (insert (ridx s) (left_from s (Suc (ridx s))))" by (intro card_mono) auto
  also have "\<dots> \<le> Suc (todo s)" by (simp add: card_insert_if)
  finally show "fds_of s (unat (reloc_sector s)) \<le> Suc (todo s)" by (simp add: fds_of_card)
  assume "fd_sector (Fs_fd s ! ridx s) \<noteq> reloc_sector s"
  then have "?I \<subseteq> left_from s (Suc (ridx s))" using sub by (auto simp: word_unat_eq_iff)
  then show "fds_of s (unat (reloc_sector s)) \<le> todo s" unfolding fds_of_card by (intro card_mono) auto
qed

lemma making_room_choosing:
  assumes "fs_ok content ok crc v n s" "making_room p n s"
  shows "choosing p n s"
proof -
  have th: "th_inv crc n (content (hw s)) s" using assms(1) by (simp add: fs_ok_def)
  consider (start) i where "choosing (p - i) n s" | (away) "Fs_pt s \<in> {596, 617}"
    using assms(2) by (auto simp: making_room_def)
  then show ?thesis
  proof cases
    case start
    then show ?thesis by (rule choosing_mono) simp
  next
    case away
    then have t: "reloc_target n s" "moved s (ridx s)"
        "Fs_pt s = 617 \<Longrightarrow> fd_sector (Fs_fd s ! ridx s) \<noteq> reloc_sector s"
      using th by (auto simp: th_inv_def)
    have "2 * n (cur s) + 4 * fds_of s (unat (reloc_sector s)) \<le> p"
      using assms(2) away fds_of_reloc [OF t(2)] t(3) by (auto simp: making_room_def)
    then show ?thesis using target_facts [OF t(1)] by (auto simp: choosing_def)
  qed
qed

lemma card_blanks:
  assumes "cur s < 8"
  shows "card {k. k < 8 \<and> n k = 0} = card (blanks n s) + (if n (cur s) = 0 then 1 else 0)"
proof -
  have "{k. k < 8 \<and> n k = 0} = (if n (cur s) = 0 then insert (cur s) (blanks n s) else blanks n s)"
    using assms by (auto simp: blanks_def)
  moreover have "cur s \<notin> blanks n s" by (simp add: blanks_def)
  ultimately show ?thesis by simp
qed

text \<open>
  Start-up keeps a partly written active sector; of two blank ones it may take the other; a full
  one it leaves for a blank one.
\<close>

lemma reboot_room:
  assumes rel: "fs_rel crc n img s" "fs_rel crc n img s'"
    and room: "n (cur s') = 128 \<longrightarrow> (\<forall>k < 8. n k = 128)" and blank: "1 \<le> card (blanks n s)"
  shows "n (cur s') \<noteq> 128" "n (cur s') = n (cur s) \<or> n (cur s') = 0 \<and> n (cur s) = 128"
    and "n (cur s') = n (cur s) \<Longrightarrow> card (blanks n s') = card (blanks n s)"
    and "n (cur s') = 0 \<Longrightarrow> n (cur s) = 128 \<Longrightarrow> card (blanks n s) = Suc (card (blanks n s'))"
proof -
  have c: "cur s < 8" "cur s' < 8" using fs_rel_curr [OF rel(1)] fs_rel_curr [OF rel(2)] by simp_all
  have "blanks n s \<noteq> {}" using blank by auto
  then have "\<not> (\<forall>k < 8. n k = 128)" by (auto simp: blanks_def)
  then show lt: "n (cur s') \<noteq> 128" using room by blast
  show "n (cur s') = n (cur s) \<or> n (cur s') = 0 \<and> n (cur s) = 128"
    using fs_rel_ring [OF rel(1)] fs_rel_ring [OF rel(2)] c lt unfolding ring_def by metis
qed (use card_blanks [OF fs_rel_curr [OF rel(1)], of n] card_blanks [OF fs_rel_curr [OF rel(2)], of n]
    in \<open>simp_all split: if_splits\<close>)

lemma making_room_reboot:
  assumes rel: "fs_rel crc n (content (hw s)) s" "fs_rel crc n (content (hw s)) s'"
    and g: "fs_ok content ok crc v n s" and m: "making_room p n s" and pt: "Fs_pt s' = 0"
    and eq: "n (cur s') = n (cur s)" "n (cur s') \<noteq> 128" "card (blanks n s') = card (blanks n s)"
  shows "making_room (p + 2) n s'"
proof -
  have fds: "fds_of s' k = fds_of s k" for k using fds_of_image [OF rel(1)] fds_of_image [OF rel(2)] by simp
  obtain k where "k < 8" "n k = 128" "2 * n (cur s) + 4 * fds_of s k \<le> p"
    using making_room_choosing [OF g m] by (auto simp: choosing_def)
  then have "choosing p n s'" using eq fds by (auto simp: choosing_def)
  then show ?thesis using m eq(3) pt by (simp add: making_room_def)
qed

lemma under_way_reboot:
  assumes g: "fs_ok content ok crc v n s" and g': "fs_ok content ok crc v n s'"
    and img: "content (hw s') = content (hw s)" and pt: "Fs_pt s' = 0"
    and room: "n (cur s') = 128 \<longrightarrow> (\<forall>k < 8. n k = 128)"
    and u: "under_way p n s" "200 \<le> p" "p \<le> 256"
  shows "under_way (p + 2) n s'"
proof -
  have rel: "fs_rel crc n (content (hw s)) s" "fs_rel crc n (content (hw s)) s'"
    using g g' img by (simp_all add: fs_ok_def)
  have blank: "1 \<le> card (blanks n s)" using u(1) by (auto simp: under_way_def at_rest_def making_room_def)
  note r = reboot_room [OF rel room blank]
  show ?thesis
    using r(2)
  proof
    assume eq: "n (cur s') = n (cur s)"
    have "making_room p n s \<Longrightarrow> making_room (p + 2) n s'"
      by (rule making_room_reboot [OF rel g _ pt eq r(1) r(3) [OF eq]])
    then show ?thesis using u(1) r(3) [OF eq] pt by (auto simp: under_way_def at_rest_def)
  next
    assume z: "n (cur s') = 0 \<and> n (cur s) = 128"
    then have "at_rest n s" using u making_room_fill' [of p n s] by (auto simp: under_way_def)
    then have b: "1 \<le> card (blanks n s')" using r(4) z by (simp add: at_rest_def)
    show ?thesis
    proof (cases "2 \<le> card (blanks n s')")
      case False
      then have "choosing 200 n s'" using choosing_light [OF rel(2)] z by simp
      then have "choosing p n s'" using u(2) by (rule choosing_mono)
      then show ?thesis using b pt by (simp add: under_way_def making_room_def)
    qed (use pt in \<open>simp add: under_way_def at_rest_def\<close>)
  qed
qed

section \<open>A session on the mocked board\<close>

text \<open>
  A write or a power cycle, and the number of calls of \<open>fs_thread\<close> made after it. The session
  returns the results of its writes.
\<close>

datatype usage = is_Put: Put u16 u8 bytes u8 nat | Power_cycle nat

primrec usage_run :: "(bytes \<Rightarrow> u32) \<Rightarrow> u8 \<Rightarrow> usage \<Rightarrow> FlashMock Fs \<Rightarrow> (int list \<times> FlashMock Fs) option" where
  "usage_run crc flag (Put name ext d l m) s = do {
     (r, s) \<leftarrow> fs_write (mock_hal crc) name ext d l s;
     (_, s) \<leftarrow> thread_calls (mock_hal crc) flag m s;
     Some ([r], s)
   }"
| "usage_run crc flag (Power_cycle m) s = do {
     s \<leftarrow> boot (mock_hal crc) (hw s);
     (_, s) \<leftarrow> thread_calls (mock_hal crc) flag m s;
     Some ([], s)
   }"

primrec session :: "(bytes \<Rightarrow> u32) \<Rightarrow> u8 \<Rightarrow> usage list \<Rightarrow> FlashMock Fs \<Rightarrow> (int list \<times> FlashMock Fs) option" where
  "session crc flag [] s = Some ([], s)"
| "session crc flag (j # js) s = do {
     (r, s) \<leftarrow> usage_run crc flag j s;
     (rs, s) \<leftarrow> session crc flag js s;
     Some (r @ rs, s)
   }"

primrec usage_keys :: "usage \<Rightarrow> key set" where
  "usage_keys (Put name ext d l m) = {Key name (ucast ext)}"
| "usage_keys (Power_cycle m) = {}"

text \<open>At most 28 bytes, that are there, and at least two calls afterwards.\<close>

primrec usage_ok :: "usage \<Rightarrow> bool" where
  "usage_ok (Put name ext d l m) = (unat l \<le> 28 \<and> unat l \<le> length d \<and> 2 \<le> m)"
| "usage_ok (Power_cycle m) = (2 \<le> m)"

primrec usage_store :: "usage \<Rightarrow> (key \<Rightarrow> bytes option) \<Rightarrow> key \<Rightarrow> bytes option" where
  "usage_store (Put name ext d l m) v = v(Key name (ucast ext) \<mapsto> stored d l)"
| "usage_store (Power_cycle m) v = v"

lemma mock_expired: "fs_thread (mock_hal crc) flag s = fs_thread (mock_hal crc) 1 s"
  by (simp add: fs_thread_def fs_thread_with_def thread_wait_def PT_WAIT_UNTIL_def PT_YIELD_def mock_hal_def set_pt_def)

lemma mock_calls_flag: "thread_calls (mock_hal crc) flag m s = thread_calls (mock_hal crc) 1 m s"
proof (induction m arbitrary: s)
  case (Suc m)
  then show ?case by (simp add: mock_expired [of crc flag])
qed simp

abbreviation mock_good :: "(bytes \<Rightarrow> u32) \<Rightarrow> (key \<Rightarrow> bytes option) \<Rightarrow> (nat \<Rightarrow> nat) \<Rightarrow> FlashMock Fs \<Rightarrow> bool" where
  "mock_good \<equiv> fs_ok mock_content mock_ok"

lemma mock_usage_calls:
  assumes "mock_good crc v n s" "under_way 258 n s" "2 \<le> m"
  obtains rs t n' where "thread_calls (mock_hal crc) flag m s = Some (rs, t)" "mock_good crc v n' t" "under_way 256 n' t"
proof -
  have g: "mock_good (crc32_calc (mock_hal crc)) v n s" using assms(1) by simp
  obtain rs t n' where t: "thread_calls (mock_hal crc) 1 m s = Some (rs, t)" "mock_good crc v n' t" "under_way (258 - m) n' t"
    using ready_mock.under_way_calls [OF TrueI g assms(2), of m] by auto
  moreover have "under_way 256 n' t" using t(3) assms(3) by (elim under_way_mono) simp
  ultimately show thesis using that mock_calls_flag [of crc flag] by metis
qed

lemma finite_dom_mock: "mock_good crc v n s \<Longrightarrow> finite (dom v)"
  using finite_dom_vars by (auto simp: fs_ok_def)

lemma finite_usage_keys [simp]: "finite (usage_keys j)"
  by (cases j) simp_all

lemma dom_usage_store: "dom (usage_store j v) = dom v \<union> usage_keys j"
  by (cases j) auto

lemma usage_run_ok:
  assumes g: "mock_good crc v n s" and u: "under_way 256 n s"
    and few: "card (dom v \<union> usage_keys j) \<le> FD_MAX" and ok: "usage_ok j"
  shows "\<exists>t n'. usage_run crc flag j s = Some (replicate (if is_Put j then 1 else 0) 0, t) \<and>
    mock_good crc (usage_store j v) n' t \<and> under_way 256 n' t"
proof (cases j)
  case (Put name ext d l m)
  have free: "v (Key name (ucast ext)) \<noteq> None \<or> card (dom v) < FD_MAX"
    using few finite_dom_mock [OF g] Put by (auto simp: card_insert_if domIff split: if_splits)
  have g': "mock_good (crc32_calc (mock_hal crc)) v n s" using g by simp
  obtain t n1 where t: "fs_write (mock_hal crc) name ext d l s = Some (0, t)"
      "mock_good crc (usage_store j v) n1 t" "under_way 258 n1 t"
    using ready_mock.under_way_write [OF g' u _ _ _ _ refl free refl TrueI, of l d] ok by (auto simp: Put)
  obtain rs t' n' where "thread_calls (mock_hal crc) flag m t = Some (rs, t')"
      "mock_good crc (usage_store j v) n' t'" "under_way 256 n' t'"
    by (rule mock_usage_calls [OF t(2,3), of m, where flag = flag]) (use ok Put in simp_all)
  then show ?thesis using t(1) by (auto simp: Put)
next
  case (Power_cycle m)
  obtain t where t: "boot (mock_hal crc) (hw s) = Some t" "mock_good crc v n t"
      "mock_content (hw t) = mock_content (hw s)" "n (cur t) = 128 \<longrightarrow> (\<forall>k < 8. n k = 128)"
    by (rule reboot_mock [OF g])
  have "under_way (256 + 2) n t"
    by (rule under_way_reboot [OF g t(2,3) boot_pt [OF t(1)] t(4) u]) simp_all
  then have u': "under_way 258 n t" by simp
  obtain rs t' n' where "thread_calls (mock_hal crc) flag m t = Some (rs, t')"
      "mock_good crc v n' t'" "under_way 256 n' t'"
    by (rule mock_usage_calls [OF t(2) u', of m, where flag = flag]) (use ok Power_cycle in simp_all)
  then show ?thesis using t(1) by (auto simp: Power_cycle)
qed

lemma session_ok:
  assumes "mock_good crc v n s" "under_way 256 n s"
    and "card (dom v \<union> \<Union> (usage_keys ` set js)) \<le> FD_MAX" "\<forall>j \<in> set js. usage_ok j"
  shows "\<exists>s' n'. session crc flag js s = Some (replicate (length (filter is_Put js)) 0, s') \<and>
    mock_good crc (fold usage_store js v) n' s' \<and> under_way 256 n' s'"
  using assms
proof (induction js arbitrary: v n s)
  case Nil
  then show ?case by auto
next
  case (Cons j js)
  have "card (dom v \<union> usage_keys j) \<le> card (dom v \<union> \<Union> (usage_keys ` set (j # js)))"
    using finite_dom_mock [OF Cons.prems(1)] by (intro card_mono) auto
  then have few: "card (dom v \<union> usage_keys j) \<le> FD_MAX" using Cons.prems(3) by linarith
  have "usage_ok j" using Cons.prems(4) by simp
  then obtain t n1 where t: "usage_run crc flag j s = Some (replicate (if is_Put j then 1 else 0) 0, t)"
      "mock_good crc (usage_store j v) n1 t" "under_way 256 n1 t"
    using usage_run_ok [OF Cons.prems(1,2) few] by blast
  have "dom v \<union> \<Union> (usage_keys ` set (j # js)) = dom (usage_store j v) \<union> \<Union> (usage_keys ` set js)"
    by (simp add: dom_usage_store Un_assoc)
  then have "card (dom (usage_store j v) \<union> \<Union> (usage_keys ` set js)) \<le> FD_MAX" using Cons.prems(3) by (simp only:)
  moreover have "\<forall>j \<in> set js. usage_ok j" using Cons.prems(4) by simp
  ultimately obtain s' n' where s': "session crc flag js t = Some (replicate (length (filter is_Put js)) 0, s')"
      "mock_good crc (fold usage_store js (usage_store j v)) n' s'" "under_way 256 n' s'"
    using Cons.IH [OF t(2,3)] by blast
  have "session crc flag (j # js) s = Some (replicate (length (filter is_Put (j # js))) 0, s')"
    using t(1) s'(1) by simp
  then show ?case using s'(2,3) by (metis fold_simps(2))
qed

text \<open>
  C23. The store never fills up. When the thread is at its start, two sectors beside the active
  one are blank, and there are descriptors for all variables, then any number of writes succeeds,
  power cycles between them included, and the store holds what was written, provided that
  \<open>fs_thread\<close> is called at least twice after each write and after each power cycle: the thread
  gets a sector erased before the active one is full.
\<close>

theorem writes_never_refused:
  assumes "mock_fs crc v s" "Fs_pt s \<in> {0, 555, 556}"
    and "2 \<le> card {k. k < FS_NUM_SECTORS \<and> k \<noteq> unat (curr_sector s) \<and> SECTOR_IS_BLANK s k}"
    and "card (dom v \<union> \<Union> (usage_keys ` set js)) \<le> FD_MAX" "\<forall>j \<in> set js. usage_ok j"
  shows "\<exists>s'. session crc flag js s = Some (replicate (length (filter is_Put js)) 0, s') \<and>
    mock_fs crc (fold usage_store js v) s'"
proof -
  obtain n where g: "mock_good crc v n s" using assms(1) by (auto simp: mock_fs_def)
  then have "{k. k < FS_NUM_SECTORS \<and> k \<noteq> cur s \<and> SECTOR_IS_BLANK s k} = blanks n s"
    using blank_iff [of crc n "mock_content (hw s)" s] by (auto simp: blanks_def fs_ok_def)
  then have "under_way 256 n s" using assms(2,3) by (simp add: under_way_def at_rest_def)
  from session_ok [OF g this assms(4,5), of flag] show ?thesis unfolding mock_fs_def by blast
qed

text \<open>
  Twelve thousand writes, of as many variables as there are descriptors, with forty power cycles,
  on a board that was blank and has 1024 blocks.
\<close>

definition heavy_use :: "usage list" where
  "heavy_use = concat (replicate 40 (Power_cycle 2 # map (\<lambda>i. Put (word_of_nat i) 0 [1] 1 2) [0..<300]))"

lemma fresh_at_rest: "Fs_pt fresh = 0"
  "2 \<le> card {k. k < FS_NUM_SECTORS \<and> k \<noteq> unat (curr_sector fresh) \<and> SECTOR_IS_BLANK fresh k}"
proof -
  have "map_option (\<lambda>s. (Fs_pt s, curr_sector s, SECTOR_IS_BLANK s 0, SECTOR_IS_BLANK s 1))
      (boot (mock_hal crc32_calc_stub) FlashMock_new) = Some (0, 7, True, True)" by code_simp
  then have s: "Fs_pt fresh = 0" "curr_sector fresh = 7" "SECTOR_IS_BLANK fresh 0" "SECTOR_IS_BLANK fresh 1"
    by (simp_all add: fresh_boot)
  then have "{0, 1} \<subseteq> {k. k < FS_NUM_SECTORS \<and> k \<noteq> unat (curr_sector fresh) \<and> SECTOR_IS_BLANK fresh k}" by simp
  then have "card {0, 1 :: nat} \<le> card {k. k < FS_NUM_SECTORS \<and> k \<noteq> unat (curr_sector fresh) \<and> SECTOR_IS_BLANK fresh k}"
    by (intro card_mono) simp_all
  then show "2 \<le> card {k. k < FS_NUM_SECTORS \<and> k \<noteq> unat (curr_sector fresh) \<and> SECTOR_IS_BLANK fresh k}" by simp
  show "Fs_pt fresh = 0" by (rule s(1))
qed

lemma heavy_use_facts: "length (filter is_Put heavy_use) = 12000" "\<forall>j \<in> set heavy_use. usage_ok j"
  "card (\<Union> (usage_keys ` set heavy_use)) \<le> FD_MAX"
proof -
  have "filter is_Put (map (\<lambda>i. Put (word_of_nat i) 0 [1] 1 2) is) = map (\<lambda>i. Put (word_of_nat i) 0 [1] 1 2) is" for "is"
    by (simp add: filter_map o_def)
  then show "length (filter is_Put heavy_use) = 12000"
    by (simp add: heavy_use_def filter_concat length_concat sum_list_replicate del: upt_rec_numeral)
  show "\<forall>j \<in> set heavy_use. usage_ok j" by (auto simp: heavy_use_def simp del: upt_rec_numeral)
  have "\<Union> (usage_keys ` set heavy_use) \<subseteq> (\<lambda>i. Key (word_of_nat i) 0) ` {0..<300}"
    by (auto simp: heavy_use_def simp del: upt_rec_numeral)
  then have "card (\<Union> (usage_keys ` set heavy_use)) \<le> card ((\<lambda>i. Key (word_of_nat i) 0) ` {0..<300 :: nat})"
    by (intro card_mono) simp_all
  also have "\<dots> \<le> card {0..<300 :: nat}" by (rule card_image_le) simp
  finally show "card (\<Union> (usage_keys ` set heavy_use)) \<le> FD_MAX" by simp
qed

theorem writes_never_refused_witness:
  "\<exists>s. session crc32_calc_stub 1 heavy_use fresh = Some (replicate 12000 0, s) \<and>
     mock_fs crc32_calc_stub (fold usage_store heavy_use Map.empty) s"
  using writes_never_refused [OF fresh_ok _ fresh_at_rest(2), of heavy_use 1] heavy_use_facts fresh_at_rest(1) by simp

end
