(* ===== verification/DoubleCopy.thy ===== *)
theory DoubleCopy
  imports Running
begin

text \<open>
  The call cycle of the code at its one harmful place: \<open>fs_thread\<close> copies a block with
  \<open>fs_write\<close>, which finds the active sector full and calls \<open>fs_thread (1)\<close>. The inner call resumes
  at the same line and copies the block; the outer \<open>fs_write\<close> then writes it once more.
\<close>

section \<open>On any flash device\<close>

lemma written_sector:
  assumes w: "written key s t" and j: "j < nfd t"
  shows "fd_sector (Fs_fd t ! j) = curr_sector s \<longleftrightarrow>
    fd_key (Fs_fd t ! j) = key \<or> j < nfd s \<and> fd_sector (Fs_fd s ! j) = curr_sector s"
  using w j unfolding written_def by metis

lemma written_twice:
  assumes w: "written key s s1" "written key (s1\<lparr>Fs_pt := l\<rparr>) t" and m: "curr_sector s = m"
    and none: "\<And>j. j < nfd s \<Longrightarrow> fd_sector (Fs_fd s ! j) \<noteq> m" and j: "j < nfd t"
  shows "fd_sector (Fs_fd t ! j) = m \<longleftrightarrow> fd_key (Fs_fd t ! j) = key"
proof -
  have c: "curr_sector s1 = m" using w(1) m by (simp add: written_def)
  have old: "fd_key (Fs_fd s1 ! j) = key" if "j < nfd s1" "fd_sector (Fs_fd s1 ! j) = m"
    using written_sector [OF w(1) that(1)] that(2) none [of j] m by auto
  have "fd_key (Fs_fd t ! j) = fd_key (Fs_fd s1 ! j)" if "j < nfd s1"
    using w(2) that by (simp add: written_def)
  then show ?thesis using written_sector [OF w(2) j] old c by auto
qed

lemma blank_no_fd:
  assumes rel: "fs_rel crc n img s" and blank: "n (unat m) = 0" and i: "i < nfd s"
  shows "fd_sector (Fs_fd s ! i) \<noteq> m"
proof
  assume "fd_sector (Fs_fd s ! i) = m"
  then have "n (fd_slot (Fs_fd s ! i) div 128) = 0" using fd_sector_slot(1) [OF rel i] blank by simp
  then show False
    using valid_filled [OF fs_rel_layout [OF rel], of crc "fd_slot (Fs_fd s ! i)"] fs_rel_fd [OF rel i]
    by (simp add: fd_ok_def)
qed

context flash_device
begin

text \<open>The inner call: the block is copied into the next sector and the thread goes to line 617.\<close>

lemma crossing_update:
  assumes g: "good v n s" and full: "n (cur s) = 128" and room: "\<exists>k < 8. n k \<noteq> 128"
    and pt: "Fs_pt s = 596" "fd_address (Fs_fd s ! ridx s) = fd_address (reloc_fd s)"
    and adm: "\<And>img. image_ok (crc32_calc H) img \<Longrightarrow> flash_vars (crc32_calc H) img = v \<Longrightarrow> adm img"
  obtains m s' where "n (unat m) = 0" "unat m < 8" "updateSector (fs_thread H) s = Some (1, s'\<lparr>Fs_pt := 617\<rparr>)"
    "good v (n(unat m := 1)) (s'\<lparr>Fs_pt := 617\<rparr>)" "written (fd_key (reloc_fd s)) (s\<lparr>curr_sector := m\<rparr>) s'"
    "same_move (n(unat m := 1)) s (s'\<lparr>Fs_pt := 617\<rparr>)"
proof -
  have rel: "fs_rel (crc32_calc H) n (content (hw s)) s" using g by (simp add: fs_ok_def)
  obtain m where m: "next_sector_loop s (curr_sector s) = Some (Some m)" "unat m < 8" "n (unat m) < 128"
    by (cases rule: next_sector_ok [OF rel]) (use room in auto)
  let ?s = "s\<lparr>curr_sector := m\<rparr>"
  note ng = next_sector_good [OF g full m(2,3)]
  have "\<exists>s'. fs_thread H 1 ?s = Some (PT_YIELDED, s'\<lparr>Fs_pt := 617\<rparr>) \<and>
      good v (n(cur ?s := Suc (n (cur ?s)))) (s'\<lparr>Fs_pt := 617\<rparr>) \<and> written (fd_key (reloc_fd ?s)) ?s s'"
    by (rule thread_reloc_room [OF ng(1) _ _ _ adm]) (use m(3) pt in simp_all)
  then obtain s' where s': "fs_thread H 1 ?s = Some (PT_YIELDED, s'\<lparr>Fs_pt := 617\<rparr>)"
      "good v (n(unat m := 1)) (s'\<lparr>Fs_pt := 617\<rparr>)" "written (fd_key (reloc_fd s)) ?s s'"
    using ng(2) by auto
  have "SECTOR_IS_FULL s (cur s)" using full_iff [OF rel fs_rel_curr [OF rel]] full by simp
  then have upd: "updateSector (fs_thread H) s = Some (1, s'\<lparr>Fs_pt := 617\<rparr>)"
    using m(1) s'(1) by (simp add: updateSector_def)
  have pt': "Fs_pt s \<in> {596, 610}" using pt(1) by simp
  have "same_move (n(unat m := 1)) s (s'\<lparr>Fs_pt := 617\<rparr>)"
    by (rule next_sector_same_move [OF g ng(1) m(3) adm s'(1,2) pt' pt(2)])
  then show thesis using that [OF ng(2) m(2) upd s'(2,3)] by blast
qed

lemma copy_crossing:
  assumes g: "good v n s" and full: "n (cur s) = 128" and room: "\<exists>k < 8. n k \<noteq> 128"
    and pt: "Fs_pt s = 596" "fd_address (Fs_fd s ! ridx s) = fd_address (reloc_fd s)"
    and adm: "\<And>img. image_ok (crc32_calc H) img \<Longrightarrow> flash_vars (crc32_calc H) img = v \<Longrightarrow> adm img"
  obtains m t where "n (unat m) = 0" "unat m < 8" "fs_thread H flag s = Some (PT_YIELDED, t)"
    "good v (n(unat m := 2)) t" "curr_sector t = m"
    "\<forall>j < nfd t. fd_sector (Fs_fd t ! j) = m \<longleftrightarrow> fd_key (Fs_fd t ! j) = fd_key (reloc_fd s)"
proof -
  have pt': "Fs_pt s \<in> {596, 610}" using pt(1) by simp
  have rel: "fs_rel (crc32_calc H) n (content (hw s)) s" using g by (simp add: fs_ok_def)
  obtain m s' where m: "n (unat m) = 0" "unat m < 8"
      and s': "updateSector (fs_thread H) s = Some (1, s'\<lparr>Fs_pt := 617\<rparr>)" "good v (n(unat m := 1)) (s'\<lparr>Fs_pt := 617\<rparr>)"
        "written (fd_key (reloc_fd s)) (s\<lparr>curr_sector := m\<rparr>) s'" "same_move (n(unat m := 1)) s (s'\<lparr>Fs_pt := 617\<rparr>)"
    by (rule crossing_update [OF g full room pt adm])
  let ?s = "s\<lparr>curr_sector := m\<rparr>" and ?s1 = "s'\<lparr>Fs_pt := 617\<rparr>"
  have c: "curr_sector ?s1 = m" using s'(3) by (simp add: written_def)
  have at: "reloc_target (n(unat m := 1)) ?s1" "ridx ?s1 < nfd ?s1" "moved ?s1 (ridx ?s1)"
      "fd_key (Fs_fd ?s1 ! ridx ?s1) = fd_key (reloc_fd s)"
    using s'(4) by (simp_all only: same_move_def)
  have lt: "(n(unat m := 1)) (cur ?s1) < 128" using c by simp
  have "\<exists>t. thread_write (fs_write H) s = Some (PT_YIELDED, t\<lparr>Fs_pt := 617\<rparr>) \<and>
      good v ((n(unat m := 1))(cur ?s1 := Suc ((n(unat m := 1)) (cur ?s1)))) (t\<lparr>Fs_pt := 617\<rparr>) \<and>
      written (fd_key (reloc_fd s)) ?s1 t"
    by (rule thread_write_after_update [OF s'(1) _ g s'(2) lt pt' pt(2) at]) (simp, rule adm)
  then obtain t where t: "thread_write (fs_write H) s = Some (PT_YIELDED, t\<lparr>Fs_pt := 617\<rparr>)"
      "good v ((n(unat m := 1))(cur ?s1 := Suc ((n(unat m := 1)) (cur ?s1)))) (t\<lparr>Fs_pt := 617\<rparr>)"
      "written (fd_key (reloc_fd s)) ?s1 t"
    by blast
  show thesis
  proof (rule that [OF m])
    show "fs_thread H flag s = Some (PT_YIELDED, t\<lparr>Fs_pt := 617\<rparr>)"
      using t(1) pt by (simp add: fs_thread_def fs_thread_with_def thread_check_def)
    show "good v (n(unat m := 2)) (t\<lparr>Fs_pt := 617\<rparr>)" using t(2) c by (simp add: numeral_2_eq_2)
    show "curr_sector (t\<lparr>Fs_pt := 617\<rparr>) = m" using t(3) c by (simp add: written_def)
    have "fd_sector (Fs_fd ?s ! j) \<noteq> m" if "j < nfd ?s" for j using blank_no_fd [OF rel m(1)] that by simp
    from written_twice [OF s'(3) t(3) _ this]
    show "\<forall>j < nfd (t\<lparr>Fs_pt := 617\<rparr>). fd_sector (Fs_fd (t\<lparr>Fs_pt := 617\<rparr>) ! j) = m \<longleftrightarrow>
        fd_key (Fs_fd (t\<lparr>Fs_pt := 617\<rparr>) ! j) = fd_key (reloc_fd s)"
      by simp
  qed
qed

end

section \<open>On the mocked board\<close>

text \<open>
  C27. A copy is made twice at the end of a sector. The thread is about to store the block it
  read, the variable is still in place, the active sector is full and another one has room. The
  call then yields with the invariant and all variables kept, but it has taken two blocks of the
  new active sector, which was blank, while only one variable has moved there.
\<close>

theorem copied_twice:
  assumes "mock_fs crc v s" "Fs_pt s = 596"
    and "fd_address (Fs_fd s ! unat (reloc_fd_index s)) = fd_address (reloc_fd s)"
    and "SECTOR_IS_FULL s (unat (curr_sector s))" "\<not> all_full s"
  shows "\<exists>t. fs_thread (mock_hal crc) flag s = Some (PT_YIELDED, t) \<and> mock_fs crc v t \<and>
    SECTOR_IS_BLANK s (unat (curr_sector t)) \<and>
    curr_address t ! unat (curr_sector t) = Sector_base ! unat (curr_sector t) + 2 * word_of_nat FS_BLOCK_SIZE \<and>
    card {j. j < unat (curr_fd_index t) \<and> fd_sector (Fs_fd t ! j) = curr_sector t} = 1"
proof -
  obtain n where g: "fs_ok mock_content mock_ok (crc32_calc (mock_hal crc)) v n s"
    using assms(1) by (auto simp: mock_fs_def)
  then have rel: "fs_rel crc n (mock_content (hw s)) s" by (simp add: fs_ok_def)
  have full: "n (cur s) = 128" "\<exists>k < 8. n k \<noteq> 128"
    using assms(4,5) full_iff [OF rel fs_rel_curr [OF rel]] all_full_iff [OF rel] by auto
  have key: "v (fd_key (reloc_fd s)) \<noteq> None"
    using mock.reloc_write(1) [OF g _ assms(3)] assms(2) by simp
  obtain m t where t: "n (unat m) = 0" "unat m < 8" "fs_thread (mock_hal crc) flag s = Some (PT_YIELDED, t)"
      "fs_ok mock_content mock_ok (crc32_calc (mock_hal crc)) v (n(unat m := 2)) t" "curr_sector t = m"
      "\<forall>j < nfd t. fd_sector (Fs_fd t ! j) = m \<longleftrightarrow> fd_key (Fs_fd t ! j) = fd_key (reloc_fd s)"
    by (rule mock.copy_crossing [OF g full assms(2,3) TrueI, where flag = flag])
  then have relt: "fs_rel crc (n(unat m := 2)) (mock_content (hw t)) t" "flash_vars crc (mock_content (hw t)) = v"
    by (simp_all add: fs_ok_def)
  then obtain i where i: "i < nfd t" "fd_key (Fs_fd t ! i) = fd_key (reloc_fd s)"
    using vars_None_iff [OF relt(1)] key by auto
  then have "{j. j < nfd t \<and> fd_sector (Fs_fd t ! j) = m} = {i}"
    using t(6) fs_rel_key_inj [OF relt(1)] by auto
  moreover have "curr_address t ! unat m = Sector_base ! unat m + 2 * word_of_nat FS_BLOCK_SIZE"
    using curr_address_nth [OF relt(1) t(2)] slot_addr_offset [OF t(2), of 2] by simp
  ultimately show ?thesis
    using t(1-5) blank_iff [OF rel t(2)] by (auto simp: mock_fs_def)
qed

text \<open>Seven full sectors, the last of them active; the thread holds the variable of the first.\<close>

definition crossing :: "FlashMock Fs" where
  "crossing = (full_state 7 6)\<lparr>reloc_fd := busy_fd 0, reloc_buffer := many_block 0, reloc_sector := 0,
     reloc_fd_index := 0, Fs_pt := 596\<rparr>"

lemma crossing_rel: "fs_rel crc32_calc_stub (fill_of 896) (mock_content (busy_board 896)) crossing"
  using full_state_rel [of 7 6] by (simp add: crossing_def)

lemma crossing_ok: "mock_fs crc32_calc_stub (busy_vars 896) crossing"
proof -
  let ?img = "mock_content (busy_board 896)"
  note rel = crossing_rel
  have sel: "Fs_fd crossing ! 0 = busy_fd 0" "reloc_fd crossing = busy_fd 0" "ridx crossing = 0"
      "reloc_sector crossing = 0" "curr_sector crossing = 6" "Fs_pt crossing = 596" "nfd crossing = 7"
      "reloc_buffer crossing = many_block 0" "hw crossing = busy_board 896"
    by (simp_all add: crossing_def)
  have "flash_vars crc32_calc_stub ?img (fd_key (busy_fd 0)) = Some (data_of (?img (fd_slot (Fs_fd crossing ! 0))))"
    using vars_fd [OF rel, of 0] sel by simp
  then have "flash_vars crc32_calc_stub ?img (fd_key (busy_fd 0)) = Some (drop 4 (many_block 0))"
    by (simp add: sel busy_fd_def busy_content busy_block_def data_of_def)
  then have "buffered crc32_calc_stub ?img crossing" by (simp add: buffered_def sel)
  moreover have "picked crossing"
    using many_block_facts(1) [of 0] by (simp add: picked_def sel) (simp add: busy_fd_def)
  moreover have "reloc_target (fill_of 896) crossing" "moved crossing (ridx crossing)"
    by (simp_all add: reloc_target_def moved_def sel fill_of_def)
  ultimately have "th_inv crc32_calc_stub (fill_of 896) ?img crossing" by (simp add: th_inv_def sel)
  then have "fs_ok mock_content mock_ok crc32_calc_stub (busy_vars 896) (fill_of 896) crossing"
    using rel full_state_mock_ok [of 7] many_block_facts(1) [of 0] by (simp add: fs_ok_def sel busy_vars_def)
  then show ?thesis by (auto simp: mock_fs_def)
qed

theorem copied_twice_witness:
  "\<exists>t. fs_thread (mock_hal crc32_calc_stub) 0 crossing = Some (PT_YIELDED, t) \<and>
     card {j. j < nfd t \<and> fd_sector (Fs_fd t ! j) = curr_sector t} = 1 \<and>
     curr_address t ! cur t = Sector_base ! cur t + 64"
proof -
  have "SECTOR_IS_FULL crossing (unat (curr_sector crossing))" "\<not> all_full crossing"
    using full_iff [OF crossing_rel, of 6] all_full_iff [OF crossing_rel] spec [of _ "7::nat"]
    by (auto simp: crossing_def fill_of_full [of 7, simplified])
  then show ?thesis
    using copied_twice [OF crossing_ok, of 0] by (auto simp: crossing_def)
qed

end
