(* ===== verification/Exhaustion.thy ===== *)
theory Exhaustion
  imports Boards
begin

text \<open>
  \<open>fs_write\<close> of a new variable when all \<open>FD_MAX\<close> descriptors are in use: the case the
  refinement excludes. The block is on flash before the code looks for a descriptor, and the
  error return leaves the write pointer on it, so that the next write is programmed over it. The
  last section builds a full board: a flash image with 300 variables, from which a reboot starts.
\<close>

section \<open>The write without a descriptor\<close>

text \<open>
  What such a write leaves behind: nothing has changed in RAM, and on flash a sealed block of the
  variable lies where the write pointer still points.
\<close>

definition stray_block :: "(bytes \<Rightarrow> u32) \<Rightarrow> key \<Rightarrow> bytes \<Rightarrow> FlashMock Fs \<Rightarrow> FlashMock Fs \<Rightarrow> bool" where
  "stray_block crc key x s s' \<longleftrightarrow> s' = s\<lparr>hw := hw s'\<rparr> \<and> mock_ok (hw s') \<and>
     (\<exists>b. valid crc b \<and> key_of b = key \<and> data_of b = x \<and> length b = 32 \<and>
        mock_content (hw s') = (mock_content (hw s))(slot_of (curr_address s ! unat (curr_sector s)) := b))"

lemma head_slot_facts:
  assumes "fs_rel crc n img s" "n (cur s) < 128"
  shows "head_slot n s < 1024" "curr_address s ! cur s = slot_addr (head_slot n s)" "img (head_slot n s) = blank_block"
    "i < nfd s \<Longrightarrow> fd_slot (Fs_fd s ! i) \<noteq> head_slot n s"
proof -
  have c: "cur s < 8" using fs_rel_curr [OF assms(1)] .
  show "head_slot n s < 1024" "curr_address s ! cur s = slot_addr (head_slot n s)"
    using assms(2) c curr_address_nth [OF assms(1) c] by (auto simp: head_slot_def)
  show blank: "img (head_slot n s) = blank_block"
    using fs_rel_layout [OF assms(1)] assms(2) c by (auto simp: layout_def head_slot_def)
  show "fd_slot (Fs_fd s ! i) \<noteq> head_slot n s" if "i < nfd s"
    using fs_rel_fd [OF assms(1) that] blank hdr_blank_blank valid_not_blank by (auto simp: fd_ok_def)
qed

lemma write_without_fd:
  assumes upd: "updateSector (fs_thread (mock_hal crc)) s = Some (r, s1)" "\<not> r < 0"
    and g: "fs_ok mock_content mock_ok crc v n s1" and room: "n (cur s1) < 128"
    and len: "unat l \<le> 28" "unat l \<le> length d"
    and key: "v (Key name (ucast ext)) = None" and full: "card (dom v) = FD_MAX"
  shows "\<exists>s'. fs_write (mock_hal crc) name ext d l s = Some (-1, s') \<and>
    stray_block crc (Key name (ucast ext)) (stored d l) s1 s'"
proof -
  have o: "mock_ok (hw s1)" and rel: "fs_rel crc n (mock_content (hw s1)) s1"
    and v: "flash_vars crc (mock_content (hw s1)) = v"
    using g by (auto simp: fs_ok_def)
  obtain wb where wb: "fill_write_buffer name ext d (unat l) = Some wb" "length wb = 32"
      "key_of wb = Key name (ucast ext)" "data_of wb = stored d l"
    using fill_write_buffer_spec [OF len] by blast
  have n300: "nfd s1 = 300" using card_vars [OF rel] full v by simp
  define i where "i = fd_search (Fs_fd s1) (h_name (get_header wb)) (ucast (h_ext (get_header wb))) 0 (nfd s1)"
  have i: "i = nfd s1"
    using i_def
  proof (cases rule: fd_search_cases)
    case found
    then show ?thesis using wb(3) vars_fd [OF rel found(1)] key v by (simp add: key_of_def)
  qed simp
  define b where "b = updateBlockHash crc wb 32 FS_SIZE32 FS_BLOCK_NEWER"
  have b: "length b = 32" "valid crc b" "key_of b = Key name (ucast ext)" "data_of b = stored d l"
    using wb updateBlockHash_valid [OF wb(2)] by (simp_all add: b_def hdr_simps)
  let ?m = "head_slot n s1"
  note m = head_slot_facts [OF rel room]
  obtain w where w: "flash_put (mock_hal crc) (slot_addr ?m) b s1 = Some (s1\<lparr>hw := w\<rparr>)" "mock_ok w"
      "mock_content w = program_slot ?m b (mock_content (hw s1))"
    using mock.put_slot [OF o m(1), of b] b(1) by auto
  have search: "fd_search (Fs_fd s1) (h_name (get_header wb)) (ucast (h_ext (get_header wb))) 0 300 = 300"
    using i n300 unfolding i_def by simp
  have "updateBlockHash crc wb 32 1 1 = b" by (simp add: b_def)
  then have "fs_write (mock_hal crc) name ext d l s = Some (-1, s1\<lparr>hw := w\<rparr>)"
    using len(1) upd wb(1) n300 search w(1) m(2)
    by (simp add: fs_write_unfold fs_write_with_def mark_current_def invalidate_former_def commit_fd_def Let_def)
  moreover have "mock_content w = (mock_content (hw s1))(slot_of (curr_address s1 ! cur s1) := b)"
    using w(3) m(1-3) b(1) by (simp add: program_slot_def program_blank)
  ultimately show ?thesis using w(2) b by (auto simp: stray_block_def)
qed

text \<open>The nested call of \<open>fs_thread\<close>, when the sector is full, comes first and is a good one.\<close>

lemma write_mock_without_fd:
  assumes s: "mock_fs crc v s" and len: "unat l \<le> 28" "unat l \<le> length d"
    and fd: "\<not> has_fd s name ext" and room: "\<not> all_full s"
  shows "\<exists>s1 s'. fs_write (mock_hal crc) name ext d l s = Some (-1, s') \<and>
    mock_fs crc v s1 \<and> \<not> curr_full s1 \<and> (\<not> curr_full s \<longrightarrow> s1 = s) \<and>
    stray_block crc (Key name (ucast ext)) (stored d l) s1 s'"
proof -
  obtain n where g: "fs_ok mock_content mock_ok (crc32_calc (mock_hal crc)) v n s" using s by (auto simp: mock_fs_def)
  have key: "v (Key name (ucast ext)) = None" "card (dom v) = FD_MAX"
    using fd s card_vars fs_rel_nfd unfolding has_fd_iff [OF g] by (fastforce simp: mock_fs_def fs_ok_def)+
  have nfull: "\<not> (\<forall>k < 8. n k = 128)"
    using room g all_full_iff [of crc n "mock_content (hw s)" s] by (simp add: fs_ok_def)
  show ?thesis
  proof (rule mock.updateSector_ok [OF g TrueI], goal_cases)
    case 1
    then show ?case using nfull by blast
  next
    case (2 r n1 s1)
    have g1: "fs_ok mock_content mock_ok crc v n1 s1" using 2(3) by simp
    then have "\<not> curr_full s1" using 2(4) curr_full_iff [of crc n1 "mock_content (hw s1)" s1] by (simp add: fs_ok_def)
    moreover have "\<not> curr_full s \<longrightarrow> s1 = s" using 2(1) updateSector_not_full [of s "fs_thread (mock_hal crc)"] by auto
    ultimately show ?case
      using write_without_fd [OF 2(1,2) g1 2(4) len key] g1 unfolding mock_fs_def by blast
  qed
qed

text \<open>Such a state is outside the invariant, whatever the variables.\<close>

lemma stray_block_bad:
  assumes g: "fs_ok mock_content mock_ok crc v n s" and room: "n (cur s) < 128"
    and st: "stray_block crc key x s s'"
  shows "\<not> mock_fs crc v' s'"
proof
  assume "mock_fs crc v' s'"
  then obtain n' where rel': "fs_rel crc n' (mock_content (hw s')) s'" by (auto simp: mock_fs_def fs_ok_def)
  have rel: "fs_rel crc n (mock_content (hw s)) s" using g by (simp add: fs_ok_def)
  have c: "cur s < 8" using fs_rel_curr [OF rel] .
  note m = head_slot_facts [OF rel room]
  have st1: "s' = s\<lparr>hw := hw s'\<rparr>" using st by (simp add: stray_block_def)
  then have eq: "curr_address s' = curr_address s" by (metis Fs.ext_inject Fs.surjective Fs.update_convs(11))
  obtain b where b: "valid crc b" "mock_content (hw s') (head_slot n s) = b"
    using st m(1,2) by (auto simp: stray_block_def)
  have "slot_addr (128 * cur s + n' (cur s)) = slot_addr (128 * cur s + n (cur s))"
    using curr_address_nth [OF rel c] curr_address_nth [OF rel' c] eq by simp
  then have "n' (cur s) = n (cur s)"
    using fill_le [OF fs_rel_layout [OF rel'] c] room c by (simp add: slot_addr_inject)
  then have "mock_content (hw s') (head_slot n s) = blank_block"
    using fs_rel_layout [OF rel'] room c by (auto simp: layout_def head_slot_def)
  then show False using b valid_not_blank [of crc b] hdr_blank_blank by simp
qed

section \<open>The write after it\<close>

text \<open>
  The flags of a former block are changed on flash in one block that is not the one \<open>fs_write\<close> is
  about to program; the index keeps its keys and addresses.
\<close>

definition flags_changed :: "nat \<Rightarrow> FlashMock Fs \<Rightarrow> FlashMock Fs \<Rightarrow> bool" where
  "flags_changed i s s' \<longleftrightarrow> s' = s\<lparr>Fs_fd := Fs_fd s', hw := hw s'\<rparr> \<and> mock_ok (hw s') \<and>
     length (Fs_fd s') = length (Fs_fd s) \<and>
     (\<forall>j. fd_key (Fs_fd s' ! j) = fd_key (Fs_fd s ! j) \<and> fd_address (Fs_fd s' ! j) = fd_address (Fs_fd s ! j)) \<and>
     (\<forall>m. m \<noteq> fd_slot (Fs_fd s ! i) \<longrightarrow> mock_content (hw s') m = mock_content (hw s) m)"

lemma flags_changed_put:
  assumes o: "mock_ok (hw s)" and i: "i < length (Fs_fd s)"
    and d: "fd_address d = fd_address (Fs_fd s ! i)" "fd_key d = fd_key (Fs_fd s ! i)"
    and a: "fd_address (Fs_fd s ! i) = slot_addr (fd_slot (Fs_fd s ! i))" "fd_slot (Fs_fd s ! i) < 1024"
    and bs: "length bs \<le> 32"
  shows "\<exists>s'. flash_put (mock_hal crc) (fd_address d) bs (s\<lparr>Fs_fd := (Fs_fd s)[i := d]\<rparr>) = Some s' \<and> flags_changed i s s'"
proof -
  let ?s = "s\<lparr>Fs_fd := (Fs_fd s)[i := d]\<rparr>" and ?m = "fd_slot (Fs_fd s ! i)"
  obtain w where w: "flash_put (mock_hal crc) (slot_addr ?m) bs ?s = Some (?s\<lparr>hw := w\<rparr>)" "mock_ok w"
      "mock_content w = program_slot ?m bs (mock_content (hw ?s))"
    using mock.put_slot [of ?s ?m bs] o a(2) bs by auto
  then show ?thesis
    using d a(1) i by (intro exI [of _ "?s\<lparr>hw := w\<rparr>"])
      (auto simp: flags_changed_def program_slot_def nth_list_update)
qed

lemma flags_changed_trans: "flags_changed i s t \<Longrightarrow> flags_changed i t u \<Longrightarrow> flags_changed i s u"
  unfolding flags_changed_def by (cases s; cases t; cases u) simp

lemma mark_current_flags:
  assumes o: "mock_ok (hw s)" and i: "i < length (Fs_fd s)"
    and a: "fd_address (Fs_fd s ! i) = slot_addr (fd_slot (Fs_fd s ! i))" "fd_slot (Fs_fd s ! i) < 1024"
  shows "\<exists>s'. mark_current (mock_hal crc) i s = Some s' \<and> flags_changed i s s'"
proof (cases "i < nfd s \<and> h_newer (fd_header (Fs_fd s ! i)) = FS_BLOCK_NEWER")
  case True
  let ?d = "(Fs_fd s ! i)\<lparr>fd_header := (fd_header (Fs_fd s ! i))\<lparr>h_newer := 0\<rparr>\<rparr>"
  have "\<exists>s'. flash_put (mock_hal crc) (fd_address ?d) (header_bytes (fd_header ?d)) (s\<lparr>Fs_fd := (Fs_fd s)[i := ?d]\<rparr>) = Some s' \<and>
      flags_changed i s s'"
    by (rule flags_changed_put [OF o i _ _ a]) (simp_all add: hdr_simps)
  then show ?thesis using True by (simp add: mark_current_def Let_def)
next
  case False
  then have "mark_current (mock_hal crc) i s = Some s" by (auto simp: mark_current_def)
  moreover have "flags_changed i s s" using o by (simp add: flags_changed_def)
  ultimately show ?thesis by blast
qed

lemma invalidate_former_flags:
  assumes o: "mock_ok (hw s)" and i: "i < length (Fs_fd s)" "i < nfd s"
    and a: "fd_address (Fs_fd s ! i) = slot_addr (fd_slot (Fs_fd s ! i))" "fd_slot (Fs_fd s ! i) < 1024"
  shows "\<exists>s'. invalidate_former (mock_hal crc) i s = Some s' \<and> flags_changed i s s'"
proof -
  let ?d = "(Fs_fd s ! i)\<lparr>fd_header := (fd_header (Fs_fd s ! i))\<lparr>h_size := 0\<rparr>\<rparr>"
  have "\<exists>s'. flash_put (mock_hal crc) (fd_address ?d) (take 1 (header_bytes (fd_header ?d))) (s\<lparr>Fs_fd := (Fs_fd s)[i := ?d]\<rparr>) = Some s' \<and>
      flags_changed i s s'"
    by (rule flags_changed_put [OF o i(1) _ _ a]) (simp_all add: hdr_simps)
  then show ?thesis using i(2) by (simp add: invalidate_former_def Let_def)
qed

text \<open>Programming a block over another one leaves the bitwise conjunction of the two.\<close>

lemma program_map2: "length os = length ns \<Longrightarrow> program_bytes os ns = map2 (AND) os ns"
  by (induction os ns rule: program_bytes.induct) auto

lemma data_of_program:
  assumes "length b = 32" "length b' = 32"
  shows "data_of (program_bytes b b') = map2 (AND) (data_of b) (data_of b')"
  using assms by (simp add: program_map2 data_of_def drop_map drop_zip)

lemma data_of_program_flag:
  assumes "length b = 32" "length bs \<le> 4"
  shows "data_of (program_bytes b bs) = data_of b"
proof -
  have "drop k (program_bytes b bs) = drop k b" if "length bs \<le> k" for k
    using that by (induction b bs arbitrary: k rule: program_bytes.induct) (auto split: nat.splits simp: drop_Cons)
  then show ?thesis using assms(2) by (simp add: data_of_def)
qed

lemma flags_changedD:
  assumes "flags_changed i s s'"
  shows "mock_ok (hw s')" "curr_fd_index s' = curr_fd_index s" "curr_sector s' = curr_sector s"
    "curr_address s' = curr_address s" "length (Fs_fd s') = length (Fs_fd s)"
    "fd_key (Fs_fd s' ! j) = fd_key (Fs_fd s ! j)" "fd_address (Fs_fd s' ! j) = fd_address (Fs_fd s ! j)"
    "m \<noteq> fd_slot (Fs_fd s ! i) \<Longrightarrow> mock_content (hw s') m = mock_content (hw s) m"
proof -
  have "s' = s\<lparr>Fs_fd := Fs_fd s', hw := hw s'\<rparr>" using assms by (simp add: flags_changed_def)
  then show "curr_fd_index s' = curr_fd_index s" "curr_sector s' = curr_sector s" "curr_address s' = curr_address s"
    by (cases s; cases s'; simp)+
qed (use assms in \<open>simp_all add: flags_changed_def\<close>)

text \<open>
  \<open>fs_write\<close> of a variable that has a descriptor, where the block under the write pointer is not
  blank: the answer is 0 and the descriptor points at the mixture of the two blocks.
\<close>

definition mixed :: "nat \<Rightarrow> nat \<Rightarrow> bytes \<Rightarrow> FlashMock Fs \<Rightarrow> FlashMock Fs \<Rightarrow> bool" where
  "mixed m i x s s' \<longleftrightarrow> mock_ok (hw s') \<and> curr_fd_index s' = curr_fd_index s \<and>
     (\<forall>j. fd_key (Fs_fd s' ! j) = fd_key (Fs_fd s ! j)) \<and>
     fd_address (Fs_fd s' ! i) = slot_addr m \<and> data_of (mock_content (hw s') m) = x"

lemma append_over:
  assumes s: "mock_ok (hw s)" "i < length (Fs_fd s)" "i < nfd s" "length (Fs_fd s) = FD_MAX"
    and a: "fd_address (Fs_fd s ! i) = slot_addr (fd_slot (Fs_fd s ! i))" "fd_slot (Fs_fd s ! i) < 1024"
    and m: "m < 1024" "curr_address s ! cur s = slot_addr m" "fd_slot (Fs_fd s ! i) \<noteq> m"
    and b: "length b = 32" "hdr_key (get_header b) = fd_key (Fs_fd s ! i)"
  shows "\<exists>s'. do {
      s \<leftarrow> flash_put (mock_hal crc) (curr_address s ! cur s) b s;
      s \<leftarrow> invalidate_former (mock_hal crc) i s;
      commit_fd (mock_hal crc) i b s } = Some (0, s') \<and>
    mixed m i (map2 (AND) (data_of (mock_content (hw s) m)) (data_of b)) s s'"
proof -
  let ?old = "mock_content (hw s) m"
  have len: "length ?old = 32" using mock.content_length [OF s(1)] .
  obtain w where w: "flash_put (mock_hal crc) (slot_addr m) b s = Some (s\<lparr>hw := w\<rparr>)" "mock_ok w"
      "mock_content w = program_slot m b (mock_content (hw s))"
    using mock.put_slot [OF s(1) m(1), of b] b(1) by auto
  obtain t where t: "invalidate_former (mock_hal crc) i (s\<lparr>hw := w\<rparr>) = Some t" "flags_changed i (s\<lparr>hw := w\<rparr>) t"
    using invalidate_former_flags [of "s\<lparr>hw := w\<rparr>" i crc] w(2) s(2,3) a by auto
  note td = flags_changedD [OF t(2), simplified]
  define d where "d = \<lparr>fd_address = slot_addr m, fd_header = (get_header b)\<lparr>h_newer := 0\<rparr>, fd_sector = curr_sector s\<rparr>"
  let ?t = "t\<lparr>Fs_fd := (Fs_fd t)[i := d]\<rparr>" and ?bs = "take 1 (header_bytes (fd_header d))"
  obtain w' where w': "flash_put (mock_hal crc) (slot_addr m) ?bs ?t = Some (?t\<lparr>hw := w'\<rparr>)" "mock_ok w'"
      "mock_content w' = program_slot m ?bs (mock_content (hw ?t))"
    using mock.put_slot [of ?t m ?bs] td(1) m(1) by auto
  let ?u = "?t\<lparr>hw := w', curr_address := (curr_address t)[cur t := curr_address t ! cur t + 32]\<rparr>"
  have "i < FD_MAX" "i \<noteq> nfd s" using s(2-4) by simp_all
  then have "commit_fd (mock_hal crc) i b t = Some (0, ?u)"
    using w'(1) td m(2) by (simp add: commit_fd_def d_def Let_def)
  moreover have "data_of (mock_content w' m) = map2 (AND) (data_of ?old) (data_of b)"
    using w(3) w'(3) td(8) m(3) len b(1) by (simp add: program_slot_def data_of_program_flag data_of_program)
  then have "mixed m i (map2 (AND) (data_of ?old) (data_of b)) s ?u"
    using w'(2) td s(2) b(2) by (auto simp: mixed_def d_def nth_list_update hdr_simps)
  ultimately show ?thesis using w(1) t(1) m(2) by auto
qed

lemma write_over_stray:
  assumes g: "fs_ok mock_content mock_ok crc v n s" and room: "n (cur s) < 128"
    and st: "stray_block crc key x s s1"
    and len: "unat l \<le> 28" "unat l \<le> length d" and known: "v (Key name (ucast ext)) \<noteq> None"
  shows "\<exists>s2 i. fs_write (mock_hal crc) name ext d l s1 = Some (0, s2) \<and>
    i < nfd s \<and> fd_key (Fs_fd s ! i) = Key name (ucast ext) \<and>
    mixed (head_slot n s) i (map2 (AND) x (stored d l)) s s2"
proof -
  let ?m = "head_slot n s" and ?key = "Key name (ucast ext)"
  have rel: "fs_rel crc n (mock_content (hw s)) s" and v: "flash_vars crc (mock_content (hw s)) = v"
    using g by (auto simp: fs_ok_def)
  note m = head_slot_facts [OF rel room]
  obtain b where b: "length b = 32" "data_of b = x" "mock_content (hw s1) ?m = b" and o1: "mock_ok (hw s1)"
    using st m(1,2) by (auto simp: stray_block_def)
  have s1: "Fs_fd s1 = Fs_fd s" "curr_fd_index s1 = curr_fd_index s" "curr_address s1 = curr_address s"
      "curr_sector s1 = curr_sector s"
    using st unfolding stray_block_def by (cases s; cases s1; simp)+
  obtain wb where wb: "fill_write_buffer name ext d (unat l) = Some wb" "length wb = 32" "key_of wb = ?key"
      "data_of wb = stored d l"
    using fill_write_buffer_spec [OF len] by blast
  define i where "i = fd_search (Fs_fd s1) (h_name (get_header wb)) (ucast (h_ext (get_header wb))) 0 (nfd s1)"
  have "i < nfd s \<and> fd_key (Fs_fd s ! i) = ?key"
    using i_def
  proof (cases rule: fd_search_cases)
    case absent
    then have "\<forall>j < nfd s. fd_key (Fs_fd s ! j) \<noteq> ?key" using wb(3) by (simp add: s1 key_of_def)
    then show ?thesis using vars_None_iff [OF rel, of ?key] v known by simp
  qed (simp add: s1 wb(3) [unfolded key_of_def])
  then have i: "i < nfd s" "fd_key (Fs_fd s ! i) = ?key" by simp_all
  have a: "fd_address (Fs_fd s ! i) = slot_addr (fd_slot (Fs_fd s ! i))" "fd_slot (Fs_fd s ! i) < 1024"
    using fs_rel_fd [OF rel i(1)] by (simp_all add: fd_ok_def)
  have il: "i < length (Fs_fd s)" using i(1) fs_rel_length [OF rel] fs_rel_nfd [OF rel] by simp
  obtain s2 where s2: "mark_current (mock_hal crc) i s1 = Some s2" "flags_changed i s1 s2"
    using mark_current_flags [of s1 i crc] o1 a il by (auto simp: s1)
  note d2 = flags_changedD [OF s2(2), unfolded s1]
  define b2 where "b2 = updateBlockHash crc wb 32 FS_SIZE32 FS_BLOCK_NEWER"
  have b2: "length b2 = 32" "data_of b2 = stored d l" "key_of b2 = ?key"
    using wb by (simp_all add: b2_def hdr_simps)
  then have key2: "hdr_key (get_header b2) = ?key" by (simp add: key_of_def)
  have "\<exists>s'. do {
      s \<leftarrow> flash_put (mock_hal crc) (curr_address s2 ! cur s2) b2 s2;
      s \<leftarrow> invalidate_former (mock_hal crc) i s;
      commit_fd (mock_hal crc) i b2 s } = Some (0, s') \<and>
    mixed ?m i (map2 (AND) (data_of (mock_content (hw s2) ?m)) (data_of b2)) s2 s'"
    using a i il m fs_rel_length [OF rel] b2(1) key2 d2 by (intro append_over) simp_all
  moreover have "mock_content (hw s2) ?m = b" using d2(8) [of ?m] m(4) [OF i(1)] b(3) by simp
  ultimately obtain s' where s': "do {
      s \<leftarrow> flash_put (mock_hal crc) (curr_address s2 ! cur s2) b2 s2;
      s \<leftarrow> invalidate_former (mock_hal crc) i s;
      commit_fd (mock_hal crc) i b2 s } = Some (0, s')" "mixed ?m i (map2 (AND) x (stored d l)) s2 s'"
    using b(2) b2(2) by auto
  have "\<not> curr_full s1" using curr_full_iff [OF rel] room by (simp add: curr_full_def SECTOR_IS_FULL_def s1)
  then have upd: "updateSector (fs_thread (mock_hal crc)) s1 = Some (0, s1)" by (rule updateSector_not_full)
  have "updateBlockHash crc wb 32 1 1 = b2" by (simp add: b2_def)
  then have "fs_write (mock_hal crc) name ext d l s1 = Some (0, s')"
    using len(1) upd wb(1) s2(1) s'(1)
    by (simp add: fs_write_unfold fs_write_with_def i_def [symmetric])
  moreover have "mixed ?m i (map2 (AND) x (stored d l)) s s'" using s'(2) d2 by (simp add: mixed_def)
  ultimately show ?thesis using i by blast
qed

lemma mixed_read:
  assumes mx: "mixed m i x s s'" and m: "m < 1024" and x: "length x = 28"
    and i: "i < nfd s" "fd_key (Fs_fd s ! i) = Key name (ucast ext)" and ext: "unat ext < 8"
    and inj: "\<And>j. j < nfd s \<Longrightarrow> fd_key (Fs_fd s ! j) = fd_key (Fs_fd s ! i) \<Longrightarrow> j = i"
    and len: "unat l \<le> 28" "unat l \<le> length buf"
  shows "\<exists>t. fs_read (mock_hal crc) name ext buf l s' = Some (0, take (unat l) x @ drop (unat l) buf, t)"
proof -
  define h where "h = zero_header\<lparr>h_name := name, h_ext := ucast ext\<rparr>"
  define j where "j = fd_search (Fs_fd s') name ext 0 (nfd s')"
  have "j = fd_search (Fs_fd s') (h_name h) (ucast (h_ext h)) 0 (nfd s')" "hdr_key h = Key name (ucast ext)"
    using ext_small [OF ext] by (simp_all add: j_def h_def hdr_key_def)
  then have "j = i"
    using fd_search_cases [of j "Fs_fd s'" h "nfd s'"] mx i inj unfolding mixed_def by metis
  then have found: "fd_search (Fs_fd s') name ext 0 (nfd s') = i" by (simp add: j_def)
  have o: "mock_ok (hw s')" using mx by (simp add: mixed_def)
  have len32: "length (mock_content (hw s') m) = 32" by (rule mock.content_length [OF o])
  obtain w where w: "flash_wait (mock_hal crc) (hw s') = Some w" "mock_ok w" "mock_content w = mock_content (hw s')"
    using mock.wait_returns [OF o] by blast
  obtain w' where w': "flash_read (mock_hal crc) (slot_addr m) (replicate 32 0) w = (mock_content w m, w')"
    using mock.read_slot [OF w(2) m, of "replicate 32 0"] by auto
  show ?thesis
    using found i(1) mx w w' len x len32 by (simp add: fs_read_def mixed_def memcpy_def data_of_def Let_def) 
qed

section \<open>What is lost\<close>

text \<open>
  C28. All 300 descriptors in use and room on flash: writing a new variable answers \<open>-1\<close>, but
  the block has been programmed, valid and with the data, and the write pointer still points at
  it, so that the state is outside the invariant for any variables. The next write, of any
  variable that has a descriptor, is programmed over that block: it answers 0, and reading the
  variable back answers 0 too and returns the bitwise conjunction of the refused data and the
  data written.
\<close>

theorem fs_write_exhausted:
  assumes "mock_fs crc v s" "\<not> curr_full s" "card (dom v) = FD_MAX" "v (Key name (ucast ext)) = None"
    and "unat l \<le> 28" "unat l \<le> length d"
    and "v (Key name' (ucast ext')) \<noteq> None" "unat ext' < 8" "unat l' \<le> 28" "unat l' \<le> length d'"
    and "unat k \<le> 28" "unat k \<le> length buf"
  shows "\<exists>s1 s2 s3. fs_write (mock_hal crc) name ext d l s = Some (-1, s1) \<and>
    stray_block crc (Key name (ucast ext)) (stored d l) s s1 \<and> (\<forall>v'. \<not> mock_fs crc v' s1) \<and>
    fs_write (mock_hal crc) name' ext' d' l' s1 = Some (0, s2) \<and>
    fs_read (mock_hal crc) name' ext' buf k s2 =
      Some (0, take (unat k) (map2 (AND) (stored d l) (stored d' l')) @ drop (unat k) buf, s3)"
proof -
  obtain n where g: "fs_ok mock_content mock_ok crc v n s" using assms(1) by (auto simp: mock_fs_def)
  then have rel: "fs_rel crc n (mock_content (hw s)) s" by (simp add: fs_ok_def)
  have c: "cur s < 8" using fs_rel_curr [OF rel] .
  have room: "n (cur s) < 128"
    using assms(2) curr_full_iff [OF rel] fill_le [OF fs_rel_layout [OF rel] c] by simp
  let ?x = "map2 (AND) (stored d l) (stored d' l')"
  have len: "length ?x = 28" using assms(5,6,9,10) by (simp add: stored_def)
  obtain s1 where s1: "fs_write (mock_hal crc) name ext d l s = Some (-1, s1)"
      "stray_block crc (Key name (ucast ext)) (stored d l) s s1"
    using write_without_fd [OF updateSector_not_full [OF assms(2)] _ g room assms(5,6,4,3)] by auto
  obtain s2 i where s2: "fs_write (mock_hal crc) name' ext' d' l' s1 = Some (0, s2)"
      "i < nfd s" "fd_key (Fs_fd s ! i) = Key name' (ucast ext')" "mixed (head_slot n s) i ?x s s2"
    using write_over_stray [OF g room s1(2) assms(9,10,7)] by blast
  obtain s3 where s3: "fs_read (mock_hal crc) name' ext' buf k s2 =
      Some (0, take (unat k) ?x @ drop (unat k) buf, s3)"
    using mixed_read [OF s2(4) head_slot_facts(1) [OF rel room] len s2(2,3) assms(8) _ assms(11,12)]
      fs_rel_key_inj [OF rel] s2(2) by blast
  show ?thesis using s1 s2(1) s3 stray_block_bad [OF g room s1(2)] by blast
qed

section \<open>A board with 300 variables\<close>

definition many_board :: FlashMock where
  "many_board = board many_block 300"

lemma many_content: "mock_content many_board m = (if m < 300 then many_block m else blank_block)"
  unfolding many_board_def by (rule board_content) (simp_all add: many_block_facts)

lemma many_ok: "mock_ok many_board"
  unfolding many_board_def by (rule board_ok) (simp_all add: many_block_facts)

lemma many_live: "live crc32_calc_stub (mock_content many_board) key m \<longleftrightarrow> m < 300 \<and> key = Key (word_of_nat m) 0"
  using many_block_facts(2,3) [of m] by (auto simp: live_def many_content)

definition many_vars :: "key \<Rightarrow> bytes option" where
  "many_vars = flash_vars crc32_calc_stub (mock_content many_board)"

lemma many_dom: "dom many_vars = (\<lambda>m. Key (word_of_nat m) 0) ` {..<300}"
proof (rule set_eqI)
  fix key
  have "key \<in> dom many_vars \<longleftrightarrow> (\<exists>m < 1024. live crc32_calc_stub (mock_content many_board) key m)"
    unfolding many_vars_def domIff flash_vars_None by simp
  also have "\<dots> \<longleftrightarrow> (\<exists>m < 300. key = Key (word_of_nat m) 0)"
    unfolding many_live by (rule iffI; erule exE) (blast, rule_tac x = m in exI, auto)
  finally show "key \<in> dom many_vars \<longleftrightarrow> key \<in> (\<lambda>m. Key (word_of_nat m) 0) ` {..<300}" by auto
qed

lemma many_card: "card (dom many_vars) = 300"
proof -
  have "inj_on (\<lambda>m. Key (word_of_nat m) 0) {..<300}" using name_inj by (auto intro!: inj_onI)
  then show ?thesis by (simp add: many_dom card_image)
qed

lemma many_layout: "layout (mock_content many_board) (fill_of 300)" "ring (fill_of 300) 2"
proof -
  have "\<not> hdr_blank (many_block m)" for m using many_block_facts(2) valid_not_blank by blast
  then show "layout (mock_content many_board) (fill_of 300)"
    unfolding many_board_def by (intro board_layout) (simp_all add: many_block_facts)
  show "ring (fill_of 300) 2" by (auto simp: ring_def fill_of_def)
qed

lemma many_image: "image_ok crc32_calc_stub (mock_content many_board)"
proof -
  have "pairs crc32_calc_stub (mock_content many_board)"
    using name_inj by (intro pairsI) (auto simp: many_live)
  then show ?thesis
    using many_layout many_card by (auto simp: image_ok_def many_vars_def)
qed

lemma many_absent: "many_vars (Key 0x1234 (ucast (0 :: u8))) = None"
proof -
  have "Key 0x1234 (ucast (0 :: u8)) \<notin> dom many_vars"
  proof
    assume "Key 0x1234 (ucast (0 :: u8)) \<in> dom many_vars"
    then obtain m where m: "m < 300" "(0x1234 :: u16) = word_of_nat m"
      unfolding many_dom by (auto simp del: of_nat_numeral)
    have "unat (0x1234 :: u16) = m" unfolding m(2) using m(1) by (simp add: unat_of_nat)
    then show False using m(1) by simp
  qed
  then show ?thesis by (simp add: domIff)
qed

lemma many_boot:
  obtains s where "boot (mock_hal crc32_calc_stub) many_board = Some s"
    "mock_fs crc32_calc_stub many_vars s" "\<not> curr_full s" "\<not> all_full s" "\<not> has_fd s 0x1234 0"
proof -
  obtain s where s: "boot (mock_hal crc32_calc_stub) many_board = Some s"
      "fs_ok mock_content mock_ok crc32_calc_stub many_vars (fill_of 300) s"
    using mock.boot_fill [OF many_ok, of crc32_calc_stub many_vars "fill_of 300" 2] many_image many_layout
    by (auto simp: many_vars_def)
  then have rel: "fs_rel crc32_calc_stub (fill_of 300) (mock_content (hw s)) s" by (simp add: fs_ok_def)
  then have c: "cur s < 8" "cur s \<noteq> 2 \<longrightarrow> (fill_of 300) 2 = 0 \<or> (fill_of 300) 2 = 128"
    using fs_rel_ring [OF rel] by (auto simp: ring_def)
  then have "\<not> curr_full s" using curr_full_iff [OF rel] by (auto simp: fill_of_def)
  moreover have "\<not> all_full s" using all_full_iff [OF rel] by (auto simp: fill_of_def intro: exI [of _ 7])
  moreover have "\<not> has_fd s 0x1234 0" using has_fd_iff [OF s(2)] many_absent many_card by simp
  ultimately show thesis using that s by (auto simp: mock_fs_def)
qed

theorem fs_write_exhausted_witness:
  "\<exists>s s1 s2 s3. boot (mock_hal crc32_calc_stub) many_board = Some s \<and> mock_fs crc32_calc_stub many_vars s \<and>
     fs_write (mock_hal crc32_calc_stub) 0x1234 0 [1, 2, 3] 3 s = Some (-1, s1) \<and>
     fs_write (mock_hal crc32_calc_stub) 5 0 [0xFF, 0xFF, 0xFE, 7] 4 s1 = Some (0, s2) \<and>
     fs_read (mock_hal crc32_calc_stub) 5 0 [9, 9, 9, 9, 9] 4 s2 = Some (0, [1, 2, 2, 0, 9], s3)"
proof -
  obtain s where s: "boot (mock_hal crc32_calc_stub) many_board = Some s"
      "mock_fs crc32_calc_stub many_vars s" "\<not> curr_full s"
    by (rule many_boot)
  have "Key 5 (ucast (0 :: u8)) \<in> dom many_vars"
    unfolding many_dom by (rule image_eqI [of _ _ 5]) simp_all
  then have known: "many_vars (Key 5 (ucast (0 :: u8))) \<noteq> None" by (simp add: domIff)
  have mix: "map2 (AND) (stored [1, 2, 3] 3) (stored [0xFF, 0xFF, 0xFE, 7] 4) = [1, 2, 2] @ replicate 25 0"
    by code_simp
  show ?thesis
    using s fs_write_exhausted [OF s(2,3) many_card [folded FD_MAX_def] many_absent _ _ known,
      of 3 "[1, 2, 3]" 4 "[0xFF, 0xFF, 0xFE, 7]" 4 "[9, 9, 9, 9, 9]"] mix by auto
qed

end
