(* ===== verification/SecondInit.thy ===== *)
theory SecondInit
  imports FileSystem
begin

text \<open>
  \<open>fs_init\<close> called on a running system, without a power cycle. It does not reset
  \<open>Fs.curr.fd_index\<close>, so the scan finds every valid block in the index already, as a duplicate
  of itself: no header is newer than its own copy, the third branch of the duplicate check is
  taken, and the block is invalidated on flash while the descriptor stays.
\<close>

section \<open>What the scan leaves\<close>

definition cleared :: "(bytes \<Rightarrow> u32) \<Rightarrow> nat \<Rightarrow> image \<Rightarrow> image" where
  "cleared crc p img = (\<lambda>m. if m < p \<and> valid crc (img m)
     then put_header ((get_header (img m))\<lparr>h_size := FS_SIZEINVALID\<rparr>) (img m) else img m)"

lemma cleared_zero: "cleared crc 0 img = img"
  by (simp add: cleared_def)

lemma cleared_from: "p \<le> m \<Longrightarrow> cleared crc p img m = img m"
  by (simp add: cleared_def)

lemma cleared_drop: "valid crc (img p) \<Longrightarrow> cleared crc (Suc p) img = dropped p (cleared crc p img)"
  by (auto simp: cleared_def dropped_def less_Suc_eq fun_eq_iff)

lemma cleared_skip:
  assumes "p \<le> q" "\<And>m. p \<le> m \<Longrightarrow> m < q \<Longrightarrow> \<not> valid crc (img m)"
  shows "cleared crc q img = cleared crc p img"
proof
  fix m
  show "cleared crc q img m = cleared crc p img m"
    using assms(1) assms(2) [of m] by (cases "m < p") (auto simp: cleared_def)
qed

lemma cleared_data: "drop 4 (cleared crc p img m) = drop 4 (img m)"
  by (simp add: cleared_def drop_put_header)

lemma cleared_valid: "valid crc (cleared crc p img m) \<longleftrightarrow> p \<le> m \<and> valid crc (img m)"
  by (auto simp: cleared_def invalid_size)

lemma cleared_image:
  assumes lay: "layout img n" and ring: "ring n c"
  shows "image_ok crc (cleared crc 1024 img)" "flash_vars crc (cleared crc 1024 img) = Map.empty"
proof -
  have none: "\<not> live crc (cleared crc 1024 img) key m" for key m
    using valid_lt [OF lay, of crc m] by (auto simp: live_def cleared_valid)
  then show v: "flash_vars crc (cleared crc 1024 img) = Map.empty"
    by (intro ext) (simp add: flash_vars_None)
  have "length (cleared crc 1024 img m) = 32" for m
    using layout_length [OF lay, of m] by (simp add: cleared_def)
  moreover have "hdr_blank (cleared crc 1024 img m) = hdr_blank (img m)" for m
    using valid_not_blank [of crc "img m"] by (auto simp: cleared_def not_blank_size)
  moreover have "img m = blank_block \<Longrightarrow> cleared crc 1024 img m = blank_block" for m
    by (simp add: cleared_def not_valid_blank)
  ultimately have "layout (cleared crc 1024 img) n"
    using lay unfolding layout_def by metis
  then show "image_ok crc (cleared crc 1024 img)"
    using ring none v by (auto simp: image_ok_def pairs_def)
qed

section \<open>The scan\<close>

text \<open>Before slot \<open>p\<close>, with the index of state \<open>s0\<close>.\<close>

definition rescan :: "('w \<Rightarrow> image) \<Rightarrow> ('w \<Rightarrow> bool) \<Rightarrow> (bytes \<Rightarrow> u32) \<Rightarrow> 'w Fs \<Rightarrow> nat \<Rightarrow> 'w Fs \<Rightarrow> bool" where
  "rescan content ok crc s0 p s \<longleftrightarrow> ok (hw s) \<and> content (hw s) = cleared crc p (content (hw s0)) \<and>
     Fs_fd s = Fs_fd s0 \<and> curr_fd_index s = curr_fd_index s0"

lemma rescan_frame [simp]:
  "rescan content ok crc s0 p (s\<lparr>curr_sector := k\<rparr>) = rescan content ok crc s0 p s"
  "rescan content ok crc s0 p (s\<lparr>curr_address := a\<rparr>) = rescan content ok crc s0 p s"
  by (simp_all add: rescan_def)

context plain_device
begin

text \<open>A valid block meets its own descriptor.\<close>

lemma rescan_valid:
  assumes rel: "fs_rel (crc32_calc H) n (content (hw s0)) s0"
    and s: "rescan content ok (crc32_calc H) s0 p s"
    and p: "p < 1024" "valid (crc32_calc H) (content (hw s0) p)" and b: "b = content (hw s0) p"
  shows "\<exists>b' s'. initFd_valid H k (slot_addr p) b s = Some (True, b', s') \<and> length b' = length b \<and>
    rescan content ok (crc32_calc H) s0 (Suc p) s'"
proof -
  let ?img = "content (hw s0)"
  have st: "ok (hw s)" "content (hw s) = cleared (crc32_calc H) p ?img" "Fs_fd s = Fs_fd s0"
      "curr_fd_index s = curr_fd_index s0"
    using s by (auto simp: rescan_def)
  obtain j where j: "j < nfd s0" "fd_slot (Fs_fd s0 ! j) = p" using fs_rel_owner [OF rel p(2)] by blast
  have hdr: "get_header b = fd_header (Fs_fd s0 ! j)"
    using fs_rel_fd [OF rel j(1)] j(2) b by (simp add: fd_ok_def)
  define i where "i = fd_search (Fs_fd s) (h_name (get_header b)) (ucast (h_ext (get_header b))) 0 (nfd s)"
  have i: "i = j" "i < nfd s"
  proof (atomize (full), use i_def in \<open>cases rule: fd_search_cases\<close>)
    case found
    then show "i = j \<and> i < nfd s" using fs_rel_key_inj [OF rel _ j(1), of i] hdr st by simp
  next
    case absent
    then show "i = j \<and> i < nfd s" using j(1) hdr st by auto
  qed
  have here: "content (hw s) p = b" using st(2) b by (simp add: cleared_from)
  obtain w where w: "flash_put H (slot_addr p) (header_bytes ((get_header b)\<lparr>h_size := 0\<rparr>)) s
      = Some (s\<lparr>hw := w\<rparr>)" "ok w" "content w = dropped p (content (hw s))"
    using put_dropped [OF st(1) p(1), of "get_header b"] here by auto
  let ?b = "put_header ((get_header b)\<lparr>h_size := 0\<rparr>) b"
  have "take 4 ?b = header_bytes ((get_header b)\<lparr>h_size := 0\<rparr>)" by (simp add: put_header_def)
  then have "initFd_valid H k (slot_addr p) b s = Some (True, ?b, s\<lparr>hw := w\<rparr>)"
    using i w(1) hdr st(3) i_def
    by (cases "h_newer (fd_header (Fs_fd s0 ! j)) = 0") (simp_all add: initFd_valid_def initFd_duplicate_def Let_def)
  moreover have "length ?b = length b" using content_length [OF st(1), of p] here by simp
  ultimately show ?thesis using w(2,3) st cleared_drop [where img = "?img", OF p(2)] by (auto simp: rescan_def)
qed

lemma rescan_loop_end:
  assumes rel: "fs_rel (crc32_calc H) n (content (hw s0)) s0"
    and s: "rescan content ok (crc32_calc H) s0 (128 * k + n k) s" and k: "k < 8" and b: "length b = 32"
  shows "\<exists>r s'. initFd_loop H (word_of_nat k) (slot_addr (128 * k + n k)) b s = Some (r, s') \<and>
    rescan content ok (crc32_calc H) s0 (128 * Suc k) s'"
proof -
  let ?m = "128 * k + n k" and ?img = "content (hw s0)"
  have lay: "layout ?img n" using fs_rel_layout [OF rel] .
  have uk: "unat (word_of_nat k :: u8) = k" using k by (simp add: unat_of_nat)
  show ?thesis
  proof (cases "n k = 128")
    case True
    then have "\<not> slot_addr ?m < slot_addr (128 * k) + FILESYSTEM_SECTOR_SIZE"
      using k unfolding slot_addr_sector by simp
    then show ?thesis
      using s True k uk by (subst initFd_loop.simps) (simp add: Sector_base_slot add.commute [of 128])
  next
    case False
    then have lt: "n k < 128" using fill_le [OF lay k] by simp
    have o: "ok (hw s)" using s by (simp add: rescan_def)
    have m: "?m < 1024" "?m div 128 = k" "?m mod 128 = n k" using k lt by auto
    have "?img ?m = blank_block" using lay m by (auto simp: layout_def)
    then have blank: "content (hw s) ?m = blank_block" using s by (simp add: rescan_def cleared_from)
    obtain w where w: "flash_read H (slot_addr ?m) b (hw s) = (blank_block, w)" "ok w" "content w = content (hw s)"
      using read_slot [OF o m(1) b] blank by auto
    have "slot_addr ?m < slot_addr (128 * k) + FILESYSTEM_SECTOR_SIZE"
      using k lt unfolding slot_addr_sector by (simp add: slot_addr_less)
    moreover have "checkBlock (crc32_calc H) blank_block = (-1, blank_block)"
      using hdr_blank_blank by (simp add: checkBlock_def hdr_blank_def)
    moreover have "cleared (crc32_calc H) (128 * Suc k) ?img = cleared (crc32_calc H) ?m ?img"
      using lt layout_blank_rest [OF lay k] by (intro cleared_skip) auto
    ultimately show ?thesis
      using w s uk k by (subst initFd_loop.simps) (auto simp: Sector_base_slot rescan_def Let_def)
  qed
qed

lemma rescan_loop_step:
  assumes rel: "fs_rel (crc32_calc H) n (content (hw s0)) s0"
    and s: "rescan content ok (crc32_calc H) s0 (128 * k + j) s" and k: "k < 8" and j: "j < n k"
    and b: "length b = 32"
  shows "\<exists>b' s'. initFd_loop H (word_of_nat k) (slot_addr (128 * k + j)) b s =
      initFd_loop H (word_of_nat k) (slot_addr (128 * k + Suc j)) b' s' \<and> length b' = 32 \<and>
    rescan content ok (crc32_calc H) s0 (128 * k + Suc j) s'"
proof -
  let ?m = "128 * k + j" and ?img = "content (hw s0)"
  let ?b = "?img ?m" and ?s = "s\<lparr>curr_address := (curr_address s)[k := slot_addr ?m]\<rparr>"
  have lay: "layout ?img n" using fs_rel_layout [OF rel] .
  have o: "ok (hw s)" and here: "content (hw s) ?m = ?b" using s by (auto simp: rescan_def cleared_from)
  have m: "?m < 1024" "?m div 128 = k" "?m mod 128 = j" "j < 128" using k j fill_le [OF lay k] by auto
  obtain w where w: "flash_read H (slot_addr ?m) b (hw s) = (?b, w)" "ok w" "content w = content (hw s)"
    using read_slot [OF o m(1) b] here by auto
  have addr: "slot_addr ?m < slot_addr (128 * k) + FILESYSTEM_SECTOR_SIZE"
      "slot_addr ?m + word_of_nat FS_BLOCK_SIZE = slot_addr (128 * k + Suc j)"
    using k m(4) unfolding slot_addr_sector by (simp_all add: slot_addr_less slot_addr_next)
  define verdict where "verdict = fst (checkBlock (crc32_calc H) ?b)"
  have len: "length ?b = 32" using content_length [OF o, of ?m] here by simp
  then have chk: "checkBlock (crc32_calc H) ?b = (verdict, ?b)"
    using checkBlock_restores [of ?b "crc32_calc H"] by (simp add: prod_eq_iff verdict_def)
  have s1: "rescan content ok (crc32_calc H) s0 ?m (?s\<lparr>hw := w\<rparr>)" using s w(2,3) by (simp add: rescan_def)
  note unfold_loop = initFd_loop.simps [of H "word_of_nat k" "slot_addr ?m" b s]
  have uk: "unat (word_of_nat k :: u8) = k" using k by (simp add: unat_of_nat)
  note run = w(1) chk uk Sector_base_slot [OF k]
  show ?thesis
  proof (cases "valid (crc32_calc H) ?b")
    case True
    then have "verdict = 0" by (simp add: valid_def verdict_def)
    then show ?thesis
      using addr len rescan_valid [OF rel s1 m(1) True refl, of "word_of_nat k"] unfolding unfold_loop
      by (clarsimp simp: run Let_def) (intro exI conjI, rule refl, simp_all)
  next
    case False
    moreover have "\<not> hdr_blank ?b" using lay j m by (auto simp: layout_def)
    ultimately have "verdict \<noteq> 0" "verdict \<noteq> BLOCK_IS_BLANK"
      using checkBlock_blank_iff [of "crc32_calc H" ?b] by (auto simp: valid_def verdict_def)
    then have "initFd_loop H (word_of_nat k) (slot_addr ?m) b s =
        initFd_loop H (word_of_nat k) (slot_addr (128 * k + Suc j)) ?b (?s\<lparr>hw := w\<rparr>)"
      using addr unfolding unfold_loop by (simp add: run Let_def)
    moreover have "cleared (crc32_calc H) (Suc ?m) ?img = cleared (crc32_calc H) ?m ?img"
      using False by (intro cleared_skip) (auto simp: le_less_Suc_eq)
    ultimately show ?thesis
      using s1 len by (intro exI [of _ ?b] exI [of _ "?s\<lparr>hw := w\<rparr>"]) (simp add: rescan_def)
  qed
qed

lemma rescan_loop:
  assumes rel: "fs_rel (crc32_calc H) n (content (hw s0)) s0" and k: "k < 8"
    and "rescan content ok (crc32_calc H) s0 (128 * k + j) s" "j \<le> n k" "length b = 32"
  shows "\<exists>r s'. initFd_loop H (word_of_nat k) (slot_addr (128 * k + j)) b s = Some (r, s') \<and>
    rescan content ok (crc32_calc H) s0 (128 * Suc k) s'"
  using assms(3-5)
proof (induction "n k - j" arbitrary: j b s)
  case 0
  then show ?case using rescan_loop_end [OF rel _ k] by simp
next
  case (Suc d)
  then have "j < n k" by simp
  then obtain b' s' where s': "initFd_loop H (word_of_nat k) (slot_addr (128 * k + j)) b s =
      initFd_loop H (word_of_nat k) (slot_addr (128 * k + Suc j)) b' s'" "length b' = 32"
    "rescan content ok (crc32_calc H) s0 (128 * k + Suc j) s'"
    using rescan_loop_step [OF rel Suc.prems(1) k _ Suc.prems(3)] by blast
  show ?case unfolding s'(1) using Suc.hyps(2) s' by (intro Suc.hyps(1)) auto
qed

lemma rescan_sectors:
  assumes rel: "fs_rel (crc32_calc H) n (content (hw s0)) s0"
    and "rescan content ok (crc32_calc H) s0 (128 * k) s" "k \<le> 8"
  shows "\<exists>b' a' s'. fs_init_sectors H [k..<8] b a s = Some (b', a', s') \<and>
    rescan content ok (crc32_calc H) s0 1024 s'"
  using assms(2,3)
proof (induction "8 - k" arbitrary: k s a b)
  case 0
  then show ?case by simp
next
  case (Suc d)
  then have k: "k < 8" by simp
  have "rescan content ok (crc32_calc H) s0 (128 * k + 0) s" using Suc.prems(1) by simp
  then have "\<exists>r s'. initFd_loop H (word_of_nat k) (slot_addr (128 * k + 0)) (replicate 32 0) s = Some (r, s') \<and>
      rescan content ok (crc32_calc H) s0 (128 * Suc k) s'"
    by (rule rescan_loop [OF rel k]) simp_all
  then obtain r s' where s': "initFileDescriptors H (word_of_nat k) s = Some (r, s')"
      "rescan content ok (crc32_calc H) s0 (128 * Suc k) s'"
    using k by (auto simp: initFileDescriptors_def unat_of_nat Sector_base_slot)
  have hyp: "\<exists>b' a' t. fs_init_sectors H [Suc k..<8] b a s' = Some (b', a', t) \<and>
      rescan content ok (crc32_calc H) s0 1024 t" if "rescan content ok (crc32_calc H) s0 (128 * Suc k) s'" for b a s'
    using Suc.hyps(1) [of "Suc k" s' b a] Suc.hyps(2) that k by simp
  have "[k..<8] = k # [Suc k..<8]" using k by (simp add: upt_conv_Cons)
  then show ?case using s' hyp by (simp add: Let_def del: upt_rec_numeral)
qed

lemma second_init:
  assumes g: "good v n s"
  shows "\<exists>s'. fs_init H s = Some s' \<and> rescan content ok (crc32_calc H) s 1024 s'"
proof -
  have rel: "fs_rel (crc32_calc H) n (content (hw s)) s" and o: "ok (hw s)" using g by (auto simp: fs_ok_def)
  have "rescan content ok (crc32_calc H) s (128 * 0) s" using o by (simp add: rescan_def cleared_zero)
  then obtain b a s1 where s1: "fs_init_sectors H [0..<8] 0 False s = Some (b, a, s1)"
      "rescan content ok (crc32_calc H) s 1024 s1"
    using rescan_sectors [OF rel, of 0 s 0 False] by auto
  define s2 where "s2 = (if \<not> a then s1\<lparr>curr_sector := b\<rparr> else s1)"
  have s2: "rescan content ok (crc32_calc H) s 1024 s2" using s1(2) by (simp add: s2_def)
  obtain t w where t: "timer_set H (Fs_timer s2) (5 * CLOCK_SECOND) (hw s2) = (t, w)" "ok w" "content w = content (hw s2)"
    using timer_set_keeps [of "hw s2" "Fs_timer s2" "5 * CLOCK_SECOND"] s2
    by (cases "timer_set H (Fs_timer s2) (5 * CLOCK_SECOND) (hw s2)") (auto simp: rescan_def)
  have "fs_init H s = Some (s2\<lparr>Fs_timer := t, hw := w, Fs_pt := 0\<rparr>)"
    using s1(1) t(1) by (simp add: fs_init_def s2_def [symmetric] PT_INIT_def set_pt_def del: upt_rec_numeral)
  then show ?thesis using s2 t(2,3) by (simp add: rescan_def)
qed

text \<open>\<open>fs_read\<close> depends on the index and on the data of the blocks only, not on their headers.\<close>

lemma fs_read_same:
  assumes rel: "fs_rel (crc32_calc H) n (content (hw s)) s" and o: "ok (hw s)" "ok (hw s')"
    and eq: "Fs_fd s' = Fs_fd s" "curr_fd_index s' = curr_fd_index s"
      "\<And>m. drop 4 (content (hw s') m) = drop 4 (content (hw s) m)"
  shows "map_option (\<lambda>(r, out, _). (r, out)) (fs_read H name ext buf l s') =
    map_option (\<lambda>(r, out, _). (r, out)) (fs_read H name ext buf l s)"
proof -
  define i where "i = fd_search (Fs_fd s) name ext 0 (nfd s)"
  have reads: "map_option (\<lambda>(r, out, _). (r, out)) (fs_read H name ext buf l t) =
      map_option (Pair 0) (memcpy buf (drop 4 (content (hw s) (fd_slot (Fs_fd s ! i)))) (unat l))"
    if i: "i < nfd s" and t: "ok (hw t)" "Fs_fd t = Fs_fd s" "curr_fd_index t = curr_fd_index s"
      "\<And>m. drop 4 (content (hw t) m) = drop 4 (content (hw s) m)" for t
  proof -
    let ?m = "fd_slot (Fs_fd s ! i)"
    have m: "?m < 1024" "fd_address (Fs_fd s ! i) = slot_addr ?m"
      using fs_rel_fd [OF rel i] by (auto simp: fd_ok_def)
    obtain w where w: "flash_wait H (hw t) = Some w" "ok w" "content w = content (hw t)"
      using wait_returns [OF t(1)] by blast
    obtain w' where w': "flash_read H (slot_addr ?m) (replicate 32 0) w = (content w ?m, w')"
      using read_slot [OF w(2) m(1), of "replicate 32 0"] by auto
    show ?thesis
      using i t w(1,3) w' m(2) by (simp add: fs_read_def i_def [symmetric] option.map_comp comp_def Let_def)
        (cases "memcpy buf (drop 4 (content (hw s) ?m)) (unat l)"; simp)
  qed
  show ?thesis
  proof (cases "i < nfd s")
    case True
    then show ?thesis using reads [OF True o(1)] reads [OF True o(2) eq] by simp
  next
    case False
    then show ?thesis using eq by (simp add: fs_read_def i_def [symmetric])
  qed
qed

end

section \<open>On the mocked board\<close>

lemma second_init_mock:
  assumes "mock_fs crc v s"
  shows "\<exists>s'. fs_init (mock_hal crc) s = Some s' \<and> mock_ok (hw s') \<and>
    mock_content (hw s') = cleared crc 1024 (mock_content (hw s)) \<and> image_ok crc (mock_content (hw s')) \<and>
    flash_vars crc (mock_content (hw s')) = Map.empty \<and>
    (\<forall>name ext buf l. map_option (\<lambda>(r, out, _). (r, out)) (fs_read (mock_hal crc) name ext buf l s') =
       map_option (\<lambda>(r, out, _). (r, out)) (fs_read (mock_hal crc) name ext buf l s))"
proof -
  obtain n where g: "fs_ok mock_content mock_ok (crc32_calc (mock_hal crc)) v n s"
    using assms by (auto simp: mock_fs_def)
  then have rel: "fs_rel (crc32_calc (mock_hal crc)) n (mock_content (hw s)) s" "mock_ok (hw s)"
    by (auto simp: fs_ok_def)
  obtain s' where s': "fs_init (mock_hal crc) s = Some s'" "rescan mock_content mock_ok crc s 1024 s'"
    using mock.second_init [OF g] by auto
  then have c: "mock_ok (hw s')" "mock_content (hw s') = cleared crc 1024 (mock_content (hw s))"
      "Fs_fd s' = Fs_fd s" "curr_fd_index s' = curr_fd_index s"
    by (simp_all add: rescan_def)
  show ?thesis
    using s'(1) c cleared_image [OF fs_rel_layout [OF rel(1)] fs_rel_ring [OF rel(1)]]
      mock.fs_read_same [OF rel(1,2) c(1,3,4)] by (simp add: cleared_data)
qed

end
