(* ===== verification/PtSem.thy ===== *)
theory PtSem
  imports Protothreads
begin

text \<open>
  The counting semaphores of \<open>pt-1.4/pt-sem.h\<close>. A semaphore is a field of the program's
  state: the macros take its selector and its update. The counter is an \<open>unsigned int\<close>, so
  a signal on the largest value wraps to 0.
\<close>

record pt_sem =
  sem_count :: u32

type_synonym 's get_sem = "'s \<Rightarrow> pt_sem"
type_synonym 's upd_sem = "(pt_sem \<Rightarrow> pt_sem) \<Rightarrow> 's \<Rightarrow> 's"

definition PT_SEM_INIT :: "'s upd_sem \<Rightarrow> u32 \<Rightarrow> 's \<Rightarrow> 's" where
  "PT_SEM_INIT upd c s = upd (\<lambda>m. m\<lparr>sem_count := c\<rparr>) s"

definition PT_SEM_WAIT ::
    "'s set_lc \<Rightarrow> lc_t \<Rightarrow> 's get_sem \<Rightarrow> 's upd_sem \<Rightarrow> 's thread \<Rightarrow> 's thread" where
  "PT_SEM_WAIT set_lc line sem upd k =
     PT_WAIT_UNTIL set_lc line (\<lambda>s. Some (sem_count (sem s) > 0, s))
       (\<lambda>s. k (upd (\<lambda>m. m\<lparr>sem_count := sem_count m - 1\<rparr>) s))"

definition PT_SEM_SIGNAL :: "'s upd_sem \<Rightarrow> 's \<Rightarrow> 's" where
  "PT_SEM_SIGNAL upd s = upd (\<lambda>m. m\<lparr>sem_count := sem_count m + 1\<rparr>) s"

lemma PT_SEM_WAIT_block:
  "sem_count (sem (set_lc line s)) = 0 \<Longrightarrow>
   PT_SEM_WAIT set_lc line sem upd k s = Some (PT_WAITING, set_lc line s)"
  by (simp add: PT_SEM_WAIT_def pt_defs)

lemma PT_SEM_WAIT_pass:
  "sem_count (sem (set_lc line s)) \<noteq> 0 \<Longrightarrow>
   PT_SEM_WAIT set_lc line sem upd k s
     = k (upd (\<lambda>m. m\<lparr>sem_count := sem_count m - 1\<rparr>) (set_lc line s))"
  by (simp add: PT_SEM_WAIT_def pt_defs word_neq_0_conv)

text \<open>The code after the wait only runs in the state the wait leaves.\<close>

lemma PT_SEM_WAIT_cong [fundef_cong]:
  assumes "s = s'"
    and "\<And>t. t = upd (\<lambda>m. m\<lparr>sem_count := sem_count m - 1\<rparr>) (set_lc line s') \<Longrightarrow> k t = k' t"
  shows "PT_SEM_WAIT set_lc line sem upd k s = PT_SEM_WAIT set_lc line sem upd k' s'"
  using assms by (simp add: PT_SEM_WAIT_def pt_defs)

lemmas sem_simps = PT_SEM_INIT_def PT_SEM_SIGNAL_def PT_SEM_WAIT_block PT_SEM_WAIT_pass

end
