(* ===== verification/BufferExample.thy ===== *)
theory BufferExample
  imports PtSem
begin

text \<open>
  The producer and the consumer of \<open>pt-1.4/example-buffer.c\<close>, its driver and its main
  loop. The file's static variables are one record; the lines it prints are the list
  \<open>out\<close>. An \<open>int\<close> that would pass its maximum, and an index outside the buffer, are
  undefined in C and give \<open>None\<close>.
\<close>

section \<open>State\<close>

datatype printed =
    Item_added int nat
  | Item_retrieved int nat
  | Item_produced int
  | Item_consumed int

definition NUM_ITEMS :: nat where [simp]: "NUM_ITEMS = 32"
definition BUFSIZE :: nat where [simp]: "BUFSIZE = 8"
definition INT_MAX :: int where [simp]: "INT_MAX = 2147483647"

record bb =
  buffer :: "int list"
  bufptr :: nat
  item :: int
  full :: pt_sem
  empty :: pt_sem
  produced :: nat
  consumed :: nat
  pt_producer :: lc_t
  pt_consumer :: lc_t
  pt_driver :: lc_t
  out :: "printed list"

abbreviation set_producer :: "bb set_lc" where "set_producer l \<equiv> pt_producer_update (\<lambda>_. l)"
abbreviation set_consumer :: "bb set_lc" where "set_consumer l \<equiv> pt_consumer_update (\<lambda>_. l)"
abbreviation set_driver :: "bb set_lc" where "set_driver l \<equiv> pt_driver_update (\<lambda>_. l)"

definition bb_zero :: bb where
  "bb_zero = \<lparr>buffer = replicate BUFSIZE 0, bufptr = 0, item = 0,
     full = \<lparr>sem_count = 0\<rparr>, empty = \<lparr>sem_count = 0\<rparr>, produced = 0, consumed = 0,
     pt_producer = 0, pt_consumer = 0, pt_driver = 0, out = []\<rparr>"

definition print :: "printed \<Rightarrow> bb \<Rightarrow> bb" where
  "print e s = s\<lparr>out := out s @ [e]\<rparr>"

section \<open>The buffer\<close>

definition add_to_buffer :: "int \<Rightarrow> bb \<Rightarrow> bb option" where
  "add_to_buffer x s =
     (let s = print (Item_added x (bufptr s)) s in
      if bufptr s < length (buffer s)
      then Some (s\<lparr>buffer := (buffer s)[bufptr s := x], bufptr := (bufptr s + 1) mod BUFSIZE\<rparr>)
      else None)"

definition get_from_buffer :: "bb \<Rightarrow> (int \<times> bb) option" where
  "get_from_buffer s =
     (if bufptr s < length (buffer s)
      then let x = buffer s ! bufptr s; s = print (Item_retrieved x (bufptr s)) s
           in Some (x, s\<lparr>bufptr := (bufptr s + 1) mod BUFSIZE\<rparr>)
      else None)"

definition produce_item :: "bb \<Rightarrow> (int \<times> bb) option" where
  "produce_item s =
     (let s = print (Item_produced (item s)) s
      in if item s < INT_MAX then Some (item s, s\<lparr>item := item s + 1\<rparr>) else None)"

definition consume_item :: "int \<Rightarrow> bb \<Rightarrow> bb" where
  "consume_item x s = print (Item_consumed x) s"

section \<open>The protothreads\<close>

text \<open>
  One round of the \<open>for\<close> loop from the wait at its head to the increment; \<open>next\<close> is the
  test of the loop. Resuming a protothread enters its loop at the wait.
\<close>

definition producer_body :: "bb thread \<Rightarrow> bb thread" where
  "producer_body next = PT_SEM_WAIT set_producer 94 full full_update (\<lambda>s. do {
     (x, s) \<leftarrow> produce_item s;
     s \<leftarrow> add_to_buffer x s;
     next ((PT_SEM_SIGNAL empty_update s)\<lparr>produced := produced s + 1\<rparr>)
   })"

definition consumer_body :: "bb thread \<Rightarrow> bb thread" where
  "consumer_body next = PT_SEM_WAIT set_consumer 113 empty empty_update (\<lambda>s. do {
     (x, s) \<leftarrow> get_from_buffer s;
     let s = consume_item x s;
     next ((PT_SEM_SIGNAL full_update s)\<lparr>consumed := consumed s + 1\<rparr>)
   })"

lemma add_to_buffer_produced:
  "add_to_buffer x s = Some t \<Longrightarrow> produced t = produced s"
  by (auto simp: add_to_buffer_def print_def Let_def split: if_splits)

lemma produce_item_produced:
  "produce_item s = Some (x, t) \<Longrightarrow> produced t = produced s"
  by (auto simp: produce_item_def print_def Let_def split: if_splits)

lemma get_from_buffer_consumed:
  "get_from_buffer s = Some (x, t) \<Longrightarrow> consumed t = consumed s"
  by (auto simp: get_from_buffer_def print_def Let_def split: if_splits)

lemma producer_body_cong [fundef_cong]:
  assumes "s = s'" and "\<And>t. produced t = produced s' + 1 \<Longrightarrow> next t = next' t"
  shows "producer_body next s = producer_body next' s'"
  using assms
  by (auto simp: producer_body_def PT_SEM_SIGNAL_def intro!: PT_SEM_WAIT_cong bind_option_cong
      dest!: add_to_buffer_produced produce_item_produced)

lemma consumer_body_cong [fundef_cong]:
  assumes "s = s'" and "\<And>t. consumed t = consumed s' + 1 \<Longrightarrow> next t = next' t"
  shows "consumer_body next s = consumer_body next' s'"
  using assms
  by (auto simp: consumer_body_def PT_SEM_SIGNAL_def consume_item_def print_def Let_def
      intro!: PT_SEM_WAIT_cong bind_option_cong dest!: get_from_buffer_consumed)

function producer_for :: "bb thread" where
  "producer_for s =
     (if produced s < NUM_ITEMS then producer_body producer_for s else PT_END set_producer s)"
  by pat_completeness auto
termination by (relation "measure (\<lambda>s. NUM_ITEMS - produced s)") auto

function consumer_for :: "bb thread" where
  "consumer_for s =
     (if consumed s < NUM_ITEMS then consumer_body consumer_for s else PT_END set_consumer s)"
  by pat_completeness auto
termination by (relation "measure (\<lambda>s. NUM_ITEMS - consumed s)") auto

declare producer_for.simps [simp del] consumer_for.simps [simp del]

definition producer :: "bb thread" where
  "producer s =
     (if pt_producer s = 0 then producer_for (s\<lparr>produced := 0\<rparr>)
      else if pt_producer s = 94 then producer_body producer_for s
      else PT_END set_producer s)"

definition consumer :: "bb thread" where
  "consumer s =
     (if pt_consumer s = 0 then consumer_for (s\<lparr>consumed := 0\<rparr>)
      else if pt_consumer s = 113 then consumer_body consumer_for s
      else PT_END set_consumer s)"

text \<open>
  \<open>producer (&pt_producer) & consumer (&pt_consumer)\<close>: both operands are called and their
  codes combined bit by bit. C does not say in which order; \<open>l2r\<close> is the compiler's choice.
\<close>

definition both_threads :: "bool \<Rightarrow> bb thread" where
  "both_threads l2r s =
     (if l2r then do {
        (p, s) \<leftarrow> producer s;
        (c, s) \<leftarrow> consumer s;
        Some (and p c, s)
      } else do {
        (c, s) \<leftarrow> consumer s;
        (p, s) \<leftarrow> producer s;
        Some (and p c, s)
      })"

definition driver_start :: "bb \<Rightarrow> bb" where
  "driver_start s =
     PT_INIT set_consumer (PT_INIT set_producer
       (PT_SEM_INIT full_update (word_of_nat BUFSIZE) (PT_SEM_INIT empty_update 0 s)))"

definition driver_wait :: "bool \<Rightarrow> bb thread" where
  "driver_wait l2r = PT_WAIT_THREAD set_driver 136 (both_threads l2r) (PT_END set_driver)"

definition driver_thread :: "bool \<Rightarrow> bb thread" where
  "driver_thread l2r s =
     (if pt_driver s = 0 then driver_wait l2r (driver_start s)
      else if pt_driver s = 136 then driver_wait l2r s
      else PT_END set_driver s)"

partial_function (option) buffer_loop :: "bool \<Rightarrow> bb \<Rightarrow> bb option" where
  "buffer_loop l2r s = do {
     (r, s) \<leftarrow> driver_thread l2r s;
     if PT_SCHEDULE r then buffer_loop l2r s else Some s
   }"

declare buffer_loop.simps [code]

definition buffer_main :: "bool \<Rightarrow> bb option" where
  "buffer_main l2r = buffer_loop l2r (PT_INIT set_driver bb_zero)"

end
