(* ===== verification/BufferProof.thy ===== *)
theory BufferProof
  imports BufferExample
begin

text \<open>
  The producer and consumer of \<open>example-buffer.c\<close> share one index into the buffer. They
  still form a queue, because a protothread only gives up the processor when it blocks:
  the producer fills the whole buffer and the consumer empties it, so the index is back at 0
  whenever the other one runs. The invariant \<open>batch\<close> says so for every order of calls.
\<close>

section \<open>What the program prints and how it is called\<close>

fun consumed_of :: "printed \<Rightarrow> int list" where
  "consumed_of (Item_consumed x) = [x]"
| "consumed_of _ = []"

definition consumed_items :: "bb \<Rightarrow> int list" where
  "consumed_items s = concat (map consumed_of (out s))"

datatype call = Producer | Consumer

primrec call_thread :: "call \<Rightarrow> bb thread" where
  "call_thread Producer = producer"
| "call_thread Consumer = consumer"

primrec run_calls :: "call list \<Rightarrow> bb \<Rightarrow> bb option" where
  "run_calls [] s = Some s"
| "run_calls (c # cs) s = do { (r, s) \<leftarrow> call_thread c s; run_calls cs s }"

section \<open>One round of each loop\<close>

definition added :: "bb \<Rightarrow> bb" where
  "added s = s\<lparr>buffer := (buffer s)[bufptr s := item s], bufptr := (bufptr s + 1) mod 8,
     item := item s + 1, full := \<lparr>sem_count = sem_count (full s) - 1\<rparr>,
     empty := \<lparr>sem_count = sem_count (empty s) + 1\<rparr>, produced := produced s + 1,
     pt_producer := 94,
     out := out s @ [Item_produced (item s), Item_added (item s) (bufptr s)]\<rparr>"

definition taken :: "bb \<Rightarrow> bb" where
  "taken s = s\<lparr>bufptr := (bufptr s + 1) mod 8,
     full := \<lparr>sem_count = sem_count (full s) + 1\<rparr>,
     empty := \<lparr>sem_count = sem_count (empty s) - 1\<rparr>, consumed := consumed s + 1,
     pt_consumer := 113,
     out := out s @ [Item_retrieved (buffer s ! bufptr s) (bufptr s), Item_consumed (buffer s ! bufptr s)]\<rparr>"

lemmas bb_ops = add_to_buffer_def get_from_buffer_def produce_item_def consume_item_def print_def Let_def

lemma pt_sem_count: "m\<lparr>sem_count := c\<rparr> = \<lparr>sem_count = c\<rparr>"
  by (cases m) simp

lemma producer_body_pass:
  assumes "sem_count (full s) \<noteq> 0" "bufptr s < length (buffer s)" "item s < INT_MAX"
  shows "producer_body next s = next (added s)"
  using assms by (cases s) (simp add: producer_body_def added_def sem_simps bb_ops pt_sem_count)

lemma consumer_body_pass:
  assumes "sem_count (empty s) \<noteq> 0" "bufptr s < length (buffer s)"
  shows "consumer_body next s = next (taken s)"
  using assms by (cases s) (simp add: consumer_body_def taken_def sem_simps bb_ops pt_sem_count)

lemma producer_body_block:
  "sem_count (full s) = 0 \<Longrightarrow> producer_body next s = Some (PT_WAITING, s\<lparr>pt_producer := 94\<rparr>)"
  by (simp add: producer_body_def sem_simps)

lemma consumer_body_block:
  "sem_count (empty s) = 0 \<Longrightarrow> consumer_body next s = Some (PT_WAITING, s\<lparr>pt_consumer := 113\<rparr>)"
  by (simp add: consumer_body_def sem_simps)

lemma producer_for_pass:
  assumes "produced s < 32" "sem_count (full s) \<noteq> 0" "bufptr s < length (buffer s)"
    "item s < INT_MAX"
  shows "producer_for s = producer_for (added s)"
  using assms by (subst producer_for.simps) (simp add: producer_body_pass)

lemma consumer_for_pass:
  assumes "consumed s < 32" "sem_count (empty s) \<noteq> 0" "bufptr s < length (buffer s)"
  shows "consumer_for s = consumer_for (taken s)"
  using assms by (subst consumer_for.simps) (simp add: consumer_body_pass)

lemma unat_pred: "(c :: u32) \<noteq> 0 \<Longrightarrow> unat (c - 1) = unat c - 1"
  by (simp add: unat_minus_one)

lemma producer_for_many:
  "produced s + m \<le> 32 \<Longrightarrow> m \<le> unat (sem_count (full s)) \<Longrightarrow> length (buffer s) = 8 \<Longrightarrow>
   bufptr s < 8 \<Longrightarrow> item s + int m \<le> INT_MAX \<Longrightarrow> producer_for s = producer_for ((added ^^ m) s)"
proof (induction m arbitrary: s)
  case (Suc m)
  from Suc.prems(2) have c: "sem_count (full s) \<noteq> 0" by auto
  with Suc.prems have "producer_for s = producer_for (added s)" by (intro producer_for_pass) auto
  also have "\<dots> = producer_for ((added ^^ m) (added s))"
    using Suc.prems c by (intro Suc.IH) (auto simp: added_def unat_pred)
  finally show ?case by (simp add: funpow_swap1)
qed simp

lemma consumer_for_many:
  "consumed s + m \<le> 32 \<Longrightarrow> m \<le> unat (sem_count (empty s)) \<Longrightarrow> length (buffer s) = 8 \<Longrightarrow>
   bufptr s < 8 \<Longrightarrow> consumer_for s = consumer_for ((taken ^^ m) s)"
proof (induction m arbitrary: s)
  case (Suc m)
  from Suc.prems(2) have c: "sem_count (empty s) \<noteq> 0" by auto
  with Suc.prems have "consumer_for s = consumer_for (taken s)" by (intro consumer_for_pass) auto
  also have "\<dots> = consumer_for ((taken ^^ m) (taken s))"
    using Suc.prems c by (intro Suc.IH) (auto simp: taken_def unat_pred)
  finally show ?case by (simp add: funpow_swap1)
qed simp

section \<open>A batch of eight\<close>

definition added_batch :: "bb \<Rightarrow> bb" where
  "added_batch s = s\<lparr>buffer := map (\<lambda>i. item s + int i) [0..<8], item := item s + 8,
     full := \<lparr>sem_count = 0\<rparr>, empty := \<lparr>sem_count = 8\<rparr>, produced := produced s + 8,
     pt_producer := 94,
     out := out s @ concat (map (\<lambda>i. [Item_produced (item s + int i), Item_added (item s + int i) i]) [0..<8])\<rparr>"

definition taken_batch :: "bb \<Rightarrow> bb" where
  "taken_batch s = s\<lparr>full := \<lparr>sem_count = 8\<rparr>, empty := \<lparr>sem_count = 0\<rparr>,
     consumed := consumed s + 8, pt_consumer := 113,
     out := out s @ concat (map (\<lambda>i. [Item_retrieved (buffer s ! i) i, Item_consumed (buffer s ! i)]) [0..<8])\<rparr>"

lemma length_8_conv: "length xs = 8 \<longleftrightarrow> (\<exists>a b c d e f g h. xs = [a, b, c, d, e, f, g, h])"
  by (auto simp: numeral_eq_Suc length_Suc_conv)

lemma funpow_8: "(f ^^ 8) s = f (f (f (f (f (f (f (f s)))))))"
  by (simp add: numeral_eq_Suc)

lemma added_8:
  assumes "length (buffer s) = 8" "bufptr s = 0" "sem_count (full s) = 8" "sem_count (empty s) = 0"
  shows "(added ^^ 8) s = added_batch s"
proof -
  from assms(1) obtain a b c d e f g h where "buffer s = [a, b, c, d, e, f, g, h]"
    by (auto simp: length_8_conv)
  then show ?thesis
    using assms by (cases s) (simp add: funpow_8 added_def added_batch_def upt_rec)
qed

lemma taken_8:
  assumes "bufptr s = 0" "sem_count (full s) = 0" "sem_count (empty s) = 8"
  shows "(taken ^^ 8) s = taken_batch s"
  using assms by (cases s) (simp add: funpow_8 taken_def taken_batch_def upt_rec, simp add: numeral_eq_Suc)


section \<open>The invariant\<close>

text \<open>
  \<open>k\<close> batches were produced and \<open>j\<close> consumed. A thread that was never called or has just
  ended starts its loop over; every fourth batch ends a loop.
\<close>

definition at_label :: "lc_t \<Rightarrow> nat \<Rightarrow> lc_t \<Rightarrow> nat \<Rightarrow> bool" where
  "at_label l n pt i \<longleftrightarrow> pt = 0 \<and> n mod 4 = 0 \<or> pt = l \<and> i = 8 * (n mod 4)"

definition batch :: "nat \<Rightarrow> nat \<Rightarrow> bb \<Rightarrow> bool" where
  "batch k j s \<longleftrightarrow>
     length (buffer s) = BUFSIZE \<and> bufptr s = 0 \<and> item s = int (8 * k) \<and>
     consumed_items s = map int [0..<8 * j] \<and>
     (k = j \<and> sem_count (full s) = 8 \<and> sem_count (empty s) = 0 \<or>
      k = Suc j \<and> sem_count (full s) = 0 \<and> sem_count (empty s) = 8 \<and>
      buffer s = map int [8 * j..<8 * j + 8]) \<and>
     at_label 94 k (pt_producer s) (produced s) \<and> at_label 113 j (pt_consumer s) (consumed s)"

definition code_after :: "nat \<Rightarrow> int" where
  "code_after k = (if k mod 4 = 0 then PT_ENDED else PT_WAITING)"

lemma consumed_items_added: "consumed_items (added_batch s) = consumed_items s"
  by (simp add: consumed_items_def added_batch_def upt_rec)

lemma consumed_items_taken:
  assumes "length (buffer s) = 8"
  shows "consumed_items (taken_batch s) = consumed_items s @ buffer s"
proof -
  from assms obtain a b c d e f g h where "buffer s = [a, b, c, d, e, f, g, h]"
    by (auto simp: length_8_conv)
  then show ?thesis by (simp add: consumed_items_def taken_batch_def upt_rec)
qed

lemma mod_4_Suc:
  "Suc k mod 4 = (if k mod 4 = 3 then 0 else Suc (k mod 4))" "k mod 4 \<le> (3 :: nat)"
  by (simp_all add: mod_Suc less_Suc_eq_le [symmetric])

text \<open>A resumed thread re-enters its loop where the test of the loop would let it in.\<close>

lemma producer_enter:
  assumes "batch k j s"
  shows "producer s = producer_for (s\<lparr>produced := 8 * (k mod 4)\<rparr>)"
proof -
  have "8 * (k mod 4) < 32" using mod_4_Suc(2) [of k] by linarith
  then have "producer_body producer_for s = producer_for s" if "produced s = 8 * (k mod 4)"
    using that by (simp add: producer_for.simps [of s])
  with assms show ?thesis
    by (cases s) (auto simp: producer_def batch_def at_label_def)
qed

lemma consumer_enter:
  assumes "batch k j s"
  shows "consumer s = consumer_for (s\<lparr>consumed := 8 * (j mod 4)\<rparr>)"
proof -
  have "8 * (j mod 4) < 32" using mod_4_Suc(2) [of j] by linarith
  then have "consumer_body consumer_for s = consumer_for s" if "consumed s = 8 * (j mod 4)"
    using that by (simp add: consumer_for.simps [of s])
  with assms show ?thesis
    by (cases s) (auto simp: consumer_def batch_def at_label_def)
qed


lemma producer_batch:
  assumes s: "batch k k s" and room: "int (8 * Suc k) \<le> INT_MAX"
  shows "\<exists>t. producer s = Some (code_after (Suc k), t) \<and> batch (Suc k) k t \<and> pt_driver t = pt_driver s"
proof -
  let ?s = "s\<lparr>produced := 8 * (k mod 4)\<rparr>"
  let ?t = "added_batch ?s"
  note mod_4_Suc(2) [of k]
  then have "producer s = producer_for ?t"
    using s room producer_for_many [of ?s 8] added_8 [of ?s] producer_enter [OF s]
    by (simp add: batch_def)
  also have "\<dots> = Some (code_after (Suc k), if Suc k mod 4 = 0 then ?t\<lparr>pt_producer := 0\<rparr> else ?t)"
    using \<open>k mod 4 \<le> 3\<close>
    by (subst producer_for.simps)
      (auto simp: code_after_def mod_4_Suc(1) PT_END_def PT_INIT_def added_batch_def producer_body_block)
  finally show ?thesis
    using s consumed_items_added [of ?s]
    by (auto simp: batch_def added_batch_def at_label_def mod_4_Suc(1) consumed_items_def upt_rec)
qed


lemma producer_blocked:
  assumes s: "batch (Suc k) k s"
  shows "\<exists>t. producer s = Some (PT_WAITING, t) \<and> batch (Suc k) k t \<and> pt_driver t = pt_driver s"
proof -
  let ?s = "s\<lparr>produced := 8 * (Suc k mod 4)\<rparr>"
  have "8 * (Suc k mod 4) < 32" by simp
  then have "producer s = Some (PT_WAITING, ?s\<lparr>pt_producer := 94\<rparr>)"
    using s producer_enter [OF s]
    by (simp add: producer_for.simps [of ?s] producer_body_block batch_def)
  then show ?thesis
    using s by (auto simp: batch_def at_label_def consumed_items_def)
qed

lemma consumer_batch:
  assumes s: "batch (Suc j) j s"
  shows "\<exists>t. consumer s = Some (code_after (Suc j), t) \<and> batch (Suc j) (Suc j) t \<and> pt_driver t = pt_driver s"
proof -
  let ?s = "s\<lparr>consumed := 8 * (j mod 4)\<rparr>"
  let ?t = "taken_batch ?s"
  note mod_4_Suc(2) [of j]
  then have "consumer s = consumer_for ?t"
    using s consumer_for_many [of ?s 8] taken_8 [of ?s] consumer_enter [OF s]
    by (simp add: batch_def)
  also have "\<dots> = Some (code_after (Suc j), if Suc j mod 4 = 0 then ?t\<lparr>pt_consumer := 0\<rparr> else ?t)"
    using \<open>j mod 4 \<le> 3\<close>
    by (subst consumer_for.simps)
      (auto simp: code_after_def mod_4_Suc(1) PT_END_def PT_INIT_def taken_batch_def consumer_body_block)
  finally show ?thesis
    using s consumed_items_taken [of ?s] upt_add_eq_append [of 0 "8 * j" 8]
    by (auto simp: batch_def taken_batch_def at_label_def mod_4_Suc(1) consumed_items_def add.commute)
qed

lemma consumer_blocked:
  assumes s: "batch k k s"
  shows "\<exists>t. consumer s = Some (PT_WAITING, t) \<and> batch k k t \<and> pt_driver t = pt_driver s"
proof -
  let ?s = "s\<lparr>consumed := 8 * (k mod 4)\<rparr>"
  have "8 * (k mod 4) < 32" by simp
  then have "consumer s = Some (PT_WAITING, ?s\<lparr>pt_consumer := 113\<rparr>)"
    using s consumer_enter [OF s]
    by (simp add: consumer_for.simps [of ?s] consumer_body_block batch_def)
  then show ?thesis
    using s by (auto simp: batch_def at_label_def consumed_items_def)
qed

lemma batch_cases:
  assumes "batch k j s"
  obtains "k = j" | "k = Suc j"
  using assms by (auto simp: batch_def)

lemma batch_start: "batch 0 0 (driver_start bb_zero)"
  by (simp add: batch_def driver_start_def bb_zero_def sem_simps PT_INIT_def at_label_def consumed_items_def)

text \<open>Any calls of the two threads, in any order, keep the invariant.\<close>

lemma call_thread_batch:
  assumes "batch k j s" "int (8 * Suc k) \<le> INT_MAX"
  shows "\<exists>r t k' j'. call_thread c s = Some (r, t) \<and> batch k' j' t \<and> k' \<le> Suc k"
  using assms
  by (cases rule: batch_cases [OF assms(1)]; cases c)
    (use producer_batch producer_blocked consumer_batch consumer_blocked in
      \<open>fastforce intro: order_refl le_SucI\<close>)+

lemma run_calls_batch:
  "batch k j s \<Longrightarrow> int (8 * (k + length cs)) \<le> INT_MAX \<Longrightarrow>
   \<exists>t k' j'. run_calls cs s = Some t \<and> batch k' j' t"
proof (induction cs arbitrary: k j s)
  case (Cons c cs)
  then obtain r t k' j' where t: "call_thread c s = Some (r, t)" "batch k' j' t" "k' \<le> Suc k"
    using call_thread_batch [of k j s c] by fastforce
  with Cons.IH [of k' j' t] Cons.prems show ?case by simp
qed auto

text \<open>
  C31. Whatever the order in which the producer and the consumer are called, and however often,
  the program stays defined as long as the item counter fits an \<open>int\<close>: at every return the
  semaphores add up to the size of the buffer, the index is inside it, and the items consumed
  so far are exactly \<open>0, 1, 2, \<dots>\<close> in the order they were produced, none lost or repeated.
\<close>

theorem buffer_is_fifo:
  assumes "8 * int (length cs) \<le> INT_MAX"
  shows "\<exists>t n. run_calls cs (driver_start bb_zero) = Some t \<and>
    consumed_items t = map int [0..<n] \<and> int n \<le> item t \<and> item t \<le> int n + 8 \<and>
    sem_count (full t) + sem_count (empty t) = word_of_nat BUFSIZE \<and>
    length (buffer t) = BUFSIZE \<and> bufptr t < BUFSIZE"
proof -
  from assms obtain t k j where t: "run_calls cs (driver_start bb_zero) = Some t" "batch k j t"
    using run_calls_batch [OF batch_start, of cs] by auto
  from this(2) show ?thesis
    by (intro exI [of _ t] exI [of _ "8 * j"]) (auto simp: t(1) batch_def)
qed

theorem buffer_is_fifo_witness:
  "\<exists>t n. run_calls [Consumer, Producer, Producer, Consumer, Producer] (driver_start bb_zero) = Some t \<and>
    consumed_items t = map int [0..<n] \<and> int n \<le> item t \<and> item t \<le> int n + 8 \<and>
    sem_count (full t) + sem_count (empty t) = word_of_nat BUFSIZE \<and>
    length (buffer t) = BUFSIZE \<and> bufptr t < BUFSIZE"
  by (rule buffer_is_fifo) simp

end
