(* ===== verification/BufferDriver.thy ===== *)
theory BufferDriver
  imports BufferProof
begin

text \<open>
  The driver of \<open>example-buffer.c\<close> waits until \<open>producer (&pt_producer) & consumer
  (&pt_consumer)\<close> is an end code, that is, until both threads end in the same round. C leaves
  the order of the two calls to the compiler. Called from left to right both end in the fourth
  round; from right to left the consumer is always one batch behind, a thread that ended starts
  over before the other ends, and the program never returns.
\<close>

lemma batch_driver [simp]: "batch k j (s\<lparr>pt_driver := l\<rparr>) = batch k j s"
  by (simp add: batch_def consumed_items_def)

lemma and_3 [simp]: "and 3 (3 :: int) = 3" "and 0 (x :: int) = 0" "and x (0 :: int) = 0"
  by simp_all

lemma driver_wait_round:
  assumes "both_threads l2r (s\<lparr>pt_driver := 136\<rparr>) = Some (r, t)" "pt_driver t = 136"
  shows "driver_wait l2r s
    = Some (if r < PT_EXITED then (PT_WAITING, t) else (PT_ENDED, t\<lparr>pt_driver := 0\<rparr>))"
  using assms by (simp add: driver_wait_def pt_defs PT_SCHEDULE_def)

section \<open>Left to right\<close>

lemma round_l2r:
  assumes s: "batch k k s" and room: "int (8 * Suc k) \<le> INT_MAX"
  shows "\<exists>t. driver_wait True s = Some (code_after (Suc k), t) \<and> batch (Suc k) (Suc k) t \<and>
    (code_after (Suc k) = PT_WAITING \<longrightarrow> pt_driver t = 136)"
proof -
  let ?s = "s\<lparr>pt_driver := 136\<rparr>"
  from s room obtain p where p: "producer ?s = Some (code_after (Suc k), p)" "batch (Suc k) k p"
      "pt_driver p = 136"
    using producer_batch [of k ?s] by auto
  from p(2) obtain t where t: "consumer p = Some (code_after (Suc k), t)" "batch (Suc k) (Suc k) t"
      "pt_driver t = 136"
    using consumer_batch [of k p] p(3) by auto
  have "both_threads True ?s = Some (code_after (Suc k), t)"
    by (simp add: both_threads_def p(1) t(1) code_after_def)
  with t show ?thesis
    by (auto simp: driver_wait_round code_after_def)
qed

lemma buffer_loop_l2r:
  assumes "m + k = 3" "batch k k s'" "driver_thread True s = driver_wait True s'"
  shows "\<exists>t. buffer_loop True s = Some t \<and> batch 4 4 t"
  using assms
proof (induction m arbitrary: k s s')
  case 0
  then have "k = 3" by simp
  with 0 obtain t where "driver_wait True s' = Some (PT_ENDED, t)" "batch 4 4 t"
    using round_l2r [of 3 s'] by (auto simp: code_after_def)
  with 0 show ?case by (subst buffer_loop.simps) (simp add: PT_SCHEDULE_def)
next
  case (Suc m)
  then have k: "code_after (Suc k) = PT_WAITING" "int (8 * Suc k) \<le> INT_MAX"
    by (auto simp: code_after_def)
  with Suc.prems obtain t where t: "driver_wait True s' = Some (PT_WAITING, t)"
      "batch (Suc k) (Suc k) t" "pt_driver t = 136"
    using round_l2r [of k s'] by auto
  then have "driver_thread True t = driver_wait True t" by (simp add: driver_thread_def)
  with Suc.IH [of "Suc k" t t] Suc.prems t show ?case
    by (subst buffer_loop.simps) (simp add: PT_SCHEDULE_def)
qed

lemma driver_first: "driver_thread l2r (PT_INIT set_driver bb_zero) = driver_wait l2r (driver_start bb_zero)"
  by (simp add: driver_thread_def PT_INIT_def bb_zero_def)

text \<open>
  C32. With the operands of \<open>&\<close> called from left to right, \<open>main\<close> returns: all 32 items were
  produced, and consumed in order, and the buffer is empty.
\<close>

theorem buffer_main_terminates:
  "\<exists>t. buffer_main True = Some t \<and> consumed_items t = map int [0..<NUM_ITEMS] \<and>
     item t = int NUM_ITEMS \<and> sem_count (empty t) = 0 \<and> sem_count (full t) = word_of_nat BUFSIZE"
proof -
  obtain t where "buffer_main True = Some t" "batch 4 4 t"
    using buffer_loop_l2r [of 3 0, OF _ batch_start driver_first] by (auto simp: buffer_main_def)
  then show ?thesis by (simp add: batch_def)
qed

section \<open>Right to left\<close>

lemma code_after_and: "and (code_after k) (code_after (Suc k)) = 0"
  "and (code_after (Suc k)) (code_after k) = 0"
  by (auto simp: code_after_def mod_Suc)

lemma added_pow:
  assumes "length (buffer s) = 8" "bufptr s < 8" "m \<le> unat (sem_count (full s))"
  shows "item ((added ^^ m) s) = item s + int m \<and> produced ((added ^^ m) s) = produced s + m \<and>
    unat (sem_count (full ((added ^^ m) s))) = unat (sem_count (full s)) - m \<and>
    length (buffer ((added ^^ m) s)) = 8 \<and> bufptr ((added ^^ m) s) < 8"
  using assms(3)
proof (induction m)
  case (Suc m)
  then have "sem_count (full ((added ^^ m) s)) \<noteq> 0" by (auto simp: unat_eq_zero)
  with Suc show ?case by (auto simp: added_def [of "(added ^^ m) s"] unat_pred)
qed (use assms in simp)

lemma producer_overflow:
  assumes s: "batch k k s" and k: "int (8 * k) \<le> INT_MAX" and full: "INT_MAX < int (8 * Suc k)"
  shows "producer s = None"
proof -
  let ?s = "s\<lparr>produced := 8 * (k mod 4)\<rparr>"
  define m where "m = nat (INT_MAX - item s)"
  have m: "m < 8" "item s + int m = INT_MAX" "8 * (k mod 4) + m < 32"
    using s k full mod_4_Suc(2) [of k] by (auto simp: batch_def nat_less_iff m_def)
  let ?t = "(added ^^ m) ?s"
  have t: "item ?t = INT_MAX" "produced ?t < 32" "sem_count (full ?t) \<noteq> 0"
    using added_pow [of ?s m] s m by (auto simp: batch_def)
  have "producer s = producer_for ?t"
    using s m producer_for_many [of ?s m] producer_enter [OF s] by (simp add: batch_def)
  also have "\<dots> = None"
    using t by (simp add: producer_for.simps [of ?t] producer_body_def PT_SEM_WAIT_def
        PT_WAIT_UNTIL_def produce_item_def print_def word_neq_0_conv)
  finally show ?thesis .
qed

text \<open>The states between two calls of the driver.\<close>

definition behind :: "nat \<Rightarrow> bb \<Rightarrow> bool" where
  "behind k s \<longleftrightarrow> int (8 * k) \<le> INT_MAX \<and>
     (k = 0 \<and> (\<exists>s'. batch 0 0 s' \<and> driver_thread False s = driver_wait False s') \<or>
      (\<exists>j. k = Suc j \<and> batch k j s \<and> pt_driver s = 136))"

lemma round_r2l:
  assumes "batch k k s \<and> j = k \<and> r = PT_WAITING \<or> batch k j s \<and> k = Suc j \<and> r = code_after k"
  shows "if int (8 * Suc k) \<le> INT_MAX
    then \<exists>t. driver_wait False s = Some (PT_WAITING, t) \<and> batch (Suc k) k t \<and> pt_driver t = 136
    else int (8 * k) \<le> INT_MAX \<longrightarrow> driver_wait False s = None"
proof -
  let ?s = "s\<lparr>pt_driver := 136\<rparr>"
  from assms obtain c where c: "consumer ?s = Some (r, c)" "batch k k c" "pt_driver c = 136"
    using consumer_blocked [of k ?s] consumer_batch [of j ?s] by auto
  show ?thesis
  proof (cases "int (8 * Suc k) \<le> INT_MAX")
    case True
    then obtain t where t: "producer c = Some (code_after (Suc k), t)" "batch (Suc k) k t"
        "pt_driver t = 136"
      using producer_batch [OF c(2)] c(3) by auto
    have "both_threads False ?s = Some (0, t)"
      using assms by (auto simp: both_threads_def c(1) t(1) code_after_and)
    with True t show ?thesis by (auto simp: driver_wait_round)
  next
    case False
    then have "both_threads False ?s = None" if "int (8 * k) \<le> INT_MAX"
      using that producer_overflow [OF c(2)] by (simp add: both_threads_def c(1))
    with False show ?thesis by (simp add: driver_wait_def pt_defs)
  qed
qed

lemma behind_step:
  assumes "behind k s"
  shows "if int (8 * Suc k) \<le> INT_MAX
    then \<exists>t. driver_thread False s = Some (PT_WAITING, t) \<and> behind (Suc k) t
    else driver_thread False s = None"
  using assms unfolding behind_def
  by (elim conjE disjE exE)
    (use round_r2l in \<open>force simp: driver_thread_def [of _ s] split: if_splits\<close>)+


lemma behind_start: "behind 0 (PT_INIT set_driver bb_zero)"
  using batch_start driver_first by (auto simp: behind_def)

lemma behind_consumed:
  assumes "behind (Suc k) s"
  shows "consumed_items s = map int [0..<8 * k]"
  using assms by (auto simp: behind_def batch_def)

lemma buffer_loop_r2l:
  assumes "buffer_loop l2r s = Some t"
  shows "\<forall>k. \<not> l2r \<longrightarrow> \<not> behind k s"
proof (rule buffer_loop.raw_induct
    [where P = "\<lambda>l2r s t. \<forall>k. \<not> l2r \<longrightarrow> \<not> behind k s", OF _ assms], intro allI impI notI, goal_cases)
  case (1 f l2r s t k)
  then obtain u where u: "driver_thread False s = Some (PT_WAITING, u)" "behind (Suc k) u"
    using behind_step [of k s] by (auto split: if_splits)
  with 1(2,3) have "f False u = Some t" by (simp add: PT_SCHEDULE_def)
  with 1(1) u(2) show ?case by blast
qed

primrec driver_calls :: "bool \<Rightarrow> nat \<Rightarrow> bb \<Rightarrow> (int list \<times> bb) option" where
  "driver_calls l2r 0 s = Some ([], s)"
| "driver_calls l2r (Suc n) s = do {
     (r, s) \<leftarrow> driver_thread l2r s;
     (rs, s) \<leftarrow> driver_calls l2r n s;
     Some (r # rs, s)
   }"

lemma driver_calls_r2l:
  "behind k s \<Longrightarrow> int (8 * (k + n)) \<le> INT_MAX \<Longrightarrow>
   \<exists>t. driver_calls False n s = Some (replicate n PT_WAITING, t) \<and> behind (k + n) t"
proof (induction n arbitrary: k s)
  case (Suc n)
  then obtain u where u: "driver_thread False s = Some (PT_WAITING, u)" "behind (Suc k) u"
    using behind_step [of k s] by (auto split: if_splits)
  with Suc.IH [of "Suc k" u] Suc.prems show ?case by auto
qed simp

text \<open>
  C33. Called from right to left, the two threads never end in the same round: \<open>main\<close> never
  returns. Every call of the driver answers \<open>PT_WAITING\<close> for as long as the item counter
  fits an \<open>int\<close>, while the consumer has received all the 32 items after the fifth call and
  then goes on with items the program was not meant to produce.
\<close>

theorem buffer_main_order:
  "buffer_main False = None \<and>
   (8 * int (Suc n) \<le> INT_MAX \<longrightarrow>
     (\<exists>t. driver_calls False (Suc n) (PT_INIT set_driver bb_zero) = Some (replicate (Suc n) PT_WAITING, t) \<and>
        consumed_items t = map int [0..<8 * n]))"
proof (intro conjI impI)
  show "buffer_main False = None"
    using buffer_loop_r2l [of False] behind_start by (cases "buffer_main False") (auto simp: buffer_main_def)
next
  assume "8 * int (Suc n) \<le> INT_MAX"
  then obtain t where "driver_calls False (Suc n) (PT_INIT set_driver bb_zero) = Some (replicate (Suc n) PT_WAITING, t)"
      "behind (Suc n) t"
    using driver_calls_r2l [OF behind_start, of "Suc n"] by auto
  with behind_consumed [of n t] show "\<exists>t. driver_calls False (Suc n) (PT_INIT set_driver bb_zero)
      = Some (replicate (Suc n) PT_WAITING, t) \<and> consumed_items t = map int [0..<8 * n]" by blast
qed

theorem buffer_main_order_witness:
  "\<exists>t. driver_calls False 9 (PT_INIT set_driver bb_zero) = Some (replicate 9 PT_WAITING, t) \<and>
     consumed_items t = map int [0..<64]"
  using buffer_main_order [of 8] by (simp del: replicate.simps driver_calls.simps)

end
