(* ===== verification/SmallExample.thy ===== *)
theory SmallExample
  imports Protothreads
begin

text \<open>
  The two protothreads of \<open>pt-1.4/example-small.c\<close>, which wait for each other's flag. The
  lines they print are the list \<open>trace\<close>. \<open>main\<close> calls them in turn for ever: \<open>rounds\<close> is the
  state after a number of turns.
\<close>

section \<open>State and threads\<close>

datatype running = Protothread_1_running | Protothread_2_running

record sm =
  protothread1_flag :: int
  protothread2_flag :: int
  pt1 :: lc_t
  pt2 :: lc_t
  trace :: "running list"

definition sm_zero :: sm where
  "sm_zero = \<lparr>protothread1_flag = 0, protothread2_flag = 0, pt1 = 0, pt2 = 0, trace = []\<rparr>"

abbreviation set_pt1 :: "sm set_lc" where "set_pt1 l \<equiv> pt1_update (\<lambda>_. l)"
abbreviation set_pt2 :: "sm set_lc" where "set_pt2 l \<equiv> pt2_update (\<lambda>_. l)"

text \<open>One turn of each \<open>while (1)\<close> from the wait; \<open>next\<close> is the head of the loop.\<close>

definition protothread1_body :: "sm thread \<Rightarrow> sm thread" where
  "protothread1_body next = PT_WAIT_UNTIL set_pt1 33 (\<lambda>s. Some (protothread2_flag s \<noteq> 0, s))
     (\<lambda>s. next (s\<lparr>trace := trace s @ [Protothread_1_running],
        protothread2_flag := 0, protothread1_flag := 1\<rparr>))"

definition protothread2_body :: "sm thread \<Rightarrow> sm thread" where
  "protothread2_body next = PT_WAIT_UNTIL set_pt2 63 (\<lambda>s. Some (protothread1_flag s \<noteq> 0, s))
     (\<lambda>s. next (s\<lparr>trace := trace s @ [Protothread_2_running], protothread1_flag := 0\<rparr>))"

lemma protothread1_body_cong [fundef_cong]:
  assumes "s = s'"
    and "\<And>t. protothread2_flag s' \<noteq> 0 \<Longrightarrow> protothread2_flag t = 0 \<Longrightarrow> next t = next' t"
  shows "protothread1_body next s = protothread1_body next' s'"
  using assms by (simp add: protothread1_body_def PT_WAIT_UNTIL_def)

lemma protothread2_body_cong [fundef_cong]:
  assumes "s = s'"
    and "\<And>t. protothread1_flag s' \<noteq> 0 \<Longrightarrow> protothread1_flag t = 0 \<Longrightarrow> next t = next' t"
  shows "protothread2_body next s = protothread2_body next' s'"
  using assms by (simp add: protothread2_body_def PT_WAIT_UNTIL_def)

text \<open>
  The loops have no exit but their wait. They end, for a thread clears the flag it waits for:
  it passes the wait at most once a call.
\<close>

function protothread1_loop :: "sm thread" where
  "protothread1_loop s = protothread1_body protothread1_loop s"
  by pat_completeness auto
termination by (relation "measure (\<lambda>s. if protothread2_flag s = 0 then 0 else 1)") auto

function protothread2_loop :: "sm thread" where
  "protothread2_loop s = protothread2_body protothread2_loop (s\<lparr>protothread2_flag := 1\<rparr>)"
  by pat_completeness auto
termination by (relation "measure (\<lambda>s. if protothread1_flag s = 0 then 0 else 1)") auto

declare protothread1_loop.simps [simp del] protothread2_loop.simps [simp del]

definition protothread1 :: "sm thread" where
  "protothread1 s =
     (if pt1 s = 0 then protothread1_loop s
      else if pt1 s = 33 then protothread1_body protothread1_loop s
      else PT_END set_pt1 s)"

definition protothread2 :: "sm thread" where
  "protothread2 s =
     (if pt2 s = 0 then protothread2_loop s
      else if pt2 s = 63 then protothread2_body protothread2_loop s
      else PT_END set_pt2 s)"

definition small_init :: sm where
  "small_init = PT_INIT set_pt2 (PT_INIT set_pt1 sm_zero)"

definition small_round :: "sm \<Rightarrow> sm option" where
  "small_round s = do {
     (r, s) \<leftarrow> protothread1 s;
     (r, s) \<leftarrow> protothread2 s;
     Some s
   }"

primrec rounds :: "nat \<Rightarrow> sm \<Rightarrow> sm option" where
  "rounds 0 s = Some s"
| "rounds (Suc n) s = do { s \<leftarrow> small_round s; rounds n s }"

section \<open>The threads alternate\<close>

text \<open>
  \<open>turns m\<close> is the trace of \<open>m\<close> turns. At most one flag is set: the one of the thread whose
  turn is next, once the second thread has set off.
\<close>

definition turns :: "nat \<Rightarrow> running list" where
  "turns m = map (\<lambda>i. if even i then Protothread_1_running else Protothread_2_running) [0..<m]"

definition in_turn :: "nat \<Rightarrow> sm \<Rightarrow> bool" where
  "in_turn m s \<longleftrightarrow> trace s = turns m \<and> (pt1 s = 0 \<or> pt1 s = 33) \<and>
     (pt2 s = 0 \<and> m = 0 \<and> protothread1_flag s = 0 \<and> protothread2_flag s = 0 \<or>
      pt2 s = 63 \<and> protothread1_flag s = (if odd m then 1 else 0)
                 \<and> protothread2_flag s = (if odd m then 0 else 1))"

lemma turns_Suc [simp]:
  "turns (Suc m) = turns m @ [if even m then Protothread_1_running else Protothread_2_running]"
  by (simp add: turns_def)

lemma protothread1_block:
  "protothread2_flag s = 0 \<Longrightarrow> protothread1_loop s = Some (PT_WAITING, s\<lparr>pt1 := 33\<rparr>)"
  by (simp add: protothread1_loop.simps [of s] protothread1_body_def PT_WAIT_UNTIL_def)

lemma protothread2_block:
  "protothread1_flag s = 0 \<Longrightarrow>
   protothread2_loop s = Some (PT_WAITING, s\<lparr>protothread2_flag := 1, pt2 := 63\<rparr>)"
  by (simp add: protothread2_loop.simps [of s] protothread2_body_def PT_WAIT_UNTIL_def)

lemma protothread1_turn:
  assumes "in_turn m s"
  shows "\<exists>t. protothread1 s = Some (PT_WAITING, t) \<and> pt2 t = pt2 s \<and>
    in_turn (if even m \<and> pt2 s = 63 then Suc m else m) t"
proof -
  let ?t = "s\<lparr>pt1 := 33\<rparr>"
  let ?u = "s\<lparr>pt1 := 33, trace := trace s @ [Protothread_1_running],
    protothread2_flag := 0, protothread1_flag := 1\<rparr>"
  have "protothread1 s = protothread1_body protothread1_loop s"
    using assms by (auto simp: protothread1_def in_turn_def protothread1_loop.simps [of s])
  also have "\<dots> = Some (PT_WAITING, if even m \<and> pt2 s = 63 then ?u else ?t)"
    using assms by (auto simp: protothread1_body_def PT_WAIT_UNTIL_def in_turn_def
        protothread1_block)
  finally show ?thesis using assms by (auto simp: in_turn_def)
qed

lemma protothread2_turn:
  assumes "in_turn m s"
  shows "\<exists>t. protothread2 s = Some (PT_WAITING, t) \<and> pt2 t = 63 \<and>
    in_turn (if odd m then Suc m else m) t"
proof -
  let ?t = "s\<lparr>protothread2_flag := 1, pt2 := 63\<rparr>"
  let ?u = "s\<lparr>pt2 := 63, trace := trace s @ [Protothread_2_running], protothread1_flag := 0\<rparr>"
  have "protothread2 s = Some (PT_WAITING, if odd m then ?u\<lparr>protothread2_flag := 1\<rparr> else ?t)"
    using assms by (cases s) (auto simp: protothread2_def protothread2_body_def PT_WAIT_UNTIL_def in_turn_def
        protothread2_block)
  then show ?thesis using assms by (auto simp: in_turn_def)
qed

lemma in_turn_start: "in_turn 0 small_init"
  by (simp add: in_turn_def small_init_def sm_zero_def PT_INIT_def turns_def)

primrec small_calls :: "bool list \<Rightarrow> sm \<Rightarrow> sm option" where
  "small_calls [] s = Some s"
| "small_calls (b # bs) s =
     do { (r, s) \<leftarrow> (if b then protothread1 else protothread2) s; small_calls bs s }"

lemma small_calls_in_turn:
  "in_turn m s \<Longrightarrow> \<exists>t m'. small_calls bs s = Some t \<and> in_turn m' t \<and> m' \<le> m + length bs"
proof (induction bs arbitrary: m s)
  case (Cons b bs)
  obtain r u m' where u: "(if b then protothread1 else protothread2) s = Some (r, u)" "in_turn m' u" "m' \<le> Suc m"
    using protothread1_turn [OF Cons.prems] protothread2_turn [OF Cons.prems]
    by (cases b) (fastforce split: if_splits)+
  from Cons.IH [OF u(2)] u(1,3) show ?case by fastforce
qed auto

text \<open>
  C39. Whatever the order in which the two threads are called, both always return, they print
  strictly in turn, the first one first, and their flags are never set at the same time.
\<close>

theorem small_alternates:
  "\<exists>t. small_calls bs small_init = Some t \<and>
     (protothread1_flag t = 0 \<or> protothread2_flag t = 0) \<and>
     trace t = map (\<lambda>i. if even i then Protothread_1_running else Protothread_2_running)
       [0..<length (trace t)]"
proof -
  obtain t m where "small_calls bs small_init = Some t" "in_turn m t"
    using small_calls_in_turn [OF in_turn_start, of bs] by auto
  then show ?thesis by (auto simp: in_turn_def turns_def split: if_splits)
qed

lemma small_round_turn:
  assumes "in_turn m s" "even m" "pt2 s = 63"
  shows "\<exists>t. small_round s = Some t \<and> in_turn (m + 2) t \<and> pt2 t = 63"
proof -
  from assms obtain u where u: "protothread1 s = Some (PT_WAITING, u)" "pt2 u = 63" "in_turn (Suc m) u"
    using protothread1_turn [of m s] by auto
  with protothread2_turn [of "Suc m" u] assms(2) show ?thesis by (auto simp: small_round_def)
qed

lemma small_first_round:
  "\<exists>t. small_round small_init = Some t \<and> in_turn 0 t \<and> pt2 t = 63"
  using protothread1_turn [OF in_turn_start]
  by (auto simp: small_round_def small_init_def PT_INIT_def sm_zero_def dest: protothread2_turn)

lemma rounds_in_turn:
  "in_turn m s \<Longrightarrow> even m \<Longrightarrow> pt2 s = 63 \<Longrightarrow> \<exists>t. rounds n s = Some t \<and> in_turn (m + 2 * n) t"
proof (induction n arbitrary: m s)
  case (Suc n)
  with small_round_turn [of m s] obtain u where "small_round s = Some u" "in_turn (m + 2) u" "pt2 u = 63"
    by auto
  with Suc.IH [of "m + 2" u] Suc.prems(2) show ?case by auto
qed auto

text \<open>
  C40. The main loop makes progress: after the first round, in which both threads only start,
  every round prints one line of each thread.
\<close>

theorem small_progress:
  "\<exists>t. rounds (Suc n) small_init = Some t \<and>
     trace t = concat (replicate n [Protothread_1_running, Protothread_2_running])"
proof -
  obtain s where s: "small_round small_init = Some s" "in_turn 0 s" "pt2 s = 63"
    using small_first_round by auto
  obtain t where "rounds n s = Some t" "in_turn (2 * n) t"
    using rounds_in_turn [OF s(2) _ s(3), of n] by auto
  moreover have "turns (2 * n) = concat (replicate n [Protothread_1_running, Protothread_2_running])"
    by (induction n) (simp_all add: turns_def replicate_append_same [symmetric] del: replicate_append_same)
  ultimately show ?thesis using s(1) by (auto simp: in_turn_def)
qed

end
