(* ===== verification/CodeLock.thy ===== *)
theory CodeLock
  imports Protothreads "HOL-Library.Sublist"
begin

text \<open>
  The code lock of \<open>pt-1.4/example-codelock.c\<close>: the reader protothread, the simulated key
  input, the timers and the main loop. \<open>gettimeofday\<close> belongs to the operating system: the
  definitions take it as the function from the number of earlier calls to the seconds and
  microseconds it answers. An \<open>int\<close> subtraction out of range is undefined in C and gives
  \<open>None\<close>. The lines the program prints are the list \<open>shown\<close>.
\<close>

section \<open>State\<close>

datatype message =
    Key_entered char
  | Timer_expired
  | Incorrect_key char
  | Correct_key char
  | Correct_code
  | Locked_again
  | Unlocked
  | Waiting_first

record cl_timer =
  timer_start :: int
  timer_interval :: int

record cl =
  codelock_timer :: cl_timer
  input_timer :: cl_timer
  codelock_pt :: lc_t
  input_pt :: lc_t
  key :: char
  key_pressed_flag :: int
  keys :: nat
  ticks :: int
  shown :: "message list"

type_synonym clock = "int \<Rightarrow> int \<times> int"

definition code :: "char list" where "code = ''1423''"

abbreviation set_codelock :: "cl set_lc" where "set_codelock l \<equiv> codelock_pt_update (\<lambda>_. l)"
abbreviation set_input :: "cl set_lc" where "set_input l \<equiv> input_pt_update (\<lambda>_. l)"

definition cl_zero :: cl where
  "cl_zero = \<lparr>codelock_timer = \<lparr>timer_start = 0, timer_interval = 0\<rparr>,
     input_timer = \<lparr>timer_start = 0, timer_interval = 0\<rparr>, codelock_pt = 0, input_pt = 0,
     key = CHR 0x00, key_pressed_flag = 0, keys = 0, ticks = 0, shown = []\<rparr>"

definition say :: "message \<Rightarrow> cl \<Rightarrow> cl" where
  "say m s = s\<lparr>shown := shown s @ [m]\<rparr>"

section \<open>The timer library\<close>

definition to_int :: "int \<Rightarrow> int" where
  "to_int x = signed_take_bit 31 x"

definition int_minus :: "int \<Rightarrow> int \<Rightarrow> int option" where
  "int_minus a b = (if - (2 ^ 31) \<le> a - b \<and> a - b < 2 ^ 31 then Some (a - b) else None)"

definition clock_time :: "clock \<Rightarrow> cl \<Rightarrow> int \<times> cl" where
  "clock_time tod s =
     (let (sec, usec) = tod (ticks s)
      in (to_int (sec * 1000 + usec div 1000), s\<lparr>ticks := ticks s + 1\<rparr>))"

definition timer_expired :: "clock \<Rightarrow> cl_timer \<Rightarrow> cl condition" where
  "timer_expired tod t s = (let (now, s) = clock_time tod s in do {
     d \<leftarrow> int_minus now (timer_start t);
     Some (d \<ge> timer_interval t, s)
   })"

definition timer_set :: "clock \<Rightarrow> ((cl_timer \<Rightarrow> cl_timer) \<Rightarrow> cl \<Rightarrow> cl) \<Rightarrow> int \<Rightarrow> cl \<Rightarrow> cl" where
  "timer_set tod upd interval s =
     (let s = upd (timer_interval_update (\<lambda>_. interval)) s;
          (now, s) = clock_time tod s
      in upd (timer_start_update (\<lambda>_. now)) s)"

section \<open>The keyboard\<close>

definition press_key :: "char \<Rightarrow> cl \<Rightarrow> cl" where
  "press_key k s = (say (Key_entered k) s)\<lparr>key := k, key_pressed_flag := 1\<rparr>"

definition key_pressed :: "cl condition" where
  "key_pressed s =
     (if key_pressed_flag s \<noteq> 0 then Some (True, s\<lparr>key_pressed_flag := 0\<rparr>) else Some (False, s))"

definition key_or_timeout :: "clock \<Rightarrow> cl condition" where
  "key_or_timeout tod s = do {
     (p, s) \<leftarrow> key_pressed s;
     if p then Some (True, s) else timer_expired tod (codelock_timer s) s
   }"

section \<open>The code lock\<close>

text \<open>
  The protothread is cut at its waits (lines 163, 180 and 228). Its two loops have one head
  each: \<open>next\<close> is the test of the \<open>for\<close> loop, and the \<open>while (1)\<close> around it enters it with
  \<open>keys = 0\<close>.
\<close>

definition codelock_while :: "cl thread \<Rightarrow> cl thread" where
  "codelock_while next s = next (s\<lparr>keys := 0\<rparr>)"

definition codelock_open :: "clock \<Rightarrow> cl thread \<Rightarrow> cl thread" where
  "codelock_open tod next s = do {
     (e, s) \<leftarrow> timer_expired tod (codelock_timer s) s;
     if \<not> e then codelock_while next (say Locked_again s)
     else PT_EXIT set_codelock (say Unlocked s)
   }"

definition codelock_final :: "clock \<Rightarrow> cl thread \<Rightarrow> cl thread" where
  "codelock_final tod next = PT_WAIT_UNTIL set_codelock 228 (key_or_timeout tod) (codelock_open tod next)"

definition codelock_entered :: "clock \<Rightarrow> cl thread \<Rightarrow> cl thread" where
  "codelock_entered tod next s =
     (if keys s = length code
      then codelock_final tod next (timer_set tod codelock_timer_update 500 (say Correct_code s))
      else codelock_while next s)"

definition codelock_check :: "clock \<Rightarrow> cl thread \<Rightarrow> cl thread" where
  "codelock_check tod next s =
     (if \<not> keys s < length code then None
      else if key s \<noteq> code ! keys s then codelock_entered tod next (say (Incorrect_key (key s)) s)
      else next ((say (Correct_key (key s)) s)\<lparr>keys := keys s + 1\<rparr>))"

definition codelock_first :: "clock \<Rightarrow> cl thread \<Rightarrow> cl thread" where
  "codelock_first tod next = PT_WAIT_UNTIL set_codelock 163 key_pressed (codelock_check tod next)"

definition codelock_timeout :: "clock \<Rightarrow> cl thread \<Rightarrow> cl thread" where
  "codelock_timeout tod next s = do {
     (e, s) \<leftarrow> timer_expired tod (codelock_timer s) s;
     if e then codelock_entered tod next (say Timer_expired s) else codelock_check tod next s
   }"

definition codelock_next :: "clock \<Rightarrow> cl thread \<Rightarrow> cl thread" where
  "codelock_next tod next = PT_WAIT_UNTIL set_codelock 180 (key_or_timeout tod) (codelock_timeout tod next)"

definition codelock_test :: "clock \<Rightarrow> cl thread \<Rightarrow> cl thread" where
  "codelock_test tod next s =
     (if keys s < length code
      then if keys s = 0 then codelock_first tod next s
           else codelock_next tod next (timer_set tod codelock_timer_update 1000 s)
      else codelock_entered tod next s)"

text \<open>
  A call ends: a key is needed to leave the first wait, and it is used up there; after that
  every wait that is passed is one for a later key, or leads back to the first wait.
\<close>

definition for_left :: "cl \<Rightarrow> nat" where
  "for_left s =
     (if keys s = 0 then if key_pressed_flag s = 0 then 0 else 6
      else if keys s \<le> length code then 5 - keys s else 7)"

lemmas cl_defs = codelock_while_def codelock_open_def codelock_final_def codelock_entered_def
  codelock_check_def codelock_first_def codelock_timeout_def codelock_next_def codelock_test_def
lemmas cl_ops = key_pressed_def key_or_timeout_def timer_expired_def timer_set_def clock_time_def say_def

lemma codelock_test_cong [fundef_cong]:
  assumes "s = s'" and "\<And>t. for_left t < for_left s' \<Longrightarrow> next t = next' t"
  shows "codelock_test tod next s = codelock_test tod next' s'"
  using assms
  by (cases "keys s' = 0"; cases "keys s' < 4"; cases "keys s' = 4")
    (auto simp: cl_defs cl_ops PT_WAIT_UNTIL_def PT_EXIT_def for_left_def code_def
      split: prod.splits if_splits intro!: bind_option_cong)


function codelock_for :: "clock \<Rightarrow> cl thread" where
  "codelock_for tod s = codelock_test tod (codelock_for tod) s"
  by pat_completeness auto
termination by (relation "measure (\<lambda>(tod, s). for_left s)") auto

declare codelock_for.simps [simp del]

definition codelock_thread :: "clock \<Rightarrow> cl thread" where
  "codelock_thread tod s =
     (if codelock_pt s = 0 then codelock_while (codelock_for tod) s
      else if codelock_pt s = 163 then codelock_first tod (codelock_for tod) s
      else if codelock_pt s = 180 then codelock_next tod (codelock_for tod) s
      else if codelock_pt s = 228 then codelock_final tod (codelock_for tod) s
      else PT_END set_codelock s)"

section \<open>The simulated input\<close>

text \<open>
  The input thread presses keys (none before the first wait), each followed by a wait: its
  statements as a table of the line of the wait, the key and the interval.
\<close>

definition input_script :: "(lc_t \<times> char option \<times> int) list" where
  "input_script =
    [(268, None, 1000), (273, Some CHR ''1'', 100), (278, Some CHR ''2'', 100),
     (283, Some CHR ''3'', 2000), (288, Some CHR ''1'', 200), (293, Some CHR ''4'', 200),
     (298, Some CHR ''2'', 2000), (303, Some CHR ''3'', 200), (308, Some CHR ''1'', 200),
     (313, Some CHR ''4'', 200), (318, Some CHR ''2'', 100), (323, Some CHR ''3'', 100),
     (328, Some CHR ''4'', 1500), (333, Some CHR ''1'', 300), (338, Some CHR ''4'', 400),
     (343, Some CHR ''2'', 500), (348, Some CHR ''3'', 2000)]"

definition input_wait :: "clock \<Rightarrow> lc_t \<Rightarrow> cl thread \<Rightarrow> cl thread" where
  "input_wait tod line = PT_WAIT_UNTIL set_input line (\<lambda>s. timer_expired tod (input_timer s) s)"

fun input_run :: "clock \<Rightarrow> (lc_t \<times> char option \<times> int) list \<Rightarrow> cl thread" where
  "input_run tod [] s = PT_END set_input s"
| "input_run tod ((line, k, interval) # xs) s =
     (let s = (case k of None \<Rightarrow> s | Some c \<Rightarrow> press_key c s)
      in input_wait tod line (input_run tod xs) (timer_set tod input_timer_update interval s))"

text \<open>The jump of \<open>PT_BEGIN\<close>: the wait at the stored line and the statements after it.\<close>

definition input_resume :: "clock \<Rightarrow> cl thread" where
  "input_resume tod s =
     (case dropWhile (\<lambda>(line, _, _). line \<noteq> input_pt s) input_script of
        [] \<Rightarrow> PT_END set_input s
      | (line, _, _) # xs \<Rightarrow> input_wait tod line (input_run tod xs) s)"

definition input_thread :: "clock \<Rightarrow> cl thread" where
  "input_thread tod s =
     (if input_pt s = 0 then input_run tod input_script (say Waiting_first s)
      else input_resume tod s)"

section \<open>The main loop\<close>

partial_function (option) codelock_loop :: "clock \<Rightarrow> cl \<Rightarrow> cl option" where
  "codelock_loop tod s = do {
     (r, s) \<leftarrow> codelock_thread tod s;
     if PT_SCHEDULE r then do {
       (r, s) \<leftarrow> input_thread tod s;
       codelock_loop tod s
     } else Some s
   }"

declare codelock_loop.simps [code]

definition codelock_main :: "clock \<Rightarrow> cl option" where
  "codelock_main tod = codelock_loop tod (PT_INIT set_codelock (PT_INIT set_input cl_zero))"

end
