(* ===== verification/CodeLockProof.thy ===== *)
theory CodeLockProof
  imports CodeLock
begin

text \<open>
  Safety of the code lock: it only opens after the keys of the code were pressed in their
  order, whoever presses keys, whenever the thread is called, and whatever the clock does
  between two readings. The invariant \<open>progress k\<close> says that the first \<open>k\<close> keys of the code
  have been recognised.
\<close>

section \<open>What was pressed and what the lock said\<close>

fun pressed_of :: "message \<Rightarrow> char list" where
  "pressed_of (Key_entered c) = [c]"
| "pressed_of _ = []"

definition pressed :: "cl \<Rightarrow> char list" where
  "pressed s = concat (map pressed_of (shown s))"

fun lock_line :: "message \<Rightarrow> bool" where
  "lock_line (Key_entered c) = False"
| "lock_line Waiting_first = False"
| "lock_line _ = True"

definition lock_lines :: "cl \<Rightarrow> message list" where
  "lock_lines s = filter lock_line (shown s)"

definition ms :: "clock \<Rightarrow> int \<Rightarrow> int" where
  "ms tod i = (let (sec, usec) = tod i in to_int (sec * 1000 + usec div 1000))"

text \<open>No subtraction of two clock readings overflows, nor one from a zero timer.\<close>

definition clock_ok :: "clock \<Rightarrow> bool" where
  "clock_ok tod \<longleftrightarrow> (\<forall>i j. - (2 ^ 31) \<le> ms tod i - ms tod j \<and> ms tod i - ms tod j < 2 ^ 31)"

definition timer_ok :: "clock \<Rightarrow> cl_timer \<Rightarrow> bool" where
  "timer_ok tod t \<longleftrightarrow> timer_start t \<in> range (ms tod)"

lemma length_code: "length code = 4"
  by (simp add: code_def)

lemma timer_expired_eq:
  "timer_expired tod t s = map_option
     (\<lambda>d. (d \<ge> timer_interval t, s\<lparr>ticks := ticks s + 1\<rparr>)) (int_minus (ms tod (ticks s)) (timer_start t))"
  by (cases "tod (ticks s)") (simp add: timer_expired_def clock_time_def ms_def map_option_case
      split: option.split)

lemma timer_expired_ok:
  assumes "clock_ok tod" "timer_ok tod t"
  obtains e where "timer_expired tod t s = Some (e, s\<lparr>ticks := ticks s + 1\<rparr>)"
proof -
  from assms(2) obtain j where "timer_start t = ms tod j" by (auto simp: timer_ok_def)
  with assms(1) have "int_minus (ms tod (ticks s)) (timer_start t) = Some (ms tod (ticks s) - ms tod j)"
    by (simp add: int_minus_def clock_ok_def)
  then show ?thesis using that by (simp add: timer_expired_eq)
qed

lemma timer_set_codelock:
  "timer_set tod codelock_timer_update i s
     = s\<lparr>codelock_timer := \<lparr>timer_start = ms tod (ticks s), timer_interval = i\<rparr>, ticks := ticks s + 1\<rparr>"
  by (cases s; cases "codelock_timer s") (simp add: timer_set_def clock_time_def ms_def split: prod.splits)

lemma timer_ok_set [simp]: "timer_ok tod \<lparr>timer_start = ms tod n, timer_interval = i\<rparr>"
  by (simp add: timer_ok_def)

section \<open>Progress through the code\<close>

definition entered :: "nat \<Rightarrow> cl \<Rightarrow> bool" where
  "entered k s \<longleftrightarrow>
     (if key_pressed_flag s = 0
      then subseq (take k code) (pressed s) \<and> (k > 0 \<longrightarrow> key s = code ! (k - 1))
      else \<exists>ps. pressed s = ps @ [key s] \<and> subseq (take k code) ps)"

definition progress :: "nat \<Rightarrow> cl \<Rightarrow> bool" where
  "progress k s \<longleftrightarrow> entered k s \<and> suffix (map Correct_key (take k code)) (lock_lines s)"

definition lock_inv :: "clock \<Rightarrow> cl \<Rightarrow> bool" where
  "lock_inv tod s \<longleftrightarrow>
     codelock_pt s = 0 \<and> progress 0 s \<or>
     codelock_pt s = 163 \<and> keys s = 0 \<and> progress 0 s \<or>
     codelock_pt s = 180 \<and> keys s \<in> {1..3} \<and> progress (keys s) s \<and> timer_ok tod (codelock_timer s) \<or>
     codelock_pt s = 228 \<and> keys s = 4 \<and> entered 4 s \<and> timer_ok tod (codelock_timer s) \<and>
       suffix (map Correct_key code @ [Correct_code]) (lock_lines s)"

definition opened :: "cl \<Rightarrow> bool" where
  "opened s \<longleftrightarrow> subseq code (pressed s) \<and>
     suffix (map Correct_key code @ [Correct_code, Unlocked]) (lock_lines s)"

definition post :: "clock \<Rightarrow> cl \<Rightarrow> (int \<times> cl) option \<Rightarrow> bool" where
  "post tod s X \<longleftrightarrow> (\<exists>r t. X = Some (r, t) \<and> pressed t = pressed s \<and>
     input_pt t = input_pt s \<and> input_timer t = input_timer s \<and>
     (r = PT_WAITING \<and> lock_inv tod t \<or> r = PT_EXITED \<and> opened t))"

lemma postI:
  assumes "X = Some (r, t)" "pressed t = pressed s" "input_pt t = input_pt s"
    "input_timer t = input_timer s" "r = PT_WAITING \<and> lock_inv tod t \<or> r = PT_EXITED \<and> opened t"
  shows "post tod s X"
  using assms by (auto simp: post_def)

lemma pressed_frame [simp]:
  "pressed (s\<lparr>ticks := n\<rparr>) = pressed s" "pressed (s\<lparr>codelock_pt := l\<rparr>) = pressed s"
  "pressed (s\<lparr>keys := k\<rparr>) = pressed s" "pressed (s\<lparr>key_pressed_flag := f\<rparr>) = pressed s"
  "pressed (s\<lparr>codelock_timer := ct\<rparr>) = pressed s" "pressed (say m s) = pressed s @ pressed_of m"
  by (simp_all add: pressed_def say_def)

lemma lock_lines_frame [simp]:
  "lock_lines (s\<lparr>ticks := n\<rparr>) = lock_lines s" "lock_lines (s\<lparr>codelock_pt := l\<rparr>) = lock_lines s"
  "lock_lines (s\<lparr>keys := k\<rparr>) = lock_lines s" "lock_lines (s\<lparr>key_pressed_flag := f\<rparr>) = lock_lines s"
  "lock_lines (s\<lparr>codelock_timer := ct\<rparr>) = lock_lines s"
  "lock_lines (say m s) = lock_lines s @ (if lock_line m then [m] else [])"
  by (simp_all add: lock_lines_def say_def)

lemma say_frame [simp]:
  "key_pressed_flag (say m s) = key_pressed_flag s" "key (say m s) = key s" "keys (say m s) = keys s"
  "codelock_pt (say m s) = codelock_pt s" "codelock_timer (say m s) = codelock_timer s"
  "input_pt (say m s) = input_pt s" "input_timer (say m s) = input_timer s"
  by (simp_all add: say_def)

lemma post_frame:
  "pressed s' = pressed s \<Longrightarrow> input_pt s' = input_pt s \<Longrightarrow> input_timer s' = input_timer s \<Longrightarrow>
   post tod s' X \<Longrightarrow> post tod s X"
  by (simp add: post_def)

lemma entered_0: "entered 0 s \<longleftrightarrow> (key_pressed_flag s = 0 \<or> (\<exists>ps. pressed s = ps @ [key s]))"
  by (auto simp: entered_def)

section \<open>The pieces of the thread\<close>

lemma restart_ok:
  assumes "key_pressed_flag s = 0"
  shows "post tod s (codelock_while (codelock_for tod) s)"
  by (rule postI [where r = PT_WAITING and t = "s\<lparr>keys := 0, codelock_pt := 163\<rparr>"])
    (use assms in \<open>simp_all add: codelock_while_def codelock_for.simps [of tod "s\<lparr>keys := 0\<rparr>"]
      codelock_test_def codelock_first_def PT_WAIT_UNTIL_def key_pressed_def code_def lock_inv_def
      progress_def entered_0\<close>)


lemma entered_subseq:
  assumes "entered k s"
  shows "subseq (take k code) (pressed s)"
  using assms by (auto simp: entered_def split: if_splits)

lemma key_or_timeout_ok:
  assumes "clock_ok tod" "timer_ok tod (codelock_timer s)"
  obtains (key) "key_pressed_flag s \<noteq> 0" "key_or_timeout tod s = Some (True, s\<lparr>key_pressed_flag := 0\<rparr>)"
  | (timer) e where "key_pressed_flag s = 0" "key_or_timeout tod s = Some (e, s\<lparr>ticks := ticks s + 1\<rparr>)"
proof (cases "key_pressed_flag s = 0")
  case True
  obtain e where "timer_expired tod (codelock_timer s) s = Some (e, s\<lparr>ticks := ticks s + 1\<rparr>)"
    by (rule timer_expired_ok [OF assms])
  with True show ?thesis by (intro timer) (simp_all add: key_or_timeout_def key_pressed_def)
qed (auto simp: key_or_timeout_def key_pressed_def intro: key)

text \<open>What the thread does after a wait for a key or the timer, whose second look it is.\<close>

lemma final_passed:
  assumes "clock_ok tod" "timer_ok tod (codelock_timer s)" "key_pressed_flag s = 0"
    and "subseq code (pressed s)" "suffix (map Correct_key code @ [Correct_code]) (lock_lines s)"
  shows "post tod s (codelock_open tod (codelock_for tod) s)"
proof -
  obtain e where e: "timer_expired tod (codelock_timer s) s = Some (e, s\<lparr>ticks := ticks s + 1\<rparr>)"
    by (rule timer_expired_ok [OF assms(1,2)])
  let ?s = "s\<lparr>ticks := ticks s + 1\<rparr>"
  show ?thesis
  proof (cases e)
    case True
    show ?thesis
      by (rule postI [where r = PT_EXITED and t = "(say Unlocked ?s)\<lparr>codelock_pt := 0\<rparr>"])
        (use True assms in \<open>auto simp: codelock_open_def e PT_EXIT_def PT_INIT_def opened_def suffix_def\<close>)
  next
    case False
    have "post tod (say Locked_again ?s) (codelock_while (codelock_for tod) (say Locked_again ?s))"
      by (rule restart_ok) (simp add: assms)
    with False show ?thesis by (auto simp: codelock_open_def e elim: post_frame [rotated -1])
  qed
qed

lemma final_ok:
  assumes "clock_ok tod" "timer_ok tod (codelock_timer s)" "entered 4 s" "keys s = 4"
    and "suffix (map Correct_key code @ [Correct_code]) (lock_lines s)"
  shows "post tod s (codelock_final tod (codelock_for tod) s)"
proof -
  let ?s = "s\<lparr>codelock_pt := 228\<rparr>"
  have sub: "subseq code (pressed s)"
    using entered_subseq [OF assms(3)] by (simp add: code_def)
  have "timer_ok tod (codelock_timer ?s)" by (simp add: assms)
  with assms(1) show ?thesis
  proof (cases rule: key_or_timeout_ok)
    case key
    with final_passed [of tod "?s\<lparr>key_pressed_flag := 0\<rparr>"] sub assms show ?thesis
      by (auto simp: codelock_final_def PT_WAIT_UNTIL_def elim: post_frame [rotated -1])
  next
    case (timer e)
    show ?thesis
    proof (cases e)
      case True
      with timer final_passed [of tod "?s\<lparr>ticks := ticks s + 1\<rparr>"] sub assms show ?thesis
        by (auto simp: codelock_final_def PT_WAIT_UNTIL_def elim: post_frame [rotated -1])
    next
      case False
      show ?thesis
        by (rule postI [where r = PT_WAITING and t = "?s\<lparr>ticks := ticks s + 1\<rparr>"])
          (use False timer assms in \<open>simp_all add: codelock_final_def PT_WAIT_UNTIL_def lock_inv_def entered_def\<close>)
    qed
  qed
qed

lemma entered_ok:
  assumes "clock_ok tod" "key_pressed_flag s = 0" "keys s = 4 \<longrightarrow> progress 4 s"
  shows "post tod s (codelock_entered tod (codelock_for tod) s)"
proof (cases "keys s = 4")
  case True
  let ?s = "timer_set tod codelock_timer_update 500 (say Correct_code s)"
  have "post tod ?s (codelock_final tod (codelock_for tod) ?s)"
    using assms True by (intro final_ok)
      (auto simp: timer_set_codelock progress_def entered_def code_def suffix_def)
  with True show ?thesis
    by (auto simp: codelock_entered_def code_def timer_set_codelock elim: post_frame [rotated -1])
next
  case False
  with restart_ok [OF assms(2)] show ?thesis by (simp add: codelock_entered_def code_def)
qed

text \<open>A key that was not pressed anew is the last one recognised, and the code has no repetition.\<close>

lemma check_ok:
  assumes "clock_ok tod" "key_pressed_flag s = 0" "keys s = k" "k < 4"
    and "suffix (map Correct_key (take k code)) (lock_lines s)"
    and "subseq (take k code @ [key s]) (pressed s) \<or> key s \<noteq> code ! k"
    and next_ok: "\<And>t. keys t = Suc k \<Longrightarrow> key_pressed_flag t = 0 \<Longrightarrow> progress (Suc k) t \<Longrightarrow>
      post tod t (codelock_for tod t)"
  shows "post tod s (codelock_check tod (codelock_for tod) s)"
proof (cases "key s = code ! k")
  case True
  let ?t = "(say (Correct_key (key s)) s)\<lparr>keys := Suc k\<rparr>"
  have "take (Suc k) code = take k code @ [code ! k]"
    by (rule take_Suc_conv_app_nth) (simp add: length_code assms)
  with assms True have "progress (Suc k) ?t"
    by (auto simp: progress_def entered_def suffix_def)
  then have "post tod ?t (codelock_for tod ?t)" using assms by (intro next_ok) simp_all
  then have "post tod s (codelock_for tod ?t)" by (rule post_frame [rotated -1]) simp_all
  with True assms show ?thesis by (simp add: codelock_check_def length_code)
next
  case False
  with entered_ok [of tod "say (Incorrect_key (key s)) s"] assms show ?thesis
    by (auto simp: codelock_check_def code_def elim: post_frame [rotated -1])
qed


lemma suffix_0 [simp]: "suffix [] xs"
  by (simp add: suffix_def)

lemma next_key_ok:
  assumes "clock_ok tod" "timer_ok tod (codelock_timer s)" "keys s = k" "k \<in> {1..3}" "progress k s"
    and next_ok: "\<And>t. keys t = Suc k \<Longrightarrow> key_pressed_flag t = 0 \<Longrightarrow> progress (Suc k) t \<Longrightarrow>
      post tod t (codelock_for tod t)"
  shows "post tod s (codelock_next tod (codelock_for tod) s)"
proof -
  let ?s = "s\<lparr>codelock_pt := 180\<rparr>"
  have passed: "post tod u (codelock_timeout tod (codelock_for tod) u)"
    if u: "key_pressed_flag u = 0" "keys u = k" "timer_ok tod (codelock_timer u)"
      "suffix (map Correct_key (take k code)) (lock_lines u)"
      "subseq (take k code @ [key u]) (pressed u) \<or> key u \<noteq> code ! k" for u
  proof -
    obtain e where e: "timer_expired tod (codelock_timer u) u = Some (e, u\<lparr>ticks := ticks u + 1\<rparr>)"
      by (rule timer_expired_ok [OF assms(1) u(3)])
    let ?u = "u\<lparr>ticks := ticks u + 1\<rparr>"
    have "post tod ?u (codelock_entered tod (codelock_for tod) (say Timer_expired ?u))"
      using entered_ok [of tod "say Timer_expired ?u"] assms u by (auto elim: post_frame [rotated -1])
    moreover have "post tod ?u (codelock_check tod (codelock_for tod) ?u)"
      by (rule check_ok [where k = k]) (use assms(1,4) u in \<open>auto intro: next_ok\<close>)
    ultimately show ?thesis by (auto simp: codelock_timeout_def e elim: post_frame [rotated -1])
  qed
  have stale: "key s \<noteq> code ! k" if "key_pressed_flag s = 0"
    using assms(4,5) that by (auto simp: progress_def entered_def code_def nth_Cons' split: if_splits)
  have "timer_ok tod (codelock_timer ?s)" by (simp add: assms)
  with assms(1) show ?thesis
  proof (cases rule: key_or_timeout_ok)
    case key
    then have "subseq (take k code @ [key s]) (pressed s)"
      using assms(5) by (auto simp: progress_def entered_def)
    with key passed [of "?s\<lparr>key_pressed_flag := 0\<rparr>"] assms show ?thesis
      by (auto simp: codelock_next_def PT_WAIT_UNTIL_def progress_def elim: post_frame [rotated -1])
  next
    case (timer e)
    show ?thesis
    proof (cases e)
      case True
      with timer stale passed [of "?s\<lparr>ticks := ticks s + 1\<rparr>"] assms show ?thesis
        by (auto simp: codelock_next_def PT_WAIT_UNTIL_def progress_def elim: post_frame [rotated -1])
    next
      case False
      show ?thesis
        by (rule postI [where r = PT_WAITING and t = "?s\<lparr>ticks := ticks s + 1\<rparr>"])
          (use False timer assms in \<open>simp_all add: codelock_next_def PT_WAIT_UNTIL_def lock_inv_def
            entered_def progress_def\<close>)
    qed
  qed
qed

lemma for_ok:
  assumes "clock_ok tod"
  shows "m + keys s = 4 \<Longrightarrow> keys s \<noteq> 0 \<Longrightarrow> key_pressed_flag s = 0 \<Longrightarrow> progress (keys s) s \<Longrightarrow>
    post tod s (codelock_for tod s)"
proof (induction m arbitrary: s)
  case 0
  with entered_ok [OF assms, of s] show ?case
    by (simp add: codelock_for.simps [of tod s] codelock_test_def length_code)
next
  case (Suc m)
  let ?s = "timer_set tod codelock_timer_update 1000 s"
  have "post tod ?s (codelock_next tod (codelock_for tod) ?s)"
    by (rule next_key_ok [OF assms, where k = "keys s"])
      (use Suc in \<open>auto simp: timer_set_codelock progress_def entered_def\<close>)
  with Suc.prems show ?case
    by (auto simp: codelock_for.simps [of tod s] codelock_test_def length_code timer_set_codelock
        elim: post_frame [rotated -1])
qed

lemma first_ok:
  assumes "clock_ok tod" "keys s = 0" "progress 0 s"
  shows "post tod s (codelock_first tod (codelock_for tod) s)"
proof (cases "key_pressed_flag s = 0")
  case True
  show ?thesis
    by (rule postI [where r = PT_WAITING and t = "s\<lparr>codelock_pt := 163\<rparr>"])
      (use True assms in \<open>simp_all add: codelock_first_def PT_WAIT_UNTIL_def key_pressed_def
        lock_inv_def progress_def entered_0\<close>)
next
  case False
  let ?s = "s\<lparr>codelock_pt := 163, key_pressed_flag := 0\<rparr>"
  have "post tod ?s (codelock_check tod (codelock_for tod) ?s)"
    by (rule check_ok [OF assms(1), where k = 0])
      (use False assms for_ok [OF assms(1), of 3] in \<open>auto simp: progress_def entered_0\<close>)
  with False show ?thesis
    by (auto simp: codelock_first_def PT_WAIT_UNTIL_def key_pressed_def elim: post_frame [rotated -1])
qed

lemma codelock_thread_ok:
  assumes "clock_ok tod" "lock_inv tod s"
  shows "post tod s (codelock_thread tod s)"
proof -
  from assms(2) consider
      "codelock_pt s = 0" "progress 0 s"
    | "codelock_pt s = 163" "keys s = 0" "progress 0 s"
    | "codelock_pt s = 180" "keys s \<in> {1..3}" "progress (keys s) s" "timer_ok tod (codelock_timer s)"
    | "codelock_pt s = 228" "keys s = 4" "entered 4 s" "timer_ok tod (codelock_timer s)"
      "suffix (map Correct_key code @ [Correct_code]) (lock_lines s)"
    by (auto simp: lock_inv_def)
  then show ?thesis
  proof cases
    case 1
    let ?s = "s\<lparr>keys := 0\<rparr>"
    have "post tod ?s (codelock_first tod (codelock_for tod) ?s)"
      by (rule first_ok) (use assms 1 in \<open>auto simp: progress_def entered_0\<close>)
    with 1 show ?thesis
      by (auto simp: codelock_thread_def codelock_while_def codelock_for.simps [of tod ?s]
          codelock_test_def length_code elim: post_frame [rotated -1])
  next
    case 3
    have "post tod s (codelock_next tod (codelock_for tod) s)"
      by (rule next_key_ok [OF assms(1) 3(4) refl 3(2,3)])
        (rule for_ok [OF assms(1), where m = "3 - keys s"], use 3(2) in auto)
    with 3(1) show ?thesis by (simp add: codelock_thread_def)
  qed (use assms first_ok final_ok in \<open>simp_all add: codelock_thread_def\<close>)
qed


section \<open>The lock in any environment\<close>

text \<open>
  Keys are pressed and the thread is called in any order; as in \<open>main\<close>, it is not called
  again once it has opened the lock.
\<close>

datatype lock_event = Press char | Poll

primrec lock_run :: "clock \<Rightarrow> lock_event list \<Rightarrow> cl \<Rightarrow> (bool \<times> cl) option" where
  "lock_run tod [] s = Some (False, s)"
| "lock_run tod (e # es) s = (case e of
     Press c \<Rightarrow> lock_run tod es (press_key c s)
   | Poll \<Rightarrow> do {
       (r, s) \<leftarrow> codelock_thread tod s;
       if PT_SCHEDULE r then lock_run tod es s else Some (True, s)
     })"

lemma press_key_frame [simp]:
  "keys (press_key c s) = keys s" "codelock_pt (press_key c s) = codelock_pt s"
  "codelock_timer (press_key c s) = codelock_timer s" "input_pt (press_key c s) = input_pt s"
  "input_timer (press_key c s) = input_timer s" "key (press_key c s) = c"
  "key_pressed_flag (press_key c s) = 1" "pressed (press_key c s) = pressed s @ [c]"
  "lock_lines (press_key c s) = lock_lines s"
  by (simp_all add: press_key_def say_def pressed_def lock_lines_def)

lemma entered_press: "entered k s \<Longrightarrow> entered k (press_key c s)"
  using entered_subseq [of k s] by (simp add: entered_def [of k "press_key c s"])

lemma lock_inv_press: "lock_inv tod s \<Longrightarrow> lock_inv tod (press_key c s)"
  unfolding lock_inv_def by (elim disjE) (simp_all add: progress_def entered_press)

lemma lock_run_ok:
  "clock_ok tod \<Longrightarrow> lock_inv tod s \<Longrightarrow>
   \<exists>u t. lock_run tod es s = Some (u, t) \<and> (if u then opened t else lock_inv tod t)"
proof (induction es arbitrary: s)
  case (Cons e es)
  show ?case
  proof (cases e)
    case (Press c)
    with Cons lock_inv_press show ?thesis by simp
  next
    case Poll
    from codelock_thread_ok [OF Cons.prems] obtain r t where "codelock_thread tod s = Some (r, t)"
        "r = PT_WAITING \<and> lock_inv tod t \<or> r = PT_EXITED \<and> opened t"
      by (auto simp: post_def)
    note t = this
    from t(2) show ?thesis
    proof
      assume w: "r = PT_WAITING \<and> lock_inv tod t"
      with Cons.IH [OF Cons.prems(1), of t] t(1) Poll show ?thesis by (simp add: PT_SCHEDULE_def)
    next
      assume "r = PT_EXITED \<and> opened t"
      with t(1) Poll show ?thesis by (intro exI [of _ True]) (simp add: PT_SCHEDULE_def)
    qed
  qed
qed (auto intro: exI [of _ False])

definition lock_start :: cl where
  "lock_start = PT_INIT set_codelock (PT_INIT set_input cl_zero)"

lemma lock_inv_start: "lock_inv tod lock_start"
  by (simp add: lock_inv_def lock_start_def PT_INIT_def cl_zero_def progress_def entered_0)

text \<open>
  C34. Whatever keys are pressed, whenever the lock's thread is called and whatever times the
  clock shows (forwards or backwards, as long as two of them can be subtracted), the thread
  returns from every call, and it opens the lock only if \<open>1\<close>, \<open>4\<close>, \<open>2\<close>, \<open>3\<close> were pressed in
  this order and its last four verdicts recognised them one after the other.
\<close>

theorem lock_opens_only_for_code:
  assumes "clock_ok tod"
  shows "\<exists>u t. lock_run tod es lock_start = Some (u, t) \<and>
    (u \<longrightarrow> subseq code (pressed t) \<and>
       suffix (map Correct_key code @ [Correct_code, Unlocked]) (lock_lines t))"
proof -
  from lock_run_ok [OF assms lock_inv_start] obtain u t where
    "lock_run tod es lock_start = Some (u, t)" "if u then opened t else lock_inv tod t" by blast
  then show ?thesis by (auto simp: opened_def)
qed

text \<open>A clock that advances by 90 ms with every reading and stops after 1800 s.\<close>

definition slow_clock :: clock where
  "slow_clock n = (let t = 90 * max 0 (min n 20000) in (t div 1000, t mod 1000 * 1000))"

lemma slow_clock_ms: "0 \<le> ms slow_clock i \<and> ms slow_clock i < 2 ^ 31"
proof -
  define k where "k = 90 * max 0 (min i 20000)"
  let ?x = "k div 1000 * 1000 + k mod 1000 * 1000 div 1000"
  have "0 \<le> k" "k \<le> 1800000" by (simp_all add: k_def)
  then have x: "?x = k" "0 \<le> k" "k < 2 ^ 31" by auto
  then have "signed_take_bit 31 ?x = k" by (simp only: signed_take_bit_int_eq_self)
  with x show ?thesis by (simp add: ms_def slow_clock_def to_int_def flip: k_def)
qed

lemma slow_clock_ok: "clock_ok slow_clock"
proof -
  have "- (2 ^ 31) \<le> ms slow_clock i - ms slow_clock j \<and> ms slow_clock i - ms slow_clock j < 2 ^ 31" for i j
    using slow_clock_ms [of i] slow_clock_ms [of j] by linarith
  then show ?thesis by (simp add: clock_ok_def)
qed

theorem lock_opens_only_for_code_witness:
  "\<exists>u t. lock_run slow_clock [Press CHR ''1'', Poll, Press CHR ''4'', Poll, Poll] lock_start = Some (u, t) \<and>
    (u \<longrightarrow> subseq code (pressed t) \<and>
       suffix (map Correct_key code @ [Correct_code, Unlocked]) (lock_lines t))"
  by (rule lock_opens_only_for_code [OF slow_clock_ok])

section \<open>The timers\<close>

definition elapsed_ms :: "clock \<Rightarrow> int \<Rightarrow> int" where
  "elapsed_ms tod n = (case tod n of (sec, usec) \<Rightarrow> sec * 1000 + usec div 1000)"

lemma ms_elapsed: "ms tod n = to_int (elapsed_ms tod n)"
  by (simp add: ms_def elapsed_ms_def split: prod.split)

lemma to_int_shift:
  assumes "a \<le> b" "b < a + 2 ^ 31"
  shows "to_int b - to_int a = (if to_int a \<le> to_int b then b - a else b - a - 2 ^ 32)"
proof -
  define p d where "p = (a + 2 ^ 31) mod 2 ^ 32" and "d = b - a"
  have d: "0 \<le> d" "d < 2 ^ 31" using assms by (simp_all add: d_def)
  have p: "0 \<le> p" "p < 2 ^ 32" by (simp_all add: p_def)
  have a: "to_int a = p - 2 ^ 31"
    by (simp add: to_int_def p_def signed_take_bit_eq_take_bit_shift take_bit_eq_mod)
  have "to_int b = (a + 2 ^ 31 + d) mod 2 ^ 32 - 2 ^ 31"
    by (simp add: to_int_def d_def signed_take_bit_eq_take_bit_shift take_bit_eq_mod add.commute)
  also have "(a + 2 ^ 31 + d) mod 2 ^ 32 = (p + d) mod 2 ^ 32"
    by (simp add: p_def mod_add_left_eq)
  also have "\<dots> = (if p + d < 2 ^ 32 then p + d else p + d - 2 ^ 32)"
    using p d mod_pos_pos_trivial [of "p + d" "2 ^ 32"] mod_pos_pos_trivial [of "p + d - 2 ^ 32" "2 ^ 32"]
      minus_mod_self2 [of "p + d" "2 ^ 32"] by simp
  finally have "to_int b = (if p + d < 2 ^ 32 then p + d else p + d - 2 ^ 32) - 2 ^ 31" .
  with a p d show ?thesis by (auto simp: d_def split: if_splits)
qed

text \<open>
  C36. A timer set at one reading of the clock and tested at a later one, less than \<open>2^31\<close> ms
  (24.8 days) after it, has expired exactly when the interval has passed, unless the
  millisecond count passed a multiple of \<open>2^32\<close> plus \<open>2^31\<close> in between, where the \<open>int\<close> of
  \<open>clock_time\<close> wraps and the subtraction in \<open>timer_expired\<close> overflows, which C leaves undefined.
\<close>

theorem timer_exact:
  assumes "elapsed_ms tod (ticks s) \<le> elapsed_ms tod (ticks s')"
    and "elapsed_ms tod (ticks s') < elapsed_ms tod (ticks s) + 2 ^ 31"
  shows "timer_expired tod (codelock_timer (timer_set tod codelock_timer_update i s)) s' =
    (if ms tod (ticks s) \<le> ms tod (ticks s')
     then Some (i \<le> elapsed_ms tod (ticks s') - elapsed_ms tod (ticks s), s'\<lparr>ticks := ticks s' + 1\<rparr>)
     else None)"
  using to_int_shift [OF assms] assms
  by (auto simp: timer_expired_eq timer_set_codelock int_minus_def ms_elapsed)

theorem timer_exact_witness:
  "timer_expired (\<lambda>n. (2147483, n * 499000))
     (codelock_timer (timer_set (\<lambda>n. (2147483, n * 499000)) codelock_timer_update 500 lock_start))
     (lock_start\<lparr>ticks := 1\<rparr>) = Some (False, lock_start\<lparr>ticks := 2\<rparr>) \<and>
   timer_expired (\<lambda>n. (2147483, n * 999000))
     (codelock_timer (timer_set (\<lambda>n. (2147483, n * 999000)) codelock_timer_update 500 lock_start))
     (lock_start\<lparr>ticks := 1\<rparr>) = None"
  using timer_exact [of "\<lambda>n. (2147483, n * 499000)" lock_start "lock_start\<lparr>ticks := 1\<rparr>" 500]
    timer_exact [of "\<lambda>n. (2147483, n * 999000)" lock_start "lock_start\<lparr>ticks := 1\<rparr>" 500]
  by (simp add: lock_start_def cl_zero_def PT_INIT_def elapsed_ms_def ms_def to_int_def
      signed_take_bit_eq_take_bit_shift take_bit_eq_mod)

section \<open>A key during the final wait\<close>

text \<open>
  C37. After the code, a further key within half a second should keep the lock shut. It does not
  when the thread is next called once the time is up: the key ends the wait, but the test after
  it asks the timer again, finds it expired, and opens the lock.
\<close>

theorem late_key_ignored:
  assumes "codelock_pt s = 228" "key_pressed_flag s \<noteq> 0"
    and "int_minus (ms tod (ticks s)) (timer_start (codelock_timer s)) = Some d"
    and "timer_interval (codelock_timer s) \<le> d"
  shows "codelock_thread tod s = Some (PT_EXITED,
    s\<lparr>codelock_pt := 0, key_pressed_flag := 0, ticks := ticks s + 1, shown := shown s @ [Unlocked]\<rparr>)"
  using assms
  by (simp add: codelock_thread_def codelock_final_def codelock_open_def PT_WAIT_UNTIL_def
      key_or_timeout_def key_pressed_def timer_expired_eq PT_EXIT_def PT_INIT_def say_def)

definition shut :: cl where
  "shut = (press_key CHR ''9'' (lock_start\<lparr>codelock_pt := 228, keys := 4,
     codelock_timer := \<lparr>timer_start = 0, timer_interval = 500\<rparr>, ticks := 51\<rparr>))"

theorem late_key_ignored_witness:
  "map_option fst (codelock_thread (\<lambda>n. (0, n * 10000)) shut) = Some PT_EXITED"
  by (subst late_key_ignored [where d = 510])
    (simp_all add: shut_def press_key_def say_def lock_start_def cl_zero_def PT_INIT_def ms_def
      to_int_def int_minus_def signed_take_bit_eq_take_bit_shift take_bit_eq_mod)

end
