(* ===== verification/CodeLockMain.thy ===== *)
theory CodeLockMain
  imports CodeLockProof
begin

text \<open>
  The whole code lock program: \<open>main\<close> calls the lock's thread and the thread that simulates the
  user in turn. No turn runs into an undefined subtraction, and \<open>main\<close> returns only after the
  code was entered.
\<close>

section \<open>The input thread\<close>

lemma shown_frame [simp]:
  "pressed (s\<lparr>input_pt := l\<rparr>) = pressed s" "pressed (s\<lparr>input_timer := t\<rparr>) = pressed s"
  "lock_lines (s\<lparr>input_pt := l\<rparr>) = lock_lines s" "lock_lines (s\<lparr>input_timer := t\<rparr>) = lock_lines s"
  by (simp_all add: pressed_def lock_lines_def)

lemma lock_inv_frame [simp]:
  "lock_inv tod (s\<lparr>input_pt := l\<rparr>) = lock_inv tod s"
  "lock_inv tod (s\<lparr>input_timer := t\<rparr>) = lock_inv tod s"
  "lock_inv tod (s\<lparr>ticks := n\<rparr>) = lock_inv tod s"
  by (simp_all add: lock_inv_def progress_def entered_def)

lemma lock_inv_say: "pressed_of m = [] \<Longrightarrow> \<not> lock_line m \<Longrightarrow> lock_inv tod (say m s) = lock_inv tod s"
  by (simp add: lock_inv_def progress_def entered_def say_def pressed_def lock_lines_def)

lemma timer_set_input:
  "timer_set tod input_timer_update i s
     = s\<lparr>input_timer := \<lparr>timer_start = ms tod (ticks s), timer_interval = i\<rparr>, ticks := ticks s + 1\<rparr>"
  by (cases s; cases "input_timer s") (simp add: timer_set_def clock_time_def ms_def split: prod.splits)

text \<open>What holds between two turns: the input timer was set if the input thread is at a wait.\<close>

definition main_inv :: "clock \<Rightarrow> cl \<Rightarrow> bool" where
  "main_inv tod s \<longleftrightarrow> lock_inv tod s \<and> (input_pt s \<noteq> 0 \<longrightarrow> timer_ok tod (input_timer s))"

definition input_returns :: "clock \<Rightarrow> (int \<times> cl) option \<Rightarrow> bool" where
  "input_returns tod X \<longleftrightarrow> (\<exists>r t. X = Some (r, t) \<and> main_inv tod t)"

lemma input_end: "lock_inv tod s \<Longrightarrow> input_returns tod (PT_END set_input s)"
  by (simp add: input_returns_def main_inv_def PT_END_def PT_INIT_def)

lemma input_wait_ok:
  assumes clock: "clock_ok tod" and s: "lock_inv tod s" "timer_ok tod (input_timer s)"
    and go: "\<And>t. lock_inv tod t \<Longrightarrow> input_returns tod (go t)"
  shows "input_returns tod (input_wait tod line go s)"
proof -
  obtain e where e: "timer_expired tod (input_timer s) (s\<lparr>input_pt := line\<rparr>)
      = Some (e, s\<lparr>input_pt := line, ticks := ticks s + 1\<rparr>)"
    using timer_expired_ok [OF clock s(2), of "s\<lparr>input_pt := line\<rparr>"] by auto
  show ?thesis
  proof (cases e)
    case True
    then show ?thesis using go [of "s\<lparr>input_pt := line, ticks := ticks s + 1\<rparr>"] s(1) e
      by (simp add: input_wait_def PT_WAIT_UNTIL_def)
  next
    case False
    then show ?thesis using s e
      by (simp add: input_wait_def PT_WAIT_UNTIL_def input_returns_def main_inv_def)
  qed
qed

lemma input_run_ok:
  "clock_ok tod \<Longrightarrow> lock_inv tod s \<Longrightarrow> input_returns tod (input_run tod xs s)"
proof (induction xs arbitrary: s)
  case Nil
  then show ?case by (simp add: input_end)
next
  case (Cons x xs)
  obtain line k interval where x: "x = (line, k, interval)" by (cases x)
  let ?s = "case k of None \<Rightarrow> s | Some c \<Rightarrow> press_key c s"
  have "lock_inv tod ?s" using Cons.prems(2) lock_inv_press by (simp split: option.split)
  then have "input_returns tod (input_wait tod line (input_run tod xs) (timer_set tod input_timer_update interval ?s))"
    using Cons by (intro input_wait_ok) (simp_all add: timer_set_input)
  then show ?case by (simp add: x Let_def)
qed

lemma input_thread_ok:
  assumes clock: "clock_ok tod" and s: "main_inv tod s"
  shows "input_returns tod (input_thread tod s)"
proof (cases "input_pt s = 0")
  case True
  then show ?thesis
    using input_run_ok [OF clock] s by (simp add: input_thread_def main_inv_def lock_inv_say)
next
  case False
  then have "lock_inv tod s" "timer_ok tod (input_timer s)" using s by (simp_all add: main_inv_def)
  then show ?thesis
    using False input_end input_wait_ok [OF clock] input_run_ok [OF clock]
    by (simp add: input_thread_def input_resume_def split: list.split)
qed

section \<open>The main loop\<close>

text \<open>\<open>n\<close> turns of the loop of \<open>main\<close>; \<open>True\<close> when it is still going.\<close>

primrec codelock_turns :: "clock \<Rightarrow> nat \<Rightarrow> cl \<Rightarrow> (bool \<times> cl) option" where
  "codelock_turns tod 0 s = Some (True, s)"
| "codelock_turns tod (Suc n) s = do {
     (r, s) \<leftarrow> codelock_thread tod s;
     if PT_SCHEDULE r then do {
       (r, s) \<leftarrow> input_thread tod s;
       codelock_turns tod n s
     } else Some (False, s)
   }"

text \<open>One turn: the lock opens, or the invariant holds again.\<close>

lemma turn_ok:
  assumes clock: "clock_ok tod" and s: "main_inv tod s"
  obtains (opens) r t where "codelock_thread tod s = Some (r, t)" "\<not> PT_SCHEDULE r" "opened t"
  | (goes_on) r t r' u where "codelock_thread tod s = Some (r, t)" "PT_SCHEDULE r"
      "input_thread tod t = Some (r', u)" "main_inv tod u"
proof -
  have "lock_inv tod s" using s by (simp add: main_inv_def)
  then obtain r t where t: "codelock_thread tod s = Some (r, t)" "input_pt t = input_pt s"
      "input_timer t = input_timer s" "r = PT_WAITING \<and> lock_inv tod t \<or> r = PT_EXITED \<and> opened t"
    using codelock_thread_ok [OF clock, of s] by (auto simp: post_def)
  show thesis
  proof (cases "PT_SCHEDULE r")
    case False
    then show thesis using t(1,4) by (intro opens) (auto simp: PT_SCHEDULE_def)
  next
    case True
    then have "main_inv tod t" using t s by (auto simp: main_inv_def PT_SCHEDULE_def)
    from input_thread_ok [OF clock this] show thesis
      using goes_on [OF t(1) True] by (auto simp: input_returns_def)
  qed
qed

lemma turns_ok:
  "clock_ok tod \<Longrightarrow> main_inv tod s \<Longrightarrow>
   \<exists>going t. codelock_turns tod n s = Some (going, t) \<and>
     (if going then main_inv tod t else opened t \<and> codelock_loop tod s = Some t)"
proof (induction n arbitrary: s)
  case (Suc n)
  show ?case
  proof (cases rule: turn_ok [OF Suc.prems])
    case (1 r t)
    then show ?thesis by (subst codelock_loop.simps) (auto intro!: exI [of _ False])
  next
    case (2 r t r' u)
    then have "codelock_loop tod s = codelock_loop tod u" by (subst codelock_loop.simps) simp
    moreover have "codelock_turns tod (Suc n) s = codelock_turns tod n u" using 2 by simp
    ultimately show ?thesis using Suc.IH [OF Suc.prems(1) 2(4)] by (simp only:)
  qed
qed auto

text \<open>If the loop returns at all, it does so after some number of turns.\<close>

lemma loop_turns:
  assumes "codelock_loop tod s = Some t"
  shows "\<exists>n. codelock_turns tod n s = Some (False, t)"
  using assms
proof (rule codelock_loop.raw_induct [rotated])
  fix f tod s t
  assume IH: "\<And>tod s t. f tod s = Some t \<Longrightarrow> \<exists>n. codelock_turns tod n s = Some (False, t)"
    and run: "do {
      (r, s) \<leftarrow> codelock_thread tod s;
      if PT_SCHEDULE r then do { (r, s) \<leftarrow> input_thread tod s; f tod s } else Some s } = Some t"
  then obtain r u where u: "codelock_thread tod s = Some (r, u)"
      "(if PT_SCHEDULE r then input_thread tod u \<bind> (\<lambda>(r, s). f tod s) else Some u) = Some t"
    by (auto simp: bind_eq_Some_conv)
  show "\<exists>n. codelock_turns tod n s = Some (False, t)"
  proof (cases "PT_SCHEDULE r")
    case True
    then obtain r' w where w: "input_thread tod u = Some (r', w)" "f tod w = Some t"
      using u(2) by (auto simp: bind_eq_Some_conv)
    from IH [OF w(2)] obtain n where "codelock_turns tod n w = Some (False, t)" by blast
    then show ?thesis using u(1) w(1) True by (intro exI [of _ "Suc n"]) simp
  next
    case False
    then show ?thesis using u by (intro exI [of _ "Suc 0"]) simp
  qed
qed

lemma main_inv_start: "main_inv tod lock_start"
  using lock_inv_start [of tod] by (simp add: main_inv_def lock_start_def PT_INIT_def)

text \<open>
  C35. The program as a whole, with its simulated user and a clock two of whose readings can be
  subtracted: any number of turns of \<open>main\<close> runs without an undefined operation and without a
  call that hangs; \<open>main\<close> returns exactly when some turn opens the lock, and then \<open>1\<close>, \<open>4\<close>, \<open>2\<close>,
  \<open>3\<close> were pressed in this order and recognised one after the other.
\<close>

theorem codelock_main_opens:
  assumes "clock_ok tod"
  shows "(\<exists>going t. codelock_turns tod n lock_start = Some (going, t)) \<and>
    (codelock_main tod = Some t \<longleftrightarrow> (\<exists>n. codelock_turns tod n lock_start = Some (False, t))) \<and>
    (codelock_main tod = Some t \<longrightarrow> subseq code (pressed t) \<and>
       suffix (map Correct_key code @ [Correct_code, Unlocked]) (lock_lines t))"
proof -
  have main: "codelock_main tod = codelock_loop tod lock_start"
    by (simp add: codelock_main_def lock_start_def)
  note turns = turns_ok [OF assms main_inv_start]
  have iff: "codelock_main tod = Some t \<longleftrightarrow> (\<exists>n. codelock_turns tod n lock_start = Some (False, t))"
  proof
    assume "codelock_main tod = Some t"
    then show "\<exists>n. codelock_turns tod n lock_start = Some (False, t)" using loop_turns main by simp
  next
    assume "\<exists>n. codelock_turns tod n lock_start = Some (False, t)"
    then obtain n where "codelock_turns tod n lock_start = Some (False, t)" by blast
    then show "codelock_main tod = Some t" using turns [of n] main by auto
  qed
  moreover have "opened t" if "codelock_main tod = Some t"
  proof -
    from that iff obtain n where "codelock_turns tod n lock_start = Some (False, t)" by blast
    then show ?thesis using turns [of n] by auto
  qed
  ultimately show ?thesis using turns [of n] by (auto simp: opened_def)
qed

theorem codelock_main_opens_witness:
  "\<exists>going t. codelock_turns slow_clock 1000 lock_start = Some (going, t)"
  using codelock_main_opens [OF slow_clock_ok] by blast

end
