(* ===== verification/CodeLockDemo.thy ===== *)
theory CodeLockDemo
  imports CodeLockMain
begin

text \<open>
  The code lock against the simulated user, for every clock that is read often enough: what the
  lock says is a function of the script alone.
\<close>

section \<open>The clock\<close>

text \<open>Never backwards, and at most 50 ms from one reading to the next.\<close>

definition steady :: "clock \<Rightarrow> bool" where
  "steady tod \<longleftrightarrow> clock_ok tod \<and>
     (\<forall>i \<ge> 0. ms tod i \<le> ms tod (i + 1) \<and> ms tod (i + 1) \<le> ms tod i + 50)"

lemma steady_ok: "steady tod \<Longrightarrow> clock_ok tod"
  by (simp add: steady_def)

lemma steady_nat:
  assumes "steady tod" "0 \<le> i"
  shows "ms tod i \<le> ms tod (i + int d) \<and> ms tod (i + int d) \<le> ms tod i + 50 * int d"
proof (induction d)
  case (Suc d)
  have "ms tod (i + int d) \<le> ms tod (i + int d + 1) \<and> ms tod (i + int d + 1) \<le> ms tod (i + int d) + 50"
    using assms by (simp add: steady_def)
  moreover have e: "i + int (Suc d) = i + int d + 1" by simp
  ultimately show ?case unfolding e using Suc by simp
qed simp

lemma steady_le:
  assumes "steady tod" "0 \<le> i" "i \<le> j"
  shows "ms tod i \<le> ms tod j" "ms tod j \<le> ms tod i + 50 * (j - i)"
  using steady_nat [OF assms(1,2), of "nat (j - i)"] assms(3) by simp_all

lemma steady_next:
  assumes "steady tod" "0 \<le> i"
  shows "ms tod i \<le> ms tod (i + 1) \<and> ms tod (i + 1) \<le> ms tod i + 50"
    "ms tod i \<le> ms tod (i + 2) \<and> ms tod (i + 2) \<le> ms tod i + 100"
    "ms tod i \<le> ms tod (i + 3) \<and> ms tod (i + 3) \<le> ms tod i + 150"
  using steady_le [OF assms, of "i + 1"] steady_le [OF assms, of "i + 2"] steady_le [OF assms, of "i + 3"] by simp_all

lemma expired_iff:
  assumes "clock_ok tod" "S \<in> range (ms tod)"
  shows "timer_expired tod \<lparr>timer_start = S, timer_interval = I\<rparr> s
    = Some (S + I \<le> ms tod (ticks s), s\<lparr>ticks := ticks s + 1\<rparr>)"
proof -
  have "int_minus (ms tod (ticks s)) S = Some (ms tod (ticks s) - S)"
    using assms by (auto simp: int_minus_def clock_ok_def)
  then show ?thesis by (auto simp: timer_expired_eq)
qed

lemma say_ticks [simp]: "ticks (say m s) = ticks s"
  by (simp add: say_def)

section \<open>One call of the lock\<close>

text \<open>The lock waits with \<open>k\<close> keys recognised; for \<open>k > 0\<close> its timer was started at \<open>S\<close>.\<close>

definition patience :: "nat \<Rightarrow> int" where
  "patience k = (if k = 4 then 500 else 1000)"

definition lock_at :: "clock \<Rightarrow> nat \<Rightarrow> int \<Rightarrow> cl \<Rightarrow> bool" where
  "lock_at tod k S s \<longleftrightarrow> k \<le> 4 \<and> keys s = k \<and>
     codelock_pt s = (if k = 0 then 163 else if k = 4 then 228 else 180) \<and>
     (0 < k \<longrightarrow> S \<in> range (ms tod) \<and> codelock_timer s = \<lparr>timer_start = S, timer_interval = patience k\<rparr>)"

lemma for_first: "keys s = 0 \<Longrightarrow> key_pressed_flag s = 0 \<Longrightarrow>
    codelock_for tod s = Some (PT_WAITING, s\<lparr>codelock_pt := 163\<rparr>)"
  by (simp add: codelock_for.simps [of tod s] codelock_test_def length_code codelock_first_def
      PT_WAIT_UNTIL_def key_pressed_def)

lemma for_next:
  assumes "steady tod" "0 \<le> ticks s" "keys s \<in> {1..3}" "key_pressed_flag s = 0"
  shows "codelock_for tod s = Some (PT_WAITING, s\<lparr>codelock_pt := 180,
    codelock_timer := \<lparr>timer_start = ms tod (ticks s), timer_interval = 1000\<rparr>, ticks := ticks s + 2\<rparr>)"
  using assms(2-) steady_next [OF assms(1,2)]
  by (simp add: codelock_for.simps [of tod s] codelock_test_def length_code codelock_next_def
      PT_WAIT_UNTIL_def key_or_timeout_def key_pressed_def timer_set_codelock expired_iff [OF steady_ok [OF assms(1)]])

lemma for_done:
  assumes "steady tod" "0 \<le> ticks s" "keys s = 4" "key_pressed_flag s = 0"
  shows "codelock_for tod s = Some (PT_WAITING, (say Correct_code s)\<lparr>codelock_pt := 228,
    codelock_timer := \<lparr>timer_start = ms tod (ticks s), timer_interval = 500\<rparr>, ticks := ticks s + 2\<rparr>)"
  using assms(2-) steady_next [OF assms(1,2)]
  by (simp add: codelock_for.simps [of tod s] codelock_test_def length_code codelock_entered_def codelock_final_def
      PT_WAIT_UNTIL_def key_or_timeout_def key_pressed_def timer_set_codelock say_def expired_iff [OF steady_ok [OF assms(1)]])

text \<open>What the lock makes of a key: the keys recognised then, and what it says.\<close>

definition key_result :: "nat \<Rightarrow> char \<Rightarrow> nat \<times> message list" where
  "key_result k c =
     (if k = 4 then (0, [Locked_again])
      else if c = code ! k then (Suc k, Correct_key c # (if k = 3 then [Correct_code] else []))
      else (0, [Incorrect_key c]))"

text \<open>The lock answers a call at \<open>s\<close> in \<open>t\<close>: it waits with \<open>k\<close> keys, having said \<open>said\<close>.\<close>

definition lock_moves :: "clock \<Rightarrow> nat \<Rightarrow> int \<Rightarrow> message list \<Rightarrow> cl \<Rightarrow> cl \<Rightarrow> bool" where
  "lock_moves tod k S said s t \<longleftrightarrow> codelock_thread tod s = Some (PT_WAITING, t) \<and> lock_at tod k S t \<and>
     key_pressed_flag t = 0 \<and> input_pt t = input_pt s \<and> input_timer t = input_timer s \<and>
     lock_lines t = lock_lines s @ said \<and> ticks s \<le> ticks t \<and> ticks t \<le> ticks s + 3"

lemma check_moves:
  assumes clock: "steady tod" "0 \<le> ticks s" and k: "keys s < 4" and flag: "key_pressed_flag s = 0"
    and res: "key_result (keys s) (key s) = (k', said)"
  shows "\<exists>t. codelock_check tod (codelock_for tod) s = Some (PT_WAITING, t) \<and> lock_at tod k' (ms tod (ticks s)) t \<and>
    key_pressed_flag t = 0 \<and> input_pt t = input_pt s \<and> input_timer t = input_timer s \<and>
    lock_lines t = lock_lines s @ said \<and> ticks s \<le> ticks t \<and> ticks t \<le> ticks s + 2"
proof (cases "key s = code ! keys s")
  case False
  then have r: "k' = 0" "said = [Incorrect_key (key s)]" using res k by (auto simp: key_result_def)
  show ?thesis
    using False k flag r
    by (auto simp: codelock_check_def codelock_entered_def codelock_while_def length_code for_first lock_at_def say_def
        lock_lines_def)
next
  case True
  let ?s = "(say (Correct_key (key s)) s)\<lparr>keys := keys s + 1\<rparr>"
  have call: "codelock_check tod (codelock_for tod) s = codelock_for tod ?s"
    using True k by (simp add: codelock_check_def length_code)
  show ?thesis
  proof (cases "keys s = 3")
    case True
    then have "keys ?s = 4" by simp
    then show ?thesis
      using \<open>key s = code ! keys s\<close> True res flag clock unfolding call
      by (auto simp: for_done say_def key_result_def lock_at_def patience_def lock_lines_def)
  next
    case False
    then have "keys ?s \<in> {1..3}" using k by auto
    then show ?thesis
      using \<open>key s = code ! keys s\<close> False k res flag clock unfolding call
      by (auto simp: for_next say_def key_result_def lock_at_def patience_def lock_lines_def)
  qed
qed


lemma lock_key:
  assumes clock: "steady tod" "0 \<le> ticks s" and at: "lock_at tod k S s" and flag: "key_pressed_flag s \<noteq> 0"
    and quick: "0 < k \<longrightarrow> ms tod (ticks s) < S + patience k"
    and res: "key_result k (key s) = (k', said)"
  shows "\<exists>S' t. lock_moves tod k' S' said s t \<and> ms tod (ticks s) \<le> S' \<and> S' \<le> ms tod (ticks t)"
proof -
  have k: "k \<le> 4" "keys s = k" using at by (simp_all add: lock_at_def)
  consider "k = 0" | "k \<in> {1..3}" | "k = 4" using k(1) by force
  then show ?thesis
  proof cases
    case 1
    let ?s = "s\<lparr>codelock_pt := 163, key_pressed_flag := 0\<rparr>"
    have "codelock_thread tod s = codelock_check tod (codelock_for tod) ?s"
      using at 1 flag by (simp add: lock_at_def codelock_thread_def codelock_first_def PT_WAIT_UNTIL_def key_pressed_def)
    then show ?thesis
      using check_moves [OF clock(1), of ?s k' said] 1 k res clock steady_le(1) [OF clock]
      by (fastforce simp: lock_moves_def)
  next
    case 2
    let ?s = "s\<lparr>codelock_pt := 180, key_pressed_flag := 0, ticks := ticks s + 1\<rparr>"
    have "codelock_thread tod s = codelock_check tod (codelock_for tod) ?s"
      using at 2 flag quick
      by (simp add: lock_at_def codelock_thread_def codelock_next_def codelock_timeout_def PT_WAIT_UNTIL_def
          key_or_timeout_def key_pressed_def expired_iff [OF steady_ok [OF clock(1)]])
    then show ?thesis
      using check_moves [OF clock(1), of ?s k' said] 2 k res clock steady_le(1) [OF clock]
        steady_le(1) [OF clock(1), of "ticks s + 1"]
      by (fastforce simp: lock_moves_def)
  next
    case 3
    let ?s = "(say Locked_again (s\<lparr>codelock_pt := 228, key_pressed_flag := 0, ticks := ticks s + 1\<rparr>))\<lparr>keys := 0\<rparr>"
    have "codelock_thread tod s = codelock_for tod ?s"
      using at 3 flag quick
      by (simp add: lock_at_def codelock_thread_def codelock_final_def codelock_open_def codelock_while_def PT_WAIT_UNTIL_def
          key_or_timeout_def key_pressed_def expired_iff [OF steady_ok [OF clock(1)]])
    then have "lock_moves tod k' S' said s (?s\<lparr>codelock_pt := 163\<rparr>)" for S'
      using res 3 by (simp add: lock_moves_def key_result_def for_first lock_at_def)
    then show ?thesis
      using steady_next(1) [OF clock]
      by (intro exI [of _ "ms tod (ticks s)"] exI [of _ "?s\<lparr>codelock_pt := 163\<rparr>"]) simp
  qed
qed

text \<open>Without a key it stays where it is until its timer has expired.\<close>

lemma lock_quiet:
  assumes clock: "steady tod" "0 \<le> ticks s" and at: "lock_at tod k S s" and flag: "key_pressed_flag s = 0"
    and early: "0 < k \<longrightarrow> ms tod (ticks s) < S + patience k"
  shows "\<exists>t. lock_moves tod k S [] s t \<and> ticks t \<le> ticks s + 1"
proof -
  have "k \<le> 4" using at by (simp add: lock_at_def)
  then consider "k = 0" | "k \<in> {1..3}" | "k = 4" by force
  then show ?thesis
  proof cases
    case 1
    then have "codelock_thread tod s = Some (PT_WAITING, s)"
      using at flag by (cases s) (simp add: lock_at_def codelock_thread_def codelock_first_def PT_WAIT_UNTIL_def key_pressed_def)
    then show ?thesis using at flag by (auto simp: lock_moves_def)
  next
    case 2
    then have "codelock_thread tod s = Some (PT_WAITING, s\<lparr>codelock_pt := 180, ticks := ticks s + 1\<rparr>)"
      using at flag early
      by (simp add: lock_at_def codelock_thread_def codelock_next_def PT_WAIT_UNTIL_def
          key_or_timeout_def key_pressed_def expired_iff [OF steady_ok [OF clock(1)]])
    then show ?thesis using at flag 2 by (auto simp: lock_moves_def lock_at_def)
  next
    case 3
    then have "codelock_thread tod s = Some (PT_WAITING, s\<lparr>codelock_pt := 228, ticks := ticks s + 1\<rparr>)"
      using at flag early
      by (simp add: lock_at_def codelock_thread_def codelock_final_def PT_WAIT_UNTIL_def
          key_or_timeout_def key_pressed_def expired_iff [OF steady_ok [OF clock(1)]])
    then show ?thesis using at flag 3 by (auto simp: lock_moves_def lock_at_def)
  qed
qed

lemma lock_timeout:
  assumes clock: "steady tod" "0 \<le> ticks s" and at: "lock_at tod k S s" "k \<in> {1..3}" and flag: "key_pressed_flag s = 0"
    and late: "S + 1000 \<le> ms tod (ticks s)"
  shows "\<exists>t. lock_moves tod 0 S [Timer_expired] s t"
proof -
  let ?s = "(say Timer_expired (s\<lparr>codelock_pt := 180, ticks := 2 + ticks s\<rparr>))\<lparr>keys := 0\<rparr>"
  have "codelock_thread tod s = codelock_for tod ?s"
    using at flag late steady_next(1) [OF clock]
    by (simp add: lock_at_def codelock_thread_def codelock_next_def codelock_timeout_def codelock_entered_def
        codelock_while_def length_code PT_WAIT_UNTIL_def key_or_timeout_def key_pressed_def patience_def
        expired_iff [OF steady_ok [OF clock(1)]])
  then have "lock_moves tod 0 S [Timer_expired] s (?s\<lparr>codelock_pt := 163\<rparr>)"
    using flag by (simp add: lock_moves_def for_first lock_at_def)
  then show ?thesis by blast
qed

lemma lock_opens:
  assumes clock: "steady tod" "0 \<le> ticks s" and at: "lock_at tod 4 S s" and flag: "key_pressed_flag s = 0"
    and late: "S + 500 \<le> ms tod (ticks s)"
  shows "\<exists>t. codelock_thread tod s = Some (PT_EXITED, t) \<and> lock_lines t = lock_lines s @ [Unlocked]"
  using at flag late steady_next(1) [OF clock]
  by (simp add: lock_at_def codelock_thread_def codelock_final_def codelock_open_def PT_EXIT_def PT_INIT_def
      PT_WAIT_UNTIL_def key_or_timeout_def key_pressed_def patience_def expired_iff [OF steady_ok [OF clock(1)]])


section \<open>The user's waits\<close>

text \<open>The rest of a turn from the call of the input thread on, and all turns after it.\<close>

definition rest_of :: "clock \<Rightarrow> cl \<Rightarrow> cl option" where
  "rest_of tod s = do { (r, s) \<leftarrow> input_thread tod s; codelock_loop tod s }"

definition script_at :: "clock \<Rightarrow> (lc_t \<times> char option \<times> int) list \<Rightarrow> cl \<Rightarrow> cl option" where
  "script_at tod xs s = do { (r, s) \<leftarrow> input_run tod xs s; codelock_loop tod s }"

text \<open>The input thread waits at \<open>line\<close> since \<open>T\<close>, for \<open>I\<close> ms; \<open>xs\<close> is the script after that.\<close>

definition waits :: "clock \<Rightarrow> (lc_t \<times> char option \<times> int) list \<Rightarrow> int \<Rightarrow> int \<Rightarrow> cl \<Rightarrow> bool" where
  "waits tod xs T I s \<longleftrightarrow> T \<in> range (ms tod) \<and> input_timer s = \<lparr>timer_start = T, timer_interval = I\<rparr> \<and>
     (\<exists>c J. suffix ((input_pt s, c, J) # xs) input_script) \<and> input_pt s \<noteq> 0"

lemma dropWhile_line:
  assumes "distinct (map fst ys)" "suffix ((l, c) # xs) ys"
  shows "dropWhile (\<lambda>(line, _, _). line \<noteq> l) ys = (l, c) # xs"
proof -
  obtain zs where ys: "ys = zs @ (l, c) # xs" using assms(2) by (auto simp: suffix_def)
  then have "line \<noteq> l" if "(line, x) \<in> set zs" for line x using assms(1) that by force
  then have "dropWhile (\<lambda>(line, _, _). line \<noteq> l) (zs @ (l, c) # xs) =
      dropWhile (\<lambda>(line, _, _). line \<noteq> l) ((l, c) # xs)"
    by (intro dropWhile_append2) auto
  then show ?thesis by (simp add: ys split_beta)
qed

lemma input_call:
  assumes clock: "steady tod" and w: "waits tod xs T I s"
  shows "input_thread tod s = (if T + I \<le> ms tod (ticks s) then input_run tod xs (s\<lparr>ticks := ticks s + 1\<rparr>)
    else Some (PT_WAITING, s\<lparr>ticks := ticks s + 1\<rparr>))"
proof -
  have "distinct (map fst input_script)" by code_simp
  moreover obtain c J where "suffix ((input_pt s, c, J) # xs) input_script" using w by (auto simp: waits_def)
  ultimately have "dropWhile (\<lambda>(line, _, _). line \<noteq> input_pt s) input_script = (input_pt s, c, J) # xs"
    by (rule dropWhile_line)
  then have "input_thread tod s = input_wait tod (input_pt s) (input_run tod xs) s"
    using w by (simp add: input_thread_def input_resume_def waits_def)
  moreover have "s\<lparr>input_pt := input_pt s\<rparr> = s" by simp
  ultimately show ?thesis
    using w by (simp add: input_wait_def PT_WAIT_UNTIL_def waits_def expired_iff [OF steady_ok [OF clock]])
qed

lemma rest_expired:
  "steady tod \<Longrightarrow> waits tod xs T I s \<Longrightarrow> T + I \<le> ms tod (ticks s) \<Longrightarrow>
   rest_of tod s = script_at tod xs (s\<lparr>ticks := ticks s + 1\<rparr>)"
  by (simp add: rest_of_def script_at_def input_call)

lemma rest_waits:
  "steady tod \<Longrightarrow> waits tod xs T I s \<Longrightarrow> ms tod (ticks s) < T + I \<Longrightarrow>
   rest_of tod s = codelock_loop tod (s\<lparr>ticks := ticks s + 1\<rparr>)"
  by (simp add: rest_of_def input_call)

lemma loop_moves:
  "lock_moves tod k S said s t \<Longrightarrow> codelock_loop tod s = rest_of tod t"
  by (subst codelock_loop.simps) (simp add: lock_moves_def rest_of_def PT_SCHEDULE_def)

lemma waits_moves: "waits tod xs T I s \<Longrightarrow> lock_moves tod k S said s t \<Longrightarrow> waits tod xs T I t"
  by (simp add: waits_def lock_moves_def)

lemma lock_at_ticks [simp]: "lock_at tod k S (s\<lparr>ticks := n\<rparr>) = lock_at tod k S s"
  by (simp add: lock_at_def)

lemma waits_ticks [simp]: "waits tod xs T I (s\<lparr>ticks := n\<rparr>) = waits tod xs T I s"
  by (simp add: waits_def)

text \<open>The state at the call of the input thread while the user waits.\<close>

definition idle :: "clock \<Rightarrow> (lc_t \<times> char option \<times> int) list \<Rightarrow> int \<Rightarrow> int \<Rightarrow> nat \<Rightarrow> int \<Rightarrow> cl \<Rightarrow> bool" where
  "idle tod xs T I k S s \<longleftrightarrow> waits tod xs T I s \<and> lock_at tod k S s \<and> key_pressed_flag s = 0 \<and> 0 \<le> ticks s"

text \<open>One turn in which neither timer has expired.\<close>

lemma quiet_turn:
  assumes clock: "steady tod" and s: "idle tod xs T I k S s" and wait: "ms tod (ticks s) < T + I"
    and early: "0 < k \<longrightarrow> ms tod (ticks s + 1) < S + patience k"
  shows "\<exists>t. rest_of tod s = rest_of tod t \<and> idle tod xs T I k S t \<and> lock_lines t = lock_lines s \<and>
    ticks s < ticks t \<and> ticks t \<le> ticks s + 2"
proof -
  let ?s = "s\<lparr>ticks := ticks s + 1\<rparr>"
  have "rest_of tod s = codelock_loop tod ?s" using rest_waits [OF clock _ wait, of xs] s by (simp add: idle_def)
  moreover obtain t where t: "lock_moves tod k S [] ?s t" "ticks t \<le> ticks s + 2"
    using lock_quiet [OF clock, of ?s k S] s early by (auto simp: idle_def)
  ultimately show ?thesis
    using loop_moves [OF t(1)] waits_moves [OF _ t(1), of xs T I] s t
    by (intro exI [of _ t]) (auto simp: idle_def lock_moves_def)
qed

text \<open>Such turns go on until one of the timers is about to be found expired.\<close>

lemma quiet_run:
  assumes clock: "steady tod" and N: "0 \<le> N" "T + I \<le> ms tod N" and s: "idle tod xs T I k S s"
  shows "\<exists>t. rest_of tod s = rest_of tod t \<and> idle tod xs T I k S t \<and> lock_lines t = lock_lines s \<and>
    (T + I \<le> ms tod (ticks t) \<or> 0 < k \<and> S + patience k \<le> ms tod (ticks t + 1)) \<and>
    (t = s \<or> ms tod (ticks t) < T + I + 100 \<and> (0 < k \<longrightarrow> ms tod (ticks t) < S + patience k + 50))"
  using s
proof (induction "nat (N - ticks s)" arbitrary: s rule: less_induct)
  case less
  show ?case
  proof (cases "T + I \<le> ms tod (ticks s) \<or> 0 < k \<and> S + patience k \<le> ms tod (ticks s + 1)")
    case True
    then show ?thesis using less.prems by blast
  next
    case False
    then have wait: "ms tod (ticks s) < T + I" and early: "0 < k \<longrightarrow> ms tod (ticks s + 1) < S + patience k" by auto
    have pos: "0 \<le> ticks s" using less.prems by (simp add: idle_def)
    obtain t where t: "rest_of tod s = rest_of tod t" "idle tod xs T I k S t" "lock_lines t = lock_lines s"
        "ticks s < ticks t" "ticks t \<le> ticks s + 2"
      using quiet_turn [OF clock less.prems wait early] by blast
    have "ticks s < N" using steady_le(1) [OF clock N(1), of "ticks s"] N(2) wait by linarith
    then have "nat (N - ticks t) < nat (N - ticks s)" using t(4) by simp
    note IH = less.hyps [OF this t(2)]
    have "ms tod (ticks t) < T + I + 100" "0 < k \<longrightarrow> ms tod (ticks t) < S + patience k + 50"
      using steady_le [OF clock pos, of "ticks t"] steady_le(2) [OF clock, of "ticks s + 1" "ticks t"] t(4,5) pos wait early
      by auto
    then show ?thesis using IH t by metis
  qed
qed


text \<open>The three ways a wait ends. A short one, or one in which the lock has nothing to wait for:\<close>

definition short_wait :: "nat \<Rightarrow> int \<Rightarrow> bool" where
  "short_wait k I \<longleftrightarrow> k = 0 \<or> I \<le> (if k = 4 then 150 else 600)"

lemma wait_short:
  assumes clock: "steady tod" and N: "0 \<le> N" "T + I \<le> ms tod N" and s: "idle tod xs T I k S s"
    and k: "short_wait k I" "0 < k \<longrightarrow> T \<le> S" and now: "ms tod (ticks s) \<le> T + I + 150"
  shows "\<exists>t. rest_of tod s = script_at tod xs t \<and> lock_at tod k S t \<and> key_pressed_flag t = 0 \<and>
    0 \<le> ticks t \<and> lock_lines t = lock_lines s \<and> ms tod (ticks t) \<le> T + I + 200"
proof -
  obtain t where t: "rest_of tod s = rest_of tod t" "idle tod xs T I k S t" "lock_lines t = lock_lines s"
      "T + I \<le> ms tod (ticks t) \<or> 0 < k \<and> S + patience k \<le> ms tod (ticks t + 1)"
      "t = s \<or> ms tod (ticks t) < T + I + 100"
    using quiet_run [OF clock N s] by blast
  have pos: "0 \<le> ticks t" using t(2) by (simp add: idle_def)
  note near = steady_next(1) [OF clock pos]
  have "k \<le> 4" using s by (simp add: idle_def lock_at_def)
  then have late: "T + I \<le> ms tod (ticks t)"
    using t(4) near k by (auto simp: short_wait_def patience_def split: if_splits)
  then have "rest_of tod t = script_at tod xs (t\<lparr>ticks := ticks t + 1\<rparr>)"
    using rest_expired [OF clock _ late, of xs] t(2) by (simp add: idle_def)
  then show ?thesis
    using t near pos now by (intro exI [of _ "t\<lparr>ticks := ticks t + 1\<rparr>"]) (auto simp: idle_def)
qed

text \<open>A long one: the lock's timer expires first.\<close>

lemma wait_late:
  assumes clock: "steady tod" and N: "0 \<le> N" "T + I \<le> ms tod N" and s: "idle tod xs T I k S s"
    and k: "0 < k" "patience k + 500 \<le> I" "S \<le> T + 250" and now: "ms tod (ticks s) \<le> T + 250"
  shows "\<exists>t. rest_of tod s = codelock_loop tod t \<and> waits tod xs T I t \<and> lock_at tod k S t \<and> key_pressed_flag t = 0 \<and>
    0 \<le> ticks t \<and> lock_lines t = lock_lines s \<and> S + patience k \<le> ms tod (ticks t) \<and> ms tod (ticks t) < T + I"
proof -
  obtain t where t: "rest_of tod s = rest_of tod t" "idle tod xs T I k S t" "lock_lines t = lock_lines s"
      "T + I \<le> ms tod (ticks t) \<or> 0 < k \<and> S + patience k \<le> ms tod (ticks t + 1)"
      "t = s \<or> ms tod (ticks t) < S + patience k + 50"
    using quiet_run [OF clock N s] k(1) by blast
  have pos: "0 \<le> ticks t" using t(2) by (simp add: idle_def)
  note near = steady_next(1) [OF clock pos]
  have "500 \<le> patience k" by (simp add: patience_def)
  then have wait: "ms tod (ticks t) + 50 < T + I" using t(5) k now by auto
  then have "rest_of tod t = codelock_loop tod (t\<lparr>ticks := ticks t + 1\<rparr>)"
    using rest_waits [OF clock, of xs T I t] t(2) by (simp add: idle_def)
  then show ?thesis
    using t(1-4) near pos wait by (intro exI [of _ "t\<lparr>ticks := ticks t + 1\<rparr>"]) (auto simp: idle_def)
qed

lemma wait_timeout:
  assumes clock: "steady tod" and N: "0 \<le> N" "T + I \<le> ms tod N" and s: "idle tod xs T I k S s"
    and k: "k \<in> {1..3}" "1500 \<le> I" "S \<le> T + 250" and now: "ms tod (ticks s) \<le> T + 250"
  shows "\<exists>t. rest_of tod s = script_at tod xs t \<and> lock_at tod 0 S t \<and> key_pressed_flag t = 0 \<and>
    0 \<le> ticks t \<and> lock_lines t = lock_lines s @ [Timer_expired] \<and> ms tod (ticks t) \<le> T + I + 200"
proof -
  have p: "patience k = 1000" using k(1) by (auto simp: patience_def)
  obtain t where t: "rest_of tod s = codelock_loop tod t" "waits tod xs T I t" "lock_at tod k S t" "key_pressed_flag t = 0"
      "0 \<le> ticks t" "lock_lines t = lock_lines s" "S + 1000 \<le> ms tod (ticks t)" "ms tod (ticks t) < T + I"
    using wait_late [OF clock N s] k now p by auto
  obtain u where u: "lock_moves tod 0 S [Timer_expired] t u"
    using lock_timeout [OF clock t(5,3) k(1) t(4,7)] by blast
  then have tu: "ticks t \<le> ticks u" "ticks u \<le> ticks t + 3" by (simp_all add: lock_moves_def)
  have "idle tod xs T I 0 S u" using u t(5) waits_moves [OF t(2) u] by (simp add: idle_def lock_moves_def)
  moreover have "ms tod (ticks u) \<le> T + I + 150" using steady_le [OF clock t(5) tu(1)] tu(2) t(8) by simp
  ultimately show ?thesis
    using wait_short [OF clock N, of xs 0 S u] loop_moves [OF u] u t(1,6)
    by (auto simp: short_wait_def lock_moves_def)
qed

lemma wait_opens:
  assumes clock: "steady tod" and N: "0 \<le> N" "T + I \<le> ms tod N" and s: "idle tod xs T I 4 S s"
    and k: "1000 \<le> I" "S \<le> T + 250" and now: "ms tod (ticks s) \<le> T + 250"
  shows "\<exists>t. rest_of tod s = Some t \<and> lock_lines t = lock_lines s @ [Unlocked]"
proof -
  obtain t where t: "rest_of tod s = codelock_loop tod t" "lock_at tod 4 S t" "key_pressed_flag t = 0"
      "0 \<le> ticks t" "lock_lines t = lock_lines s" "S + 500 \<le> ms tod (ticks t)"
    using wait_late [OF clock N s] k now by (auto simp: patience_def)
  obtain u where "codelock_thread tod t = Some (PT_EXITED, u)" "lock_lines u = lock_lines t @ [Unlocked]"
    using lock_opens [OF clock t(4,2,3,6)] by blast
  then show ?thesis unfolding t(1) by (subst codelock_loop.simps) (simp add: PT_SCHEDULE_def t(5))
qed

section \<open>The script\<close>

text \<open>What the lock says to a script, starting with \<open>k\<close> keys recognised.\<close>

definition script_key :: "nat \<Rightarrow> char option \<Rightarrow> nat \<times> message list" where
  "script_key k c = (case c of None \<Rightarrow> (k, []) | Some c \<Rightarrow> key_result k c)"

fun speak :: "nat \<Rightarrow> (lc_t \<times> char option \<times> int) list \<Rightarrow> message list option" where
  "speak k [] = None"
| "speak k ((line, c, I) # xs) = (let (k', said) = script_key k c in
     if I < 100 \<or> line = 0 \<or> c = None \<and> k \<noteq> 0 then None
     else if short_wait k' I then map_option ((@) said) (speak k' xs)
     else if k' = 4 then if 1000 \<le> I then Some (said @ [Unlocked]) else None
     else if 1500 \<le> I then map_option (\<lambda>r. said @ Timer_expired # r) (speak 0 xs) else None)"

text \<open>The key and the lock's answer to it.\<close>

lemma script_press:
  assumes clock: "steady tod" and script: "suffix ((line, c, I) # xs) input_script" "line \<noteq> 0"
    and s: "lock_at tod k S s" "key_pressed_flag s = 0" "0 \<le> ticks s"
    and quick: "0 < k \<longrightarrow> ms tod (ticks s) < S + patience k - 100" and c: "c = None \<longrightarrow> k = 0" and I: "100 \<le> I"
    and res: "script_key k c = (k', said)"
  shows "\<exists>S' t. script_at tod ((line, c, I) # xs) s = rest_of tod t \<and> idle tod xs (ms tod (ticks s)) I k' S' t \<and>
    lock_lines t = lock_lines s @ said \<and> ms tod (ticks t) \<le> ms tod (ticks s) + 250 \<and>
    (0 < k' \<longrightarrow> ms tod (ticks s) \<le> S' \<and> S' \<le> ms tod (ticks s) + 250)"
proof -
  let ?T = "ms tod (ticks s)"
  define s1 where "s1 = (case c of None \<Rightarrow> s | Some c \<Rightarrow> press_key c s)"
  define s3 where "s3 = s1\<lparr>input_timer := \<lparr>timer_start = ?T, timer_interval = I\<rparr>, input_pt := line, ticks := ticks s + 2\<rparr>"
  have ticks1: "ticks s1 = ticks s" by (simp add: s1_def press_key_def split: option.split)
  have "\<not> ?T + I \<le> ms tod (ticks s + 1)" using steady_next(1) [OF clock s(3)] I by simp
  then have "input_run tod ((line, c, I) # xs) s = Some (PT_WAITING, s3)"
    by (simp add: s1_def [symmetric] timer_set_input input_wait_def PT_WAIT_UNTIL_def ticks1 s3_def
        expired_iff [OF steady_ok [OF clock]])
  then have run: "script_at tod ((line, c, I) # xs) s = codelock_loop tod s3" by (simp add: script_at_def)
  have w: "waits tod xs ?T I s3" using script by (auto simp: waits_def s3_def)
  have at: "lock_at tod k S s3" using s(1) by (simp add: s3_def s1_def lock_at_def split: option.split)
  have lines: "lock_lines s3 = lock_lines s" by (simp add: s3_def s1_def split: option.split)
  have tick3: "ticks s3 = ticks s + 2" by (simp add: s3_def)
  have "\<exists>S' t. lock_moves tod k' S' said s3 t \<and> (0 < k' \<longrightarrow> ms tod (ticks s3) \<le> S' \<and> S' \<le> ms tod (ticks t))"
  proof (cases c)
    case None
    then have "key_pressed_flag s3 = 0" "k = 0" "k' = 0" "said = []"
      using s(2) c res by (simp_all add: s3_def s1_def script_key_def)
    then show ?thesis using lock_quiet [OF clock, of s3 k S] at s(3) tick3 by auto
  next
    case (Some ch)
    then have "key_pressed_flag s3 \<noteq> 0" "key s3 = ch" by (simp_all add: s3_def s1_def)
    moreover have "0 < k \<longrightarrow> ms tod (ticks s3) < S + patience k" using quick steady_next(2) [OF clock s(3)] tick3 by auto
    ultimately show ?thesis
      using lock_key [OF clock _ at] res Some s(3) tick3 by (fastforce simp: script_key_def)
  qed
  then obtain S' t where t: "lock_moves tod k' S' said s3 t"
      "0 < k' \<longrightarrow> ms tod (ticks s3) \<le> S' \<and> S' \<le> ms tod (ticks t)" by blast
  have tt: "ticks s \<le> ticks t" "ticks t \<le> ticks s + 5" using t(1) tick3 by (simp_all add: lock_moves_def)
  then have "ms tod (ticks t) \<le> ?T + 250" "?T \<le> ms tod (ticks s3)"
    using steady_le(2) [OF clock s(3) tt(1)] steady_next(2) [OF clock s(3)] tick3 by simp_all
  then show ?thesis
    using run loop_moves [OF t(1)] waits_moves [OF w t(1)] t lines tt s(3)
    by (intro exI [of _ S'] exI [of _ t]) (auto simp: idle_def lock_moves_def)
qed

definition total :: "(lc_t \<times> char option \<times> int) list \<Rightarrow> int" where
  "total xs = sum_list (map (\<lambda>(_, _, I). I + 200) xs)"

lemma total_script: "suffix xs input_script \<Longrightarrow> 0 \<le> total xs"
proof -
  assume xs: "suffix xs input_script"
  have "\<forall>(l, c, I) \<in> set input_script. 0 \<le> I" by (simp add: input_script_def)
  then have "0 \<le> I" if "(l, c, I) \<in> set xs" for l c I
    using set_mono_suffix [OF xs] that by fastforce
  then show ?thesis unfolding total_def by (intro sum_list_nonneg) fastforce
qed

lemma speak_run:
  assumes clock: "steady tod" and N: "0 \<le> N"
  shows "speak k xs = Some said \<Longrightarrow> suffix xs input_script \<Longrightarrow> lock_at tod k S s \<Longrightarrow> key_pressed_flag s = 0 \<Longrightarrow>
    0 \<le> ticks s \<Longrightarrow> 0 < k \<longrightarrow> ms tod (ticks s) < S + patience k - 100 \<Longrightarrow> ms tod (ticks s) + total xs \<le> ms tod N \<Longrightarrow>
    \<exists>t. script_at tod xs s = Some t \<and> lock_lines t = lock_lines s @ said"
proof (induction xs arbitrary: k S s said)
  case (Cons x xs)
  obtain line c I where x: "x = (line, c, I)" by (cases x)
  obtain k' heard where res: "script_key k c = (k', heard)" by (cases "script_key k c")
  have ok: "100 \<le> I" "line \<noteq> 0" "c = None \<longrightarrow> k = 0" using Cons.prems(1) res by (auto simp: x split: if_splits)
  let ?T = "ms tod (ticks s)"
  obtain S' t where t: "script_at tod (x # xs) s = rest_of tod t" "idle tod xs ?T I k' S' t"
      "lock_lines t = lock_lines s @ heard" "ms tod (ticks t) \<le> ?T + 250" "0 < k' \<longrightarrow> ?T \<le> S' \<and> S' \<le> ?T + 250"
    using script_press [OF clock _ ok(2) Cons.prems(3-6) ok(3,1) res] Cons.prems(2) x by blast
  have xs: "suffix xs input_script" using Cons.prems(2) by (rule suffix_ConsD)
  have sum: "?T + I + 200 + total xs \<le> ms tod N" using Cons.prems(7) by (simp add: x total_def)
  then have fin: "?T + I \<le> ms tod N" using total_script [OF xs] by simp
  have k': "k' \<le> 4" using t(2) by (simp add: idle_def lock_at_def)
  have go: "\<exists>u. script_at tod (x # xs) s = Some u \<and> lock_lines u = lock_lines s @ said"
    if u: "rest_of tod t = script_at tod xs u" "lock_at tod j S' u" "key_pressed_flag u = 0" "0 \<le> ticks u"
      "lock_lines u = lock_lines t @ more" "ms tod (ticks u) \<le> ?T + I + 200"
      and j: "0 < j \<longrightarrow> ?T + I + 300 < S' + patience j" and rest: "speak j xs = Some later" "said = heard @ more @ later"
    for u j more later
  proof -
    have "\<exists>t. script_at tod xs u = Some t \<and> lock_lines t = lock_lines u @ later"
      using u(6) j sum by (intro Cons.IH [OF rest(1) xs u(2-4)]) auto
    then show ?thesis using t(1,3) u(1,5) rest(2) by simp
  qed
  consider (short) "short_wait k' I" | (opens) "\<not> short_wait k' I" "k' = 4" | (late) "\<not> short_wait k' I" "k' \<in> {1..3}"
    using k' by (fastforce simp: short_wait_def)
  then show ?case
  proof cases
    case short
    then obtain later where later: "speak k' xs = Some later" "said = heard @ later"
      using Cons.prems(1) res ok by (auto simp: x)
    have "0 < k' \<longrightarrow> ?T + I + 300 < S' + patience k'" using short t(5) by (auto simp: short_wait_def patience_def split: if_splits)
    moreover obtain u where "rest_of tod t = script_at tod xs u" "lock_at tod k' S' u" "key_pressed_flag u = 0" "0 \<le> ticks u"
        "lock_lines u = lock_lines t" "ms tod (ticks u) \<le> ?T + I + 200"
      using wait_short [OF clock N fin t(2) short] t(4,5) ok(1) by auto
    ultimately show ?thesis using go [of u k' "[]" later] later by simp
  next
    case opens
    then have "1000 \<le> I" "said = heard @ [Unlocked]" using Cons.prems(1) res ok by (auto simp: x split: if_splits)
    then show ?thesis using wait_opens [OF clock N fin, of xs S' t] t opens(2) by auto
  next
    case late
    then obtain later where later: "1500 \<le> I" "speak 0 xs = Some later" "said = heard @ Timer_expired # later"
      using Cons.prems(1) res ok by (auto simp: x split: if_splits)
    obtain u where "rest_of tod t = script_at tod xs u" "lock_at tod 0 S' u" "key_pressed_flag u = 0" "0 \<le> ticks u"
        "lock_lines u = lock_lines t @ [Timer_expired]" "ms tod (ticks u) \<le> ?T + I + 200"
      using wait_timeout [OF clock N fin t(2) late(2) later(1)] t(4,5) late(2) by auto
    then show ?thesis using go [of u 0 "[Timer_expired]" later] later by simp
  qed
qed simp

section \<open>The simulated user\<close>

definition verdicts :: "message list" where
  "verdicts =
    [Correct_key CHR ''1'', Incorrect_key CHR ''2'', Incorrect_key CHR ''3'',
     Correct_key CHR ''1'', Correct_key CHR ''4'', Correct_key CHR ''2'', Timer_expired,
     Incorrect_key CHR ''3''] @
    map Correct_key ''1423'' @ [Correct_code, Locked_again] @
    map Correct_key ''1423'' @ [Correct_code, Unlocked]"

lemma speak_script: "speak 0 input_script = Some verdicts"
  by code_simp

lemma main_script:
  "\<exists>s. codelock_main tod = script_at tod input_script s \<and> lock_at tod 0 0 s \<and> key_pressed_flag s = 0 \<and>
    ticks s = 0 \<and> lock_lines s = []"
proof -
  let ?s = "say Waiting_first (lock_start\<lparr>keys := 0, codelock_pt := 163\<rparr>)"
  have "codelock_thread tod lock_start = Some (PT_WAITING, lock_start\<lparr>keys := 0, codelock_pt := 163\<rparr>)"
    by (simp add: lock_start_def cl_zero_def PT_INIT_def codelock_thread_def codelock_while_def for_first)
  then have "codelock_main tod = script_at tod input_script ?s"
    unfolding codelock_main_def lock_start_def [symmetric]
    by (subst codelock_loop.simps)
      (simp add: PT_SCHEDULE_def script_at_def input_thread_def lock_start_def cl_zero_def PT_INIT_def)
  then show ?thesis
    by (intro exI [of _ ?s]) (simp add: lock_at_def lock_start_def cl_zero_def PT_INIT_def lock_lines_def say_def)
qed

text \<open>A clock that advances by 40 ms with every reading, for 16 s.\<close>

definition brisk_clock :: clock where
  "brisk_clock n = (let t = 40 * max 0 (min n 400) in (t div 1000, t mod 1000 * 1000))"

lemma brisk_clock_ms: "ms brisk_clock n = 40 * max 0 (min n 400)"
proof -
  define k where "k = 40 * max 0 (min n 400)"
  have "0 \<le> k" "k \<le> 16000" by (simp_all add: k_def)
  then have "k div 1000 * 1000 + k mod 1000 * 1000 div 1000 = k" "signed_take_bit 31 k = k"
    by (simp, simp add: signed_take_bit_int_eq_self)
  then show ?thesis by (simp add: ms_def brisk_clock_def to_int_def flip: k_def)
qed

lemma brisk_clock_steady: "steady brisk_clock"
  by (auto simp: steady_def clock_ok_def brisk_clock_ms max_def min_def)

text \<open>
  C38. The whole program ends, for every clock two of whose readings can be subtracted, that
  never goes backwards, advances by at most 50 ms from one reading to the next and runs for 15 s: the lock rejects the wrong keys, gives up
  when the user pauses for two seconds, stays locked when a key follows the code at once, and
  opens after the last attempt. Its verdicts are the same for all these clocks.
\<close>

theorem codelock_demo:
  assumes "steady tod" "0 \<le> N" "ms tod 0 + 15000 \<le> ms tod N"
  shows "\<exists>t. codelock_main tod = Some t \<and> lock_lines t =
    [Correct_key CHR ''1'', Incorrect_key CHR ''2'', Incorrect_key CHR ''3'',
      Correct_key CHR ''1'', Correct_key CHR ''4'', Correct_key CHR ''2'', Timer_expired,
      Incorrect_key CHR ''3''] @
    map Correct_key ''1423'' @ [Correct_code, Locked_again] @
    map Correct_key ''1423'' @ [Correct_code, Unlocked]"
proof -
  obtain s where s: "codelock_main tod = script_at tod input_script s" "lock_at tod 0 0 s" "key_pressed_flag s = 0"
      "ticks s = 0" "lock_lines s = []"
    using main_script by blast
  have "total input_script = 14500" by (simp add: total_def input_script_def)
  then have "\<exists>t. script_at tod input_script s = Some t \<and> lock_lines t = lock_lines s @ verdicts"
    using s assms(3) by (intro speak_run [OF assms(1,2) speak_script]) simp_all
  then show ?thesis using s(1,5) by (simp add: verdicts_def)
qed

theorem codelock_demo_witness:
  "\<exists>t. codelock_main brisk_clock = Some t \<and> lock_lines t =
    [Correct_key CHR ''1'', Incorrect_key CHR ''2'', Incorrect_key CHR ''3'',
      Correct_key CHR ''1'', Correct_key CHR ''4'', Correct_key CHR ''2'', Timer_expired,
      Incorrect_key CHR ''3''] @
    map Correct_key ''1423'' @ [Correct_code, Locked_again] @
    map Correct_key ''1423'' @ [Correct_code, Unlocked]"
  by (rule codelock_demo [OF brisk_clock_steady, of 400]) (simp_all add: brisk_clock_ms)

end
