(* ===== verification/Spec2Isabelle.thy ===== *)
theory Spec2Isabelle
  imports FileSystem Relocation Endurance DoubleCopy Exhaustion SecondInit BufferDriver SmallExample CodeLockMain CodeLockDemo
begin

text \<open>
  A model of the flash variable store \<^verbatim>\<open>wormvars\<close>, of the board stubs it is tested on, and of
  the protothread library it uses, with the theorems that make them correct. Paths are relative
  to the directory \<^verbatim>\<open>src\<close> of the repository.

  \<^bold>\<open>The program.\<close> \<^verbatim>\<open>wormvars/wormvars.c\<close> keeps variables, named by 16 bits and a 3-bit extension,
  in blocks of 32 bytes on a NOR flash of eight 4 KB sectors: a 4-byte header and 28 bytes of
  data. A write appends a block to the active sector, then makes the former block of the
  variable invalid; both are done by clearing bits. Full sectors are emptied by the protothread
  \<^verbatim>\<open>fs_thread\<close>, which copies the variables that are still live with \<^verbatim>\<open>fs_write\<close> and erases the
  sector; \<^verbatim>\<open>fs_write\<close> itself starts the thread when it leaves a full sector. \<^verbatim>\<open>fs_init\<close> rebuilds the
  index in RAM from the flash and repairs what a power cut left. The flash, the timer and the
  checksum are board support (\<^verbatim>\<open>include/\<close>); \<^verbatim>\<open>ll_mock/\<close> implements it for the tests.

  \<^bold>\<open>Conventions.\<close> C integers of fixed width are words; \<open>int\<close> results are \<^typ>\<open>int\<close>. A routine that
  changes state takes it and returns it. \<open>None\<close> means that the C call has no defined result: a
  busy wait that never ends, an access outside a buffer, a signed overflow. The theorems that
  an operation works therefore all say that it returns \<open>Some\<close>.

  \<^bold>\<open>Theories and code.\<close>
  \<^item> \<^verbatim>\<open>WV_Prelude\<close>: the integer types of \<^verbatim>\<open>include/type.h\<close>, \<open>memcpy\<close>, general lemmas.
  \<^item> \<^verbatim>\<open>Blocks\<close>: the packed block header of \<^verbatim>\<open>wormvars/wvars_structs.h\<close> as a record and as bytes,
    \<open>checkBlock\<close> and \<open>updateBlockHash\<close>; their verdicts, and the flag changes that need no erase.
  \<^item> \<^verbatim>\<open>Geometry\<close>: the sectors and their addresses; \<open>slot_addr m\<close> is the address of block \<open>m\<close> of 1024.
  \<^item> \<^verbatim>\<open>Hal\<close>: the board interface as a record of functions, and the locale \<open>flash_device\<close> of the laws
    of a NOR flash, over which everything about the file system is proved once.
  \<^item> \<^verbatim>\<open>Journal\<close>: a device that records every image it goes through. It obeys the laws of
    \<open>flash_device\<close> for any set of admissible images, so that what holds of the images of a call
    holds at a power cut between any two flash operations.
  \<^item> \<^verbatim>\<open>FlashMock\<close>: \<^verbatim>\<open>ll_mock/FlashMock.cc\<close>, \<^verbatim>\<open>FlashMock.h\<close>, \<^verbatim>\<open>flash.cc\<close>, \<^verbatim>\<open>timer.c\<close>, \<^verbatim>\<open>crc32.c\<close>; the mock is a
    \<open>flash_device\<close>, plain and recorded.
  \<^item> \<^verbatim>\<open>FsState\<close>, \<^verbatim>\<open>FsInit\<close>, \<^verbatim>\<open>FsOps\<close>: the object \<open>Fs\<close> of \<^verbatim>\<open>wormvars.c\<close> and its routines: start-up;
    \<open>updateSector\<close>, \<open>fs_write\<close>, \<open>fs_read\<close>, \<open>findRelocSector\<close>, \<open>fs_thread\<close>.
  \<^item> \<^verbatim>\<open>Images\<close>: what a flash image means. A block is live for a variable when it is valid and
    carries its name; \<open>flash_vars\<close> is the map of variables an image holds, where of two live blocks
    the one flagged newer decides, as at start-up.
  \<^item> \<^verbatim>\<open>FsInv\<close>, \<^verbatim>\<open>FsWrite\<close>, \<^verbatim>\<open>RelocSector\<close>, \<^verbatim>\<open>FsThread\<close>, \<^verbatim>\<open>FsRead\<close>, \<^verbatim>\<open>Recovery\<close>: the invariant \<open>fs_ok\<close> (the
    index describes the image, the image has a well-formed layout, the thread knows what it is
    doing at the line it is suspended at) and, for each routine, that it keeps the invariant and
    what it does to the map of variables.
  \<^item> \<^verbatim>\<open>Relocation\<close>: the relocation comes to its end when the active sector has room, and never when
    all sectors are full.
  \<^item> \<^verbatim>\<open>Running\<close>: the shape of the reachable states, which keeps array accesses in bounds; a reboot
    between calls rebuilds the index and writes nothing; a jammed store stays jammed.
  \<^item> \<^verbatim>\<open>Endurance\<close>: with two calls of \<open>fs_thread\<close> after each write and each power cycle, no write is
    ever refused. The bound counts, for a thread that is making room, the blocks used in the active
    sector, the variables left to move and the calls until a sector is chosen; 300 variables in
    six full sectors leave one with at most 50, so that the bound starts at 202 with a new active
    sector, and as long as it is at most 256 that sector is not full. What happens when the thread
    is not called is \<open>full_store_jams\<close> in \<^verbatim>\<open>Relocation\<close>.
  \<^item> \<^verbatim>\<open>DoubleCopy\<close>: \<open>fs_write\<close> and \<open>fs_thread\<close> call each other; at the end of a sector a block is
    copied twice.
  \<^item> \<^verbatim>\<open>FileSystem\<close>: the mocked system as a step relation (calls, power cuts, reboots), the abstract
    map of variables, and the refinement between them. \<^verbatim>\<open>Boards\<close>: concrete flash contents for the
    examples. \<^verbatim>\<open>Exhaustion\<close>: what happens beyond 300 variables: the refused block stays under the
    write pointer, and the next write mixes with it. \<^verbatim>\<open>SecondInit\<close>: \<open>fs_init\<close> called on a running
    system invalidates every block. These are outside the step relation.
  \<^item> \<^verbatim>\<open>Protothreads\<close>, \<^verbatim>\<open>PtSem\<close>: the macros of \<^verbatim>\<open>pt-1.4/pt.h\<close>, \<^verbatim>\<open>lc-switch.h\<close> and \<^verbatim>\<open>pt-sem.h\<close> as combinators
    over the setter of the continuation.
  \<^item> \<^verbatim>\<open>BufferExample\<close>, \<^verbatim>\<open>BufferProof\<close>, \<^verbatim>\<open>BufferDriver\<close>: \<^verbatim>\<open>pt-1.4/example-buffer.c\<close>. \<^verbatim>\<open>SmallExample\<close>:
    \<^verbatim>\<open>pt-1.4/example-small.c\<close>. \<^verbatim>\<open>CodeLock\<close>, \<^verbatim>\<open>CodeLockProof\<close>, \<^verbatim>\<open>CodeLockMain\<close>: \<^verbatim>\<open>pt-1.4/example-codelock.c\<close>,
    safe for any keys and any clock; \<^verbatim>\<open>CodeLockDemo\<close>: its run with the simulated user, for every clock
    of which two successive readings are at most 50 ms apart.

  \<^bold>\<open>Protothreads.\<close> \<open>wormvars.h\<close> asks for \<^verbatim>\<open>lc-addrlabels.h\<close> but \<^verbatim>\<open>lc.h\<close> looks at another macro, so
  continuations are line numbers and resuming is a \<open>switch\<close>. A protothread is cut at its blocking
  macros, one definition per piece; its last definition is the jump table of \<open>PT_BEGIN\<close>.

  \<^bold>\<open>Bounds.\<close> \<open>fs_write\<close> and \<open>fs_thread\<close> call each other. The model bounds the nesting by 2, and
  \<open>fs_write_recursion\<close> shows that any larger bound gives the same function: the nested
  \<open>fs_write\<close> finds a sector that is not full and does not start the thread again. No other
  routine has a bound; the loops end by a measure, or are partial functions whose return is proved.

  \<^bold>\<open>Assumptions.\<close> A flash operation, the write of at most one block or the erase of one sector, is
  atomic: a power cut falls between two operations. The checksum \<open>crc32_calc\<close> is any function where it is a parameter; the stub of
  \<^verbatim>\<open>ll_mock/crc32.c\<close> is used to evaluate examples. The data that \<open>fs_thread\<close> passes to \<open>fs_write\<close>
  lies in \<open>Fs.reloc.buffer\<close>, which the nested call of \<open>fs_thread\<close> could overwrite; it does not,
  since that call resumes at the same line and does not read a block, so the model passes the
  bytes. The order in which C evaluates the operands of \<open>&\<close> in \<^verbatim>\<open>example-buffer.c\<close>, and the answers
  of \<open>gettimeofday\<close> in \<^verbatim>\<open>example-codelock.c\<close>, are parameters.

  \<^bold>\<open>Not modelled.\<close> Debug output and the debug builds (\<open>DEBUG_SMALL_SECTORS\<close>, \<open>DEBUG_FSWRITE_SLOW\<close>,
  \<open>DEBUG_WRITE_DURING_RELOC\<close>); structures of \<^verbatim>\<open>wvars_structs.h\<close> that no code uses;
  \<^verbatim>\<open>lc-addrlabels.h\<close>, which is not compiled; the sleeping in the examples; the unit tests.
\<close>

section \<open>The file system on the mocked board\<close>

text \<open>
  C1. Refinement. Every call of the system, and every power cut in the middle of one followed by
  a reboot, is a step of the abstract store: a map from (name, 3-bit extension) to 28 bytes.
  Writes update the map or refuse and leave it, reads return what it holds, relocation and
  reboots leave it alone, and an interrupted write happens wholly or not at all.
\<close>

theorem file_system_refines_store:
  assumes "mock_fs crc v s" "sys_step crc s e s'"
  shows "\<exists>v'. store_step v e v' \<and> mock_fs crc v' s'"
  using refines_step [OF assms] .

text \<open>The state after one write to a fresh board, for the witnesses below.\<close>

definition one_var :: "key \<Rightarrow> bytes option" where
  "one_var = [Key 0x1234 1 \<mapsto> stored [1, 2, 3] 3]"

lemma fresh_not_full: "\<not> all_full fresh" "has_fd fresh name ext"
proof -
  have "map_option (\<lambda>s. (SECTOR_IS_FULL s 0, curr_fd_index s)) (boot (mock_hal crc32_calc_stub) FlashMock_new)
      = Some (False, 0)" by code_simp
  then have "\<not> SECTOR_IS_FULL fresh 0" "curr_fd_index fresh = 0" by (simp_all add: fresh_boot)
  then show "\<not> all_full fresh" "has_fd fresh name ext" by (auto simp: all_full_def has_fd_def)
qed

lemma fresh_write:
  obtains s where "fs_write (mock_hal crc32_calc_stub) 0x1234 1 [1, 2, 3] 3 fresh = Some (0, s)"
    "mock_fs crc32_calc_stub one_var s"
  using write_mock [OF fresh_ok, of 3 "[1, 2, 3]" "0x1234" 1] fresh_not_full
  by (auto simp: one_var_def)

theorem file_system_refines_store_witness:
  "\<exists>s v. sys_step crc32_calc_stub fresh (Wrote 0x1234 1 [1, 2, 3] 3 0) s \<and>
     store_step Map.empty (Wrote 0x1234 1 [1, 2, 3] 3 0) v \<and> mock_fs crc32_calc_stub v s"
proof -
  obtain s where s: "fs_write (mock_hal crc32_calc_stub) 0x1234 1 [1, 2, 3] 3 fresh = Some (0, s)"
    by (rule fresh_write)
  have "sys_step crc32_calc_stub fresh (Wrote 0x1234 1 [1, 2, 3] 3 0) s"
    by (rule do_write [OF _ _ s]) (simp_all add: fresh_not_full)
  with file_system_refines_store [OF fresh_ok this] show ?thesis by blast
qed

text \<open>
  C8. The invariant of the running system holds in every state that calls, relocation steps,
  reboots and power cuts reach from a blank board; and in such a state no call can hang or run
  out of its buffers: the relocation thread and a reboot always return.
\<close>

theorem reachable_invariant:
  assumes "reachable crc s"
  shows "\<exists>v. mock_fs crc v s \<and>
    (\<forall>flag. \<exists>r s'. fs_thread (mock_hal crc) flag s = Some (r, s') \<and> mock_fs crc v s') \<and>
    (\<exists>s'. boot (mock_hal crc) (hw s) = Some s' \<and> mock_fs crc v s')"
proof -
  obtain v where v: "mock_fs crc v s" using reachable_ok [OF assms] by blast
  then show ?thesis
    using thread_mock [OF v] boot_mock [of "hw s" crc] mock_fs_image [OF v] by auto
qed

theorem reachable_invariant_witness:
  "\<exists>v r s'. mock_fs crc32_calc_stub v fresh \<and> fs_thread (mock_hal crc32_calc_stub) 0 fresh = Some (r, s')"
  using reachable_invariant [OF power_on [OF fresh_boot]] by blast

text \<open>
  C2. Power cut during \<open>fs_write\<close>. Run on a device that records its state before each flash
  operation, the call returns, and from every recorded state a reboot succeeds with either the
  old variables or the old ones with the new value: the write is atomic, and no other variable is
  ever lost, the relocation step it may start included.
\<close>

theorem fs_write_power_cut:
  assumes "mock_fs crc v s" "unat l \<le> 28" "unat l \<le> length d" "has_fd s name ext"
  shows "\<exists>r j. fs_write (journal_hal (mock_hal crc)) name ext d l (journaled s) = Some (r, j) \<and>
    (\<forall>w \<in> journal_states (hw j). \<exists>s'. boot (mock_hal crc) w = Some s' \<and>
       (mock_fs crc v s' \<or> mock_fs crc (v(Key name (ucast ext) \<mapsto> stored d l)) s'))"
  using cut_write_mock [OF assms] journal_boot by metis

theorem fs_write_power_cut_witness:
  "\<exists>r j. fs_write (journal_hal (mock_hal crc32_calc_stub)) 0x1234 1 [1, 2, 3] 3 (journaled fresh) = Some (r, j) \<and>
    (\<forall>w \<in> journal_states (hw j). \<exists>s'. boot (mock_hal crc32_calc_stub) w = Some s' \<and>
       (mock_fs crc32_calc_stub Map.empty s' \<or> mock_fs crc32_calc_stub one_var s'))"
  using fs_write_power_cut [OF fresh_ok, of 3 "[1, 2, 3]" "0x1234" 1] by (simp add: fresh_not_full one_var_def)

text \<open>
  C3. Power cut during relocation. Every state \<open>fs_thread\<close> passes through, the copy of a block,
  the write of the copy and the erase of the sector, reboots to exactly the same variables.
\<close>

theorem fs_thread_power_cut:
  assumes "mock_fs crc v s"
  shows "\<exists>r j. fs_thread (journal_hal (mock_hal crc)) flag (journaled s) = Some (r, j) \<and>
    (\<forall>w \<in> journal_states (hw j). \<exists>s'. boot (mock_hal crc) w = Some s' \<and> mock_fs crc v s')"
  using cut_thread_mock [OF assms, of flag] journal_boot [of crc v v] by metis

theorem fs_thread_power_cut_witness:
  "\<exists>r j. fs_thread (journal_hal (mock_hal crc32_calc_stub)) 1 (journaled fresh) = Some (r, j) \<and>
    (\<forall>w \<in> journal_states (hw j). \<exists>s'. boot (mock_hal crc32_calc_stub) w = Some s' \<and>
       mock_fs crc32_calc_stub Map.empty s')"
  using fs_thread_power_cut [OF fresh_ok] .

text \<open>
  C4. Recovery. On any well-formed flash image, one with two blocks of a variable included,
  start-up returns, establishes the invariant, and indexes exactly the variables of the image: the
  newer of two blocks decides.
\<close>

theorem boot_recovers:
  assumes "mock_ok w" "image_ok crc (mock_content w)"
  shows "\<exists>s. boot (mock_hal crc) w = Some s \<and> mock_fs crc (flash_vars crc (mock_content w)) s"
  using boot_mock [OF assms] .

theorem boot_recovers_witness:
  "\<exists>s. boot (mock_hal crc32_calc_stub) FlashMock_new = Some s \<and> mock_fs crc32_calc_stub Map.empty s"
  using boot_recovers [OF blank_image(1,2), of crc32_calc_stub] by (simp add: blank_image(3))

text \<open>
  C11. Recovery is itself interruptible: cut anywhere in its own flash writes and started again,
  it recovers the same variables.
\<close>

theorem boot_power_cut:
  assumes "mock_ok w" "image_ok crc (mock_content w)"
  shows "\<exists>j. boot (journal_hal (mock_hal crc)) (w, []) = Some j \<and>
    (\<forall>w' \<in> journal_states (hw j). \<exists>s. boot (mock_hal crc) w' = Some s \<and>
       mock_fs crc (flash_vars crc (mock_content w)) s)"
  using cut_boot_mock [OF assms refl] journal_boot [of crc "flash_vars crc (mock_content w)"] by metis

theorem boot_power_cut_witness:
  "\<exists>j. boot (journal_hal (mock_hal crc32_calc_stub)) (FlashMock_new, []) = Some j \<and>
    (\<forall>w' \<in> journal_states (hw j). \<exists>s. boot (mock_hal crc32_calc_stub) w' = Some s \<and>
       mock_fs crc32_calc_stub Map.empty s)"
  using boot_power_cut [OF blank_image(1,2), of crc32_calc_stub] by (simp add: blank_image(3))

text \<open>
  C5. \<open>fs_write\<close> on every branch, in any state of the invariant and with a buffer as long as
  \<open>block_len\<close> says: it returns. Data that does not fit a block is refused with \<open>-1\<close>, and with all sectors full it answers \<open>-2\<close>, both without
  changing anything at all. A variable without a descriptor, with none free, is refused with
  \<open>-1\<close> too, but only after its block has been programmed: from the state after the nested
  relocation step (the initial one, if the sector is not full) nothing changes but a valid block
  of the variable on flash, left under the write pointer. In every remaining case it answers 0, the
  invariant holds again and the variables are the old ones with this one updated (padded with
  zeros to 28 bytes). The nested relocation step it may take changes no variable.
\<close>

theorem fs_write_correct:
  assumes "mock_fs crc v s" "unat l \<le> length d"
  shows "\<exists>r s'. fs_write (mock_hal crc) name ext d l s = Some (r, s') \<and>
    (if FS_BLOCK_SIZE - sizeof_blockHeader < unat l then r = -1 \<and> s' = s
     else if all_full s then r = -2 \<and> s' = s
     else if \<not> has_fd s name ext then r = -1 \<and> (\<exists>s1. mock_fs crc v s1 \<and> \<not> curr_full s1 \<and>
       (\<not> curr_full s \<longrightarrow> s1 = s) \<and> stray_block crc (Key name (ucast ext)) (stored d l) s1 s')
     else r = 0 \<and> mock_fs crc (v(Key name (ucast ext) \<mapsto> stored d l)) s')"
proof -
  consider "28 < unat l" | "unat l \<le> 28" "all_full s" | "unat l \<le> 28" "\<not> all_full s" "has_fd s name ext"
    | "unat l \<le> 28" "\<not> all_full s" "\<not> has_fd s name ext"
    by linarith
  then show ?thesis
  proof cases
    case 1
    then show ?thesis using write_long_call [of l "mock_hal crc" name ext d s] by simp
  next
    case 2
    then show ?thesis using write_mock_full [OF assms(1) 2] by simp
  next
    case 3
    then show ?thesis using write_mock [OF assms(1) 3(1) assms(2) 3(3)] by simp
  next
    case 4
    then show ?thesis using write_mock_without_fd [OF assms(1) 4(1) assms(2) 4(3,2)] by auto
  qed
qed

text \<open>Three branches: a new variable on the fresh board, one too long, and a new one on a board with 300.\<close>

theorem fs_write_correct_witness:
  "\<exists>s' m m1 m'. fs_write (mock_hal crc32_calc_stub) 0x1234 1 [1, 2, 3] 3 fresh = Some (0, s') \<and>
     mock_fs crc32_calc_stub one_var s' \<and>
     fs_write (mock_hal crc32_calc_stub) 0x1234 1 (replicate 29 7) 29 fresh = Some (-1, fresh) \<and>
     boot (mock_hal crc32_calc_stub) many_board = Some m \<and>
     fs_write (mock_hal crc32_calc_stub) 0x1234 0 [1, 2, 3] 3 m = Some (-1, m') \<and>
     stray_block crc32_calc_stub (Key 0x1234 0) (stored [1, 2, 3] 3) m m'"
proof -
  obtain m where m: "boot (mock_hal crc32_calc_stub) many_board = Some m" "mock_fs crc32_calc_stub many_vars m"
      "\<not> curr_full m" "\<not> all_full m" "\<not> has_fd m 0x1234 0"
    by (rule many_boot)
  show ?thesis
    using m(1,3,4,5) fs_write_correct [OF m(2), of 3 "[1, 2, 3]" "0x1234" 0]
      fs_write_correct [OF fresh_ok, of 3 "[1, 2, 3]" "0x1234" 1]
      fs_write_correct [OF fresh_ok, of 29 "replicate 29 7" "0x1234" 1]
    by (auto simp: fresh_not_full one_var_def)
qed

text \<open>
  C6. \<open>fs_read\<close> on every branch. An extension that does not fit the header, or a variable the
  flash does not hold, gives \<open>-1\<close> and an untouched buffer. Of a variable it holds, as many
  bytes as asked are copied into the caller's buffer and the rest of the buffer is untouched, if
  these are at most the 28 bytes there are; \<open>block_len\<close> is not checked, and if it is more the
  copy reads beyond the 32-byte \<open>read_buffer\<close>, which C leaves undefined.
\<close>

theorem fs_read_correct:
  assumes "mock_fs crc v s" "unat l \<le> length buf"
  shows "if 8 \<le> unat ext \<or> v (Key name (ucast ext)) = None
    then fs_read (mock_hal crc) name ext buf l s = Some (-1, buf, s)
    else if 28 < unat l then fs_read (mock_hal crc) name ext buf l s = None
    else \<exists>s'. fs_read (mock_hal crc) name ext buf l s =
        Some (0, take (unat l) (the (v (Key name (ucast ext)))) @ drop (unat l) buf, s') \<and> mock_fs crc v s'"
proof -
  obtain n where g: "fs_ok mock_content mock_ok (crc32_calc (mock_hal crc)) v n s"
    using assms(1) by (auto simp: mock_fs_def)
  consider "8 \<le> unat ext" | "unat ext < 8" "v (Key name (ucast ext)) = None"
    | "unat ext < 8" "v (Key name (ucast ext)) \<noteq> None" "28 < unat l"
    | x where "unat ext < 8" "v (Key name (ucast ext)) = Some x" "unat l \<le> 28"
    by fastforce
  then show ?thesis
  proof cases
    case 1
    then show ?thesis by (simp add: fs_read_large)
  next
    case 2
    then show ?thesis using mock.fs_read_missing [OF g 2] by simp
  next
    case 3
    then show ?thesis using mock.fs_read_overrun [OF g 3] by simp
  next
    case 4
    then show ?thesis using read_mock [OF assms(1) 4(1,3) assms(2), of name] by simp
  qed
qed

theorem fs_read_correct_witness:
  "\<exists>s s'. mock_fs crc32_calc_stub one_var s \<and>
     fs_read (mock_hal crc32_calc_stub) 0x1234 1 [9, 9, 9, 9] 3 s = Some (0, [1, 2, 3, 9], s') \<and>
     fs_read (mock_hal crc32_calc_stub) 0x1234 2 [9, 9, 9, 9] 3 s = Some (-1, [9, 9, 9, 9], s) \<and>
     fs_read (mock_hal crc32_calc_stub) 0x1234 1 (replicate 32 0) 32 s = None"
proof -
  obtain s where s: "mock_fs crc32_calc_stub one_var s" by (rule fresh_write)
  show ?thesis
    using s fs_read_correct [OF s, of 3 "[9, 9, 9, 9]" 1 "0x1234"]
      fs_read_correct [OF s, of 3 "[9, 9, 9, 9]" 2 "0x1234"]
      fs_read_correct [OF s, of 32 "replicate 32 0" 1 "0x1234"]
    by (auto simp: one_var_def stored_def)
qed

text \<open>
  C7. Round trip: what \<open>fs_write\<close> stores \<open>fs_read\<close> returns, and every other variable reads
  as it did before the write.
\<close>

theorem fs_write_read_roundtrip:
  assumes "mock_fs crc v s" "unat l \<le> 28" "unat l \<le> length d" "has_fd s name ext" "\<not> all_full s"
    and "unat ext < 8" "unat l \<le> length buf" "unat ext' < 8" "Key name' (ucast ext') \<noteq> Key name (ucast ext)"
  shows "\<exists>s'. fs_write (mock_hal crc) name ext d l s = Some (0, s') \<and>
    map_option (\<lambda>(r, out, _). (r, out)) (fs_read (mock_hal crc) name ext buf l s')
      = Some (0, take (unat l) d @ drop (unat l) buf) \<and>
    map_option (\<lambda>(r, out, _). (r, out)) (fs_read (mock_hal crc) name' ext' buf l s')
      = map_option (\<lambda>(r, out, _). (r, out)) (fs_read (mock_hal crc) name' ext' buf l s)"
proof -
  obtain s' where s': "fs_write (mock_hal crc) name ext d l s = Some (0, s')"
      "mock_fs crc (v(Key name (ucast ext) \<mapsto> stored d l)) s'"
    using write_mock [OF assms(1-4)] assms(5) by auto
  have "take (unat l) (stored d l) = take (unat l) d" using assms(2,3) by (simp add: stored_def)
  then have "map_option (\<lambda>(r, out, _). (r, out)) (fs_read (mock_hal crc) name ext buf l s')
      = Some (0, take (unat l) d @ drop (unat l) buf)"
    using read_mock [OF s'(2) assms(6,2,7), of name] by auto
  moreover have "map_option (\<lambda>(r, out, _). (r, out)) (fs_read (mock_hal crc) name' ext' buf l s')
      = map_option (\<lambda>(r, out, _). (r, out)) (fs_read (mock_hal crc) name' ext' buf l s)"
    using read_mock [OF s'(2) assms(8,2,7), of name'] read_mock [OF assms(1,8,2,7), of name'] assms(9)
    by (cases "v (Key name' (ucast ext'))") auto
  ultimately show ?thesis using s'(1) by blast
qed

theorem fs_write_read_roundtrip_witness:
  "\<exists>s'. fs_write (mock_hal crc32_calc_stub) 0x1234 1 [1, 2, 3] 3 fresh = Some (0, s') \<and>
    map_option (\<lambda>(r, out, _). (r, out)) (fs_read (mock_hal crc32_calc_stub) 0x1234 1 [9, 9, 9, 9] 3 s')
      = Some (0, [1, 2, 3, 9])"
  using fs_write_read_roundtrip [OF fresh_ok, of 3 "[1, 2, 3]" "0x1234" 1 "[9, 9, 9, 9]" 2 "0x1234"]
  by (auto simp: fresh_not_full)

text \<open>
  C10. The relocation thread, called at any time with any flag, returns, keeps the invariant and
  changes no variable.
\<close>

theorem fs_thread_keeps_variables:
  assumes "mock_fs crc v s"
  shows "\<exists>r s'. fs_thread (mock_hal crc) flag s = Some (r, s') \<and> mock_fs crc v s'"
  using thread_mock [OF assms] .

theorem fs_thread_keeps_variables_witness:
  "\<exists>s r s'. fs_thread (mock_hal crc32_calc_stub) 1 s = Some (r, s') \<and> mock_fs crc32_calc_stub one_var s'"
  by (rule fresh_write) (use fs_thread_keeps_variables [of crc32_calc_stub one_var] in blast)

text \<open>
  C13. \<open>findRelocSector\<close> answers \<open>-1\<close> exactly when two sectors other than the active one are
  blank. Otherwise it chooses, among the full sectors other than the active one, one with the
  fewest live variables; there always is one, and its 8-bit counts do not wrap.
\<close>

theorem findRelocSector_choice:
  assumes "mock_fs crc v s"
  shows "if 2 \<le> length (blank_others s [0..<FS_NUM_SECTORS]) then findRelocSector s = (-1, s)
    else \<exists>k < FS_NUM_SECTORS. findRelocSector s = (0, s\<lparr>reloc_sector := word_of_nat k\<rparr>) \<and>
      full_other s k \<and> (\<forall>k' < FS_NUM_SECTORS. full_other s k' \<longrightarrow> fds_of s k \<le> fds_of s k')"
proof -
  obtain n where rel: "fs_rel crc n (mock_content (hw s)) s" using assms by (auto simp: mock_fs_def fs_ok_def)
  show ?thesis
  proof (cases rule: findRelocSector_ok [OF rel])
    case 1
    then show ?thesis using blank_others_card [OF rel] by simp
  next
    case (2 k)
    then show ?thesis using blank_others_card [OF rel] full_other_iff [OF rel] by auto
  qed
qed

theorem findRelocSector_choice_witness:
  "findRelocSector fresh = (-1, fresh)"
proof -
  have "map_option (\<lambda>s. length (blank_others s [0..<FS_NUM_SECTORS])) (boot (mock_hal crc32_calc_stub) FlashMock_new)
      = Some 7" by code_simp
  then have "length (blank_others fresh [0..<FS_NUM_SECTORS]) = 7" by (simp add: fresh_boot)
  then show ?thesis using findRelocSector_choice [OF fresh_ok] by simp
qed

text \<open>
  C14. The loop of \<open>updateSector\<close> ends, whatever the state: it visits the sectors after the
  active one in ring order and stops at the first that is not full; it gives up, back at the
  active sector, only when all eight are full.
\<close>

theorem next_sector_in_ring_order:
  assumes "unat (curr_sector s) < FS_NUM_SECTORS"
  shows "\<exists>r. next_sector_loop s (curr_sector s) = Some r \<and>
    (case r of
       None \<Rightarrow> \<forall>i \<in> {1..8}. SECTOR_IS_FULL s ((unat (curr_sector s) + i) mod 8)
     | Some m \<Rightarrow> \<exists>i \<in> {1..8}. m = word_of_nat ((unat (curr_sector s) + i) mod 8) \<and>
         \<not> SECTOR_IS_FULL s ((unat (curr_sector s) + i) mod 8) \<and>
         (\<forall>j \<in> {1..<i}. SECTOR_IS_FULL s ((unat (curr_sector s) + j) mod 8)))"
proof -
  have start: "word_of_nat (ring_at s (8 - 8)) = curr_sector s" using assms by (simp add: ring_at_def)
  obtain r where r: "next_sector_loop s (curr_sector s) = Some r" "ring_search s 0 r"
    using next_sector_loop_spec [of s 8] assms unfolding start by auto
  show ?thesis
  proof (rule exI [of _ r], intro conjI)
    show "next_sector_loop s (curr_sector s) = Some r" by (rule r(1))
  qed (use r(2) in \<open>cases r; force simp: ring_search_def ring_at_def Suc_le_eq\<close>)
qed

theorem next_sector_in_ring_order_witness:
  "\<exists>r. next_sector_loop (Fs_zero ()) 0 = Some r"
  using next_sector_in_ring_order [of "Fs_zero ()"] by (auto simp: Fs_zero_def)

section \<open>Where the code does not do what it seems to promise\<close>

text \<open>
  C29. \<open>fs_write\<close> cuts the extension to the header's three bits, \<open>fs_read\<close> compares all
  eight: data written under an extension above 7 cannot be read back under it, and has replaced
  the variable with the extension modulo 8.
\<close>

theorem extension_is_truncated:
  assumes "mock_fs crc v s" "unat l \<le> 28" "unat l \<le> length d" "has_fd s name ext" "\<not> all_full s"
    and "8 \<le> unat ext" "unat l \<le> length buf"
  shows "\<exists>s'. fs_write (mock_hal crc) name ext d l s = Some (0, s') \<and>
    fs_read (mock_hal crc) name ext buf l s' = Some (-1, buf, s') \<and>
    map_option (\<lambda>(r, out, _). (r, out)) (fs_read (mock_hal crc) name (ucast (ucast ext :: 3 word)) buf l s')
      = Some (0, take (unat l) d @ drop (unat l) buf)"
proof -
  obtain s' where s': "fs_write (mock_hal crc) name ext d l s = Some (0, s')"
      "mock_fs crc (v(Key name (ucast ext) \<mapsto> stored d l)) s'"
    using write_mock [OF assms(1-4)] assms(5) by auto
  have "take (unat l) (stored d l) = take (unat l) d" using assms(2,3) by (simp add: stored_def)
  then have "map_option (\<lambda>(r, out, _). (r, out)) (fs_read (mock_hal crc) name (ucast (ucast ext :: 3 word)) buf l s')
      = Some (0, take (unat l) d @ drop (unat l) buf)"
    using read_mock [OF s'(2) ucast3_less assms(2,7), of name "ucast ext", unfolded ucast3_back] by auto
  then show ?thesis using s'(1) fs_read_large [OF assms(6)] by blast
qed

theorem extension_is_truncated_witness:
  "\<exists>s'. fs_write (mock_hal crc32_calc_stub) 0x1234 9 [1, 2, 3] 3 fresh = Some (0, s') \<and>
    fs_read (mock_hal crc32_calc_stub) 0x1234 9 [0, 0, 0] 3 s' = Some (-1, [0, 0, 0], s') \<and>
    map_option (\<lambda>(r, out, _). (r, out)) (fs_read (mock_hal crc32_calc_stub) 0x1234 1 [0, 0, 0] 3 s')
      = Some (0, [1, 2, 3])"
  using extension_is_truncated [OF fresh_ok, of 3 "[1, 2, 3]" "0x1234" 9 "[0, 0, 0]"]
  by (simp add: fresh_not_full)

text \<open>
  C30. \<open>fs_init\<close> does not reset \<open>Fs.curr.fd_index\<close>. Called again on a running system, without a
  power cycle, it takes every valid block for a duplicate of itself: in any state of the
  invariant, all of them are invalidated on flash, and no other block is touched. Every read
  still answers as before the call, for any name, extension and length, since the descriptors
  stay; but the next reboot finds no variable, and every one is lost.
\<close>

theorem second_init_loses_variables:
  assumes "mock_fs crc v s"
  shows "\<exists>s' gone. fs_init (mock_hal crc) s = Some s' \<and>
    mock_content (hw s') = (\<lambda>m. let b = mock_content (hw s) m in
      if valid crc b then put_header ((get_header b)\<lparr>h_size := FS_SIZEINVALID\<rparr>) b else b) \<and>
    flash_vars crc (mock_content (hw s')) = Map.empty \<and>
    (\<forall>name ext buf l. map_option (\<lambda>(r, out, _). (r, out)) (fs_read (mock_hal crc) name ext buf l s') =
       map_option (\<lambda>(r, out, _). (r, out)) (fs_read (mock_hal crc) name ext buf l s)) \<and>
    boot (mock_hal crc) (hw s') = Some gone \<and> mock_fs crc Map.empty gone"
proof -
  obtain s' where s': "fs_init (mock_hal crc) s = Some s'" "mock_ok (hw s')"
      "mock_content (hw s') = cleared crc 1024 (mock_content (hw s))" "image_ok crc (mock_content (hw s'))"
      "flash_vars crc (mock_content (hw s')) = Map.empty"
      "\<forall>name ext buf l. map_option (\<lambda>(r, out, _). (r, out)) (fs_read (mock_hal crc) name ext buf l s') =
        map_option (\<lambda>(r, out, _). (r, out)) (fs_read (mock_hal crc) name ext buf l s)"
    using second_init_mock [OF assms] by blast
  obtain n where "layout (mock_content (hw s)) n"
    using mock_fs_image [OF assms] by (auto simp: image_ok_def)
  then have "cleared crc 1024 (mock_content (hw s)) = (\<lambda>m. let b = mock_content (hw s) m in
      if valid crc b then put_header ((get_header b)\<lparr>h_size := FS_SIZEINVALID\<rparr>) b else b)"
    by (auto simp: cleared_def Let_def fun_eq_iff dest: valid_lt)
  then show ?thesis using s' boot_mock [OF s'(2,4)] by auto
qed

text \<open>One variable: it reads after the second \<open>fs_init\<close>, and no longer after the reboot.\<close>

theorem second_init_loses_variables_witness:
  "\<exists>s s' t gone. fs_write (mock_hal crc32_calc_stub) 0x1234 1 [1, 2, 3] 3 fresh = Some (0, s) \<and>
     fs_init (mock_hal crc32_calc_stub) s = Some s' \<and>
     fs_read (mock_hal crc32_calc_stub) 0x1234 1 [0, 0, 0] 3 s' = Some (0, [1, 2, 3], t) \<and>
     boot (mock_hal crc32_calc_stub) (hw s') = Some gone \<and>
     fs_read (mock_hal crc32_calc_stub) 0x1234 1 [0, 0, 0] 3 gone = Some (-1, [0, 0, 0], gone)"
proof -
  obtain s where s: "fs_write (mock_hal crc32_calc_stub) 0x1234 1 [1, 2, 3] 3 fresh = Some (0, s)"
      "mock_fs crc32_calc_stub one_var s"
    by (rule fresh_write)
  obtain s' gone where s': "fs_init (mock_hal crc32_calc_stub) s = Some s'"
      "map_option (\<lambda>(r, out, _). (r, out)) (fs_read (mock_hal crc32_calc_stub) 0x1234 1 [0, 0, 0] 3 s') =
       map_option (\<lambda>(r, out, _). (r, out)) (fs_read (mock_hal crc32_calc_stub) 0x1234 1 [0, 0, 0] 3 s)"
      "boot (mock_hal crc32_calc_stub) (hw s') = Some gone" "mock_fs crc32_calc_stub Map.empty gone"
    using second_init_loses_variables [OF s(2)] by blast
  have "map_option (\<lambda>(r, out, _). (r, out)) (fs_read (mock_hal crc32_calc_stub) 0x1234 1 [0, 0, 0] 3 s)
      = Some (0, [1, 2, 3])"
    using read_mock [OF s(2), of 1 3 "[0, 0, 0]" "0x1234"] by (auto simp: one_var_def stored_def)
  moreover have "fs_read (mock_hal crc32_calc_stub) 0x1234 1 [0, 0, 0] 3 gone = Some (-1, [0, 0, 0], gone)"
    using read_mock [OF s'(4), of 1 3 "[0, 0, 0]" "0x1234"] by simp
  ultimately show ?thesis using s(1) s' by auto
qed

end
